(* ===== verification/Metrics_Prelude.thy ===== *)
theory Metrics_Prelude
  imports
    Main
    "HOL-Library.Word"
    "HOL-Library.Char_ord"
    "HOL-Library.List_Lexorder"
    "HOL-Library.Option_ord"
    "HOL-Library.Product_Lexorder"
    "HOL-Library.Multiset"
    "HOL-Library.Sublist"
begin

text \<open>
  Shared vocabulary of the development: machine integers at their Rust width, panics as values,
  decimal rendering of integers, and the facts on words, runs of equal keys and interleavings that
  the component theories use. A Rust \<open>str\<close> is its sequence of UTF-8 bytes, a \<open>string\<close> here (a
  \<open>char\<close> is one byte); \<open>str\<close> comparison in Rust is bytewise and lexicographic, which is the order
  of \<open>Char_ord\<close> and \<open>List_Lexorder\<close>. A \<open>usize\<close> that counts elements of a vector is a \<open>nat\<close>.
\<close>

unbundle bit_operations_syntax

named_theorems wf_intro \<open>operations that keep a well-formedness invariant\<close>
named_theorems run_simps \<open>unfolding rules that evaluate an operation under its invariant\<close>

section \<open>Types\<close>

type_synonym u16 = "16 word"
type_synonym u64 = "64 word"
type_synonym i64 = "64 word"
type_synonym str = string

abbreviation newline :: char where
  "newline \<equiv> CHR 0x0A"

abbreviation quote :: char where
  "quote \<equiv> CHR 0x22"

abbreviation backslash :: char where
  "backslash \<equiv> CHR 0x5C"

section \<open>Panics and undefined behaviour as values\<close>

datatype panic =
    AssertFailed str
  | IndexOutOfBounds
  | DebugAssert
  | UninitRead
  | DanglingPointer

type_synonym 'a result = "panic + 'a"

definition res_bind :: "'a result \<Rightarrow> ('a \<Rightarrow> 'b result) \<Rightarrow> 'b result" where
  "res_bind x f = (case x of Inl e \<Rightarrow> Inl e | Inr a \<Rightarrow> f a)"

definition assert_or :: "bool \<Rightarrow> panic \<Rightarrow> unit result" where
  "assert_or b e = (if b then Inr () else Inl e)"

text \<open>Indexing a slice or a vector panics out of range.\<close>

definition index_at :: "'a list \<Rightarrow> nat \<Rightarrow> 'a result" where
  "index_at xs i = (if i < length xs then Inr (xs ! i) else Inl IndexOutOfBounds)"

text \<open>A Rust \<open>for\<close> loop whose body may panic, collecting what the body returns.\<close>

fun map_res :: "('a \<Rightarrow> 'b result) \<Rightarrow> 'a list \<Rightarrow> 'b list result" where
  "map_res f [] = Inr []"
| "map_res f (x # xs) = res_bind (f x) (\<lambda>y. res_bind (map_res f xs) (\<lambda>ys. Inr (y # ys)))"

text \<open>\<open>map.entry(k).or_default().insert(name, v)\<close> on a map of maps.\<close>

definition entry_insert :: "('k \<rightharpoonup> ('n \<rightharpoonup> 'v)) \<Rightarrow> 'k \<Rightarrow> 'n \<Rightarrow> 'v \<Rightarrow> ('k \<rightharpoonup> ('n \<rightharpoonup> 'v))" where
  "entry_insert m k name v = m(k \<mapsto> (case m k of None \<Rightarrow> Map.empty | Some names \<Rightarrow> names)(name \<mapsto> v))"

text \<open>\<open>map.get(k)?.get(name)\<close> on a map of maps.\<close>

definition entry_get :: "('k \<rightharpoonup> ('n \<rightharpoonup> 'v)) \<Rightarrow> 'k \<Rightarrow> 'n \<Rightarrow> 'v option" where
  "entry_get m k name = Option.bind (m k) (\<lambda>names. names name)"

section \<open>Machine arithmetic of the Rust standard library\<close>

definition saturating_add :: "u64 \<Rightarrow> u64 \<Rightarrow> u64" where
  "saturating_add a b = (if unat a + unat b < 2 ^ 64 then a + b else - 1)"

definition saturating_sub :: "u64 \<Rightarrow> u64 \<Rightarrow> u64" where
  "saturating_sub a b = (if b \<le> a then a - b else 0)"

definition clamp_i64 :: "int \<Rightarrow> int" where
  "clamp_i64 s = max (- (2 ^ 63)) (min (2 ^ 63 - 1) s)"

definition saturating_add_i64 :: "i64 \<Rightarrow> i64 \<Rightarrow> i64" where
  "saturating_add_i64 a b = word_of_int (clamp_i64 (sint a + sint b))"

section \<open>Decimal rendering of integers\<close>

definition digit_char :: "nat \<Rightarrow> char" where
  "digit_char d = char_of (48 + d)"

fun show_nat :: "nat \<Rightarrow> str" where
  "show_nat n = (if n < 10 then [digit_char n] else show_nat (n div 10) @ [digit_char (n mod 10)])"

declare show_nat.simps [simp del]

definition show_u64 :: "u64 \<Rightarrow> str" where
  "show_u64 w = show_nat (unat w)"

definition show_i64 :: "i64 \<Rightarrow> str" where
  "show_i64 w = (if sint w < 0 then CHR ''-'' # show_nat (nat (- sint w)) else show_nat (nat (sint w)))"

text \<open>The format \<open>{:02}\<close>: at least two digits, filled with zeros on the left.\<close>

definition show_pad2 :: "nat \<Rightarrow> str" where
  "show_pad2 n = replicate (2 - length (show_nat n)) (CHR ''0'') @ show_nat n"

text \<open>The reading direction, used to state what a rendered number denotes.\<close>

definition digit_value :: "char \<Rightarrow> nat" where
  "digit_value c = of_char c - 48"

definition read_nat :: "str \<Rightarrow> nat" where
  "read_nat = foldl (\<lambda>acc c. 10 * acc + digit_value c) 0"

definition is_digit :: "char \<Rightarrow> bool" where
  "is_digit c \<longleftrightarrow> 48 \<le> (of_char c :: nat) \<and> (of_char c :: nat) \<le> 57"

section \<open>Runs of equal keys\<close>

text \<open>
  The maximal runs of adjacent elements with one key, in order. A loop that walks a sorted vector
  and handles each group of equal keys at once handles exactly these.
\<close>

function runs :: "('a \<Rightarrow> 'k) \<Rightarrow> 'a list \<Rightarrow> 'a list list" where
  "runs key [] = []"
| "runs key (x # xs) =
     (x # takeWhile (\<lambda>y. key y = key x) xs) # runs key (dropWhile (\<lambda>y. key y = key x) xs)"
  by pat_completeness auto
termination
  by (relation "measure (\<lambda>(key, xs). length xs)") (auto simp: le_imp_less_Suc length_dropWhile_le)

section \<open>Interleavings of threads\<close>

text \<open>
  The atomic steps of several threads, each in its program order, merged into one sequence by an
  arbitrary scheduler.
\<close>

inductive interleave :: "'a list list \<Rightarrow> 'a list \<Rightarrow> bool" where
  finished: "\<forall>t \<in> set ts. t = [] \<Longrightarrow> interleave ts []"
| turn: "i < length ts \<Longrightarrow> ts ! i = x # rest \<Longrightarrow> interleave (ts[i := rest]) zs \<Longrightarrow>
     interleave ts (x # zs)"

section \<open>Lemmas: results\<close>

lemma res_bind_simps [simp]:
  "res_bind (Inl e) f = Inl e"
  "res_bind (Inr a) f = f a"
  by (simp_all add: res_bind_def)

lemma res_bind_Inr_iff:
  "res_bind x f = Inr b \<longleftrightarrow> (\<exists>a. x = Inr a \<and> f a = Inr b)"
  by (cases x) auto

lemma res_bind_cong [fundef_cong]:
  assumes "x = x'" and "\<And>a. x' = Inr a \<Longrightarrow> f a = g a"
  shows "res_bind x f = res_bind x' g"
  using assms by (cases x') auto

lemma assert_or_simps [simp]:
  "assert_or True e = Inr ()"
  "assert_or False e = Inl e"
  by (simp_all add: assert_or_def)

lemma index_at_less [simp]: "i < length xs \<Longrightarrow> index_at xs i = Inr (xs ! i)"
  by (simp add: index_at_def)

lemma subseq_subset: "subseq xs ys \<Longrightarrow> set xs \<subseteq> set ys"
  by (auto dest: list_emb_set)

lemma subseq_distinct: "subseq xs ys \<Longrightarrow> distinct ys \<Longrightarrow> distinct xs"
  by (induction rule: list_emb.induct) (auto dest: subseq_subset)

lemma subseq_concat:
  assumes "length xss \<le> length yss" and "\<And>i. i < length xss \<Longrightarrow> subseq (xss ! i) (yss ! i)"
  shows "subseq (concat xss) (concat yss)"
  using assms
proof (induction xss arbitrary: yss)
  case (Cons xs xss)
  then obtain ys yss' where y: "yss = ys # yss'" by (cases yss) auto
  have "subseq (concat xss) (concat yss')"
    using Cons.prems(1) Cons.prems(2) [of "Suc _"] by (intro Cons.IH) (auto simp: y)
  moreover have "subseq xs ys" using Cons.prems(2) [of 0] y by simp
  ultimately show ?case by (simp add: y list_emb_append_mono)
qed simp

lemma map_res_Inr:
  "(\<And>x. x \<in> set xs \<Longrightarrow> f x = Inr (g x)) \<Longrightarrow> map_res f xs = Inr (map g xs)"
  by (induction xs) auto

lemma map_res_Inr_iff:
  "map_res f xs = Inr ys \<longleftrightarrow> list_all2 (\<lambda>x y. f x = Inr y) xs ys"
  by (induction xs arbitrary: ys) (auto simp: res_bind_Inr_iff list_all2_Cons1)

lemma entry_get_insert [simp]:
  "entry_get (entry_insert m k name v) k' name' =
     (if k' = k \<and> name' = name then Some v else entry_get m k' name')"
  by (auto simp: entry_get_def entry_insert_def split: option.splits)

lemma entry_get_empty [simp]: "entry_get Map.empty k name = None"
  by (simp add: entry_get_def)

lemma map_of_snoc_fresh: "k \<notin> fst ` set xs \<Longrightarrow> map_of (xs @ [(k, v)]) = (map_of xs)(k \<mapsto> v)"
  by (induction xs) (auto simp: fun_eq_iff)

lemma map_of_map_dep:
  "map_of (map (\<lambda>m. (key m, f (key m) (val m))) ms) k =
     map_option (f k) (map_of (map (\<lambda>m. (key m, val m)) ms) k)"
  by (induction ms) simp_all

section \<open>Lemmas: machine arithmetic\<close>

lemma unat_u64_less [simp]: "unat (w :: u64) < 18446744073709551616"
  by (rule order.strict_trans2 [OF unsigned_less]) simp

lemma unat_saturating_add:
  "unat (saturating_add a b) = min (unat a + unat b) (2 ^ 64 - 1)"
proof (cases "unat a + unat b < 2 ^ 64")
  case True
  then show ?thesis
    by (simp add: saturating_add_def unat_add_lem [THEN iffD1])
next
  case False
  have "unat (- 1 :: u64) = 2 ^ 64 - 1"
    by (simp add: unsigned_minus_1_eq_mask mask_eq_exp_minus_1)
  with False show ?thesis
    by (simp add: saturating_add_def)
qed

lemma unat_saturating_sub: "unat (saturating_sub a b) = unat a - unat b"
  by (auto simp: saturating_sub_def unat_sub word_le_nat_alt)

lemma sint_saturating_add_i64:
  "sint (saturating_add_i64 a b) = clamp_i64 (sint a + sint b)"
proof -
  have "- (2 ^ 63) \<le> clamp_i64 s \<and> clamp_i64 s < 2 ^ 63" for s
    by (auto simp: clamp_i64_def)
  then have "signed_take_bit 63 (clamp_i64 (sint a + sint b)) = clamp_i64 (sint a + sint b)"
    by (intro signed_take_bit_int_eq_self) auto
  then show ?thesis
    by (simp add: saturating_add_i64_def sint_sbintrunc')
qed

lemma fold_saturating_add:
  "unat (fold (\<lambda>x acc. saturating_add acc (f x)) xs a) =
     min (unat a + (\<Sum>x\<leftarrow>xs. unat (f x))) (2 ^ 64 - 1)"
proof (induction xs arbitrary: a)
  case Nil
  show ?case using unat_u64_less [of a] by (simp del: unat_u64_less)
next
  case (Cons x xs)
  show ?case by (simp add: Cons.IH unat_saturating_add)
qed

section \<open>Lemmas: decimal rendering\<close>

lemma of_char_digit_char [simp]: "d < 10 \<Longrightarrow> of_char (digit_char d) = 48 + (d :: nat)"
  by (simp add: digit_char_def)

lemma digit_value_digit_char [simp]: "d < 10 \<Longrightarrow> digit_value (digit_char d) = d"
  by (simp add: digit_value_def)

lemma is_digit_digit_char [simp]: "d < 10 \<Longrightarrow> is_digit (digit_char d)"
  by (simp add: is_digit_def)

lemma read_nat_snoc: "read_nat (xs @ [c]) = 10 * read_nat xs + digit_value c"
  by (simp add: read_nat_def)

lemma read_show_nat [simp]: "read_nat (show_nat n) = n"
proof (induction n rule: show_nat.induct)
  case (1 n)
  then show ?case
    by (cases "n < 10") (simp_all add: show_nat.simps [of n] read_nat_snoc, simp add: read_nat_def)
qed

lemma show_nat_inject [simp]: "show_nat m = show_nat n \<longleftrightarrow> m = n"
  by (metis read_show_nat)

lemma show_nat_digits: "c \<in> set (show_nat n) \<Longrightarrow> is_digit c"
proof (induction n rule: show_nat.induct)
  case (1 n)
  then show ?case
    by (cases "n < 10") (auto simp: show_nat.simps [of n])
qed

lemma show_nat_not_Nil [simp]: "show_nat n \<noteq> []"
  by (simp add: show_nat.simps [of n])

lemma length_show_nat_less: "n < 10 ^ Suc k \<Longrightarrow> length (show_nat n) \<le> Suc k"
proof (induction k arbitrary: n)
  case 0
  then show ?case by (simp add: show_nat.simps [of n])
next
  case (Suc k)
  then have "n div 10 < 10 ^ Suc k" by (simp add: less_mult_imp_div_less)
  with Suc.IH show ?case by (simp add: show_nat.simps [of n])
qed

lemma length_show_pad2: "n < 100 \<Longrightarrow> length (show_pad2 n) = 2"
  using length_show_nat_less [of n 1] by (cases "show_nat n") (auto simp: show_pad2_def)

lemma read_nat_zeros: "read_nat (replicate k (CHR ''0'') @ xs) = read_nat xs"
  by (induction k) (simp_all add: read_nat_def digit_value_def)

lemma read_show_pad2 [simp]: "read_nat (show_pad2 n) = n"
  by (simp add: show_pad2_def read_nat_zeros)

lemma is_digit_not_special:
  assumes "is_digit c"
  shows "c \<noteq> newline" "c \<noteq> quote" "c \<noteq> backslash" "c \<noteq> CHR ''.''" "c \<noteq> CHR ''-''" "c \<noteq> CHR '' ''"
  using assms by (auto simp: is_digit_def)

section \<open>Lemmas: runs of equal keys\<close>

lemma concat_runs [simp]: "concat (runs key xs) = xs"
  by (induction key xs rule: runs.induct) auto

lemma runs_uniform: "r \<in> set (runs key xs) \<Longrightarrow> x \<in> set r \<Longrightarrow> key x = key (hd r)"
  by (induction key xs rule: runs.induct) (auto dest: set_takeWhileD)

lemma runs_nonempty: "r \<in> set (runs key xs) \<Longrightarrow> r \<noteq> []"
  by (induction key xs rule: runs.induct) auto

lemma runs_subset: "r \<in> set (runs key xs) \<Longrightarrow> set r \<subseteq> set xs"
  by (metis concat_runs UN_upper set_concat)

lemma sorted_dropWhile_less:
  fixes key :: "'a \<Rightarrow> 'k :: linorder"
  assumes "sorted (map key (x # xs))" and "y \<in> set (dropWhile (\<lambda>y. key y = key x) xs)"
  shows "key x < key y"
  using assms
proof (induction xs)
  case (Cons z zs)
  show ?case
  proof (cases "key z = key x")
    case True
    with Cons show ?thesis by auto
  next
    case False
    with Cons.prems have "key x < key z" by auto
    moreover from False Cons.prems have "key z \<le> key y" by auto
    ultimately show ?thesis by simp
  qed
qed simp

lemma sorted_map_dropWhile:
  "sorted (map key xs) \<Longrightarrow> sorted (map key (dropWhile P xs))"
  by (induction xs) auto

lemma runs_filter:
  fixes key :: "'a \<Rightarrow> 'k :: linorder"
  assumes "sorted (map key xs)" and "r \<in> set (runs key xs)"
  shows "r = filter (\<lambda>y. key y = key (hd r)) xs"
  using assms
proof (induction key xs rule: runs.induct)
  case (2 key x xs)
  let ?tw = "takeWhile (\<lambda>y. key y = key x) xs" and ?dw = "dropWhile (\<lambda>y. key y = key x) xs"
  have split: "xs = ?tw @ ?dw" by simp
  have tw: "filter (\<lambda>y. key y = key x) ?tw = ?tw"
    by (simp add: filter_id_conv) (metis set_takeWhileD)
  have dw: "key x < key y" if "y \<in> set ?dw" for y
    by (rule sorted_dropWhile_less [OF "2.prems"(1) that])
  from "2.prems"(2) consider "r = x # ?tw" | "r \<in> set (runs key ?dw)" by auto
  then show ?case
  proof cases
    case 1
    have "filter (\<lambda>y. key y = key x) ?dw = []"
      using dw by (fastforce simp: filter_empty_conv)
    with tw 1 show ?thesis by (subst split) (simp only: filter.simps filter_append list.sel, simp)
  next
    case 2
    have IH: "r = filter (\<lambda>y. key y = key (hd r)) ?dw"
      using "2.IH" "2.prems"(1) 2 sorted_map_dropWhile [of key xs] by simp
    have "hd r \<in> set ?dw"
      using runs_subset [OF 2] runs_nonempty [OF 2] by auto
    from dw [OF this] have less: "key x < key (hd r)" .
    have "filter (\<lambda>y. key y = key (hd r)) ?tw = []"
      using less by (auto simp: filter_empty_conv dest: set_takeWhileD)
    then have "filter (\<lambda>y. key y = key (hd r)) xs = filter (\<lambda>y. key y = key (hd r)) ?dw"
      by (subst split) (simp only: filter_append append_Nil)
    with IH less show ?thesis by simp
  qed
qed simp

lemma distinct_runs_keys:
  fixes key :: "'a \<Rightarrow> 'k :: linorder"
  assumes "sorted (map key xs)"
  shows "distinct (map (\<lambda>r. key (hd r)) (runs key xs))"
  using assms
proof (induction key xs rule: runs.induct)
  case (2 key x xs)
  let ?dw = "dropWhile (\<lambda>y. key y = key x) xs"
  have "key (hd r) \<noteq> key x" if "r \<in> set (runs key ?dw)" for r
    using sorted_dropWhile_less [OF "2.prems", of "hd r"] runs_subset [OF that] runs_nonempty [OF that]
    by force
  with 2 show ?case by (auto simp: sorted_map_dropWhile image_iff) metis
qed simp

section \<open>Lemmas: concatenations of shards\<close>

lemma mset_concat_update:
  "i < length xss \<Longrightarrow> mset (concat (xss[i := ys])) + mset (xss ! i) = mset (concat xss) + mset ys"
  by (subst (3) id_take_nth_drop [of i xss])
    (simp_all add: upd_conv_take_nth_drop union_ac)

lemma distinct_concat_tagged:
  assumes "\<And>i. i < length xss \<Longrightarrow> distinct (xss ! i)"
    and "\<And>i x. i < length xss \<Longrightarrow> x \<in> set (xss ! i) \<Longrightarrow> tag x = i"
  shows "distinct (concat xss)"
  using assms
proof (induction xss rule: rev_induct)
  case (snoc ys xss)
  have IH: "distinct (concat xss)"
    using snoc.prems by (intro snoc.IH) (metis (no_types) length_append_singleton less_SucI nth_append)+
  have ys: "distinct ys" "\<And>x. x \<in> set ys \<Longrightarrow> tag x = length xss"
    using snoc.prems [of "length xss"] by simp_all
  have "tag x < length xss" if "x \<in> set (concat xss)" for x
  proof -
    from that obtain i where "i < length xss" "x \<in> set (xss ! i)"
      by (auto simp: in_set_conv_nth [of _ xss])
    with snoc.prems(2) [of i x] show ?thesis by (simp add: nth_append)
  qed
  with IH ys show ?case by fastforce
qed simp

section \<open>Lemmas: interleavings\<close>

lemma mset_interleave: "interleave ts zs \<Longrightarrow> mset zs = mset (concat ts)"
proof (induction rule: interleave.induct)
  case (finished ts)
  then show ?case by simp
next
  case (turn i ts x rest zs)
  have "mset (concat ts) = add_mset x (mset (concat (ts[i := rest])))"
    using turn.hyps(1,2)
    by (subst id_take_nth_drop [OF turn.hyps(1)], subst upd_conv_take_nth_drop [OF turn.hyps(1)])
      (simp add: union_assoc)
  with turn.IH show ?case by simp
qed

lemma interleave_Cons_Nil: "interleave ts zs \<Longrightarrow> interleave ([] # ts) zs"
proof (induction rule: interleave.induct)
  case (finished ts)
  then show ?case by (intro interleave.finished) simp
next
  case (turn i ts x rest zs)
  then show ?case by (intro interleave.turn [of "Suc i"]) simp_all
qed

text \<open>Running the threads one after the other is one of the interleavings.\<close>

lemma interleave_concat: "interleave ts (concat ts)"
proof (induction ts)
  case Nil
  show ?case by (simp add: interleave.finished)
next
  case (Cons t ts)
  show ?case
  proof (induction t)
    case Nil
    with Cons show ?case by (simp add: interleave_Cons_Nil)
  next
    case (Cons x t)
    then have "interleave (((x # t) # ts)[0 := t]) (concat (t # ts))" by simp
    then have "interleave ((x # t) # ts) (x # concat (t # ts))"
      by (rule interleave.turn [of 0, rotated 2]) simp_all
    then show ?case by simp
  qed
qed

text \<open>
  The interface of a shared object whose atomic steps commute: an atomic counter under
  \<open>fetch_add\<close>, a slot of such counters. Whatever the scheduler does, no step is lost.
\<close>

locale commuting_steps =
  fixes act :: "'op \<Rightarrow> 's \<Rightarrow> 's"
  assumes commute: "act a (act b s) = act b (act a s)"
begin

lemma fold_perm:
  assumes "mset xs = mset ys"
  shows "fold act xs s = fold act ys s"
proof -
  have "act x \<circ> act y = act y \<circ> act x" for x y
    by (rule ext) (simp add: commute)
  then have "fold act xs = fold act ys"
    using assms by (intro fold_multiset_equiv) simp_all
  then show ?thesis by simp
qed

lemma schedule_independent:
  "interleave ts zs \<Longrightarrow> fold act zs s = fold act (concat ts) s"
  by (rule fold_perm) (rule mset_interleave)

end

end
