(* ===== verification/Resource_Labels.thy ===== *)
theory Resource_Labels
  imports Metrics_Prelude
begin

text \<open>
  The immutable resource labels of \<open>src/src/resource.rs\<close>: the logical operation, the connection
  role, the label record with its builder methods, and the order that \<open>derive(Ord)\<close> gives them
  (constructors in declaration order, fields compared from left to right, \<open>None\<close> first).
\<close>

section \<open>Data\<close>

datatype metric_access = AccessRead | AccessWrite | AccessOther

datatype connection_role = RoleRead | RoleWrite | RoleShared

record resource_labels =
  rl_name :: str
  rl_endpoint :: str
  rl_access :: "metric_access option"
  rl_role :: "connection_role option"

fun access_label :: "metric_access \<Rightarrow> str" where
  "access_label AccessRead = ''read''"
| "access_label AccessWrite = ''write''"
| "access_label AccessOther = ''other''"

fun role_label :: "connection_role \<Rightarrow> str" where
  "role_label RoleRead = ''read''"
| "role_label RoleWrite = ''write''"
| "role_label RoleShared = ''shared''"

definition resource_labels_new :: "str \<Rightarrow> str \<Rightarrow> resource_labels" where
  "resource_labels_new name endpoint =
     \<lparr>rl_name = name, rl_endpoint = endpoint, rl_access = None, rl_role = None\<rparr>"

definition with_access :: "metric_access \<Rightarrow> resource_labels \<Rightarrow> resource_labels" where
  "with_access access labels = labels\<lparr>rl_access := Some access\<rparr>"

definition with_role :: "connection_role \<Rightarrow> resource_labels \<Rightarrow> resource_labels" where
  "with_role role labels = labels\<lparr>rl_role := Some role\<rparr>"

section \<open>Order\<close>

fun access_rank :: "metric_access \<Rightarrow> nat" where
  "access_rank AccessRead = 0"
| "access_rank AccessWrite = 1"
| "access_rank AccessOther = 2"

fun role_rank :: "connection_role \<Rightarrow> nat" where
  "role_rank RoleRead = 0"
| "role_rank RoleWrite = 1"
| "role_rank RoleShared = 2"

lemma access_rank_inject [simp]: "access_rank a = access_rank b \<longleftrightarrow> a = b"
  by (cases a; cases b) simp_all

lemma role_rank_inject [simp]: "role_rank a = role_rank b \<longleftrightarrow> a = b"
  by (cases a; cases b) simp_all

instantiation metric_access :: linorder
begin

definition less_eq_metric_access :: "metric_access \<Rightarrow> metric_access \<Rightarrow> bool" where
  "less_eq_metric_access a b \<longleftrightarrow> access_rank a \<le> access_rank b"

definition less_metric_access :: "metric_access \<Rightarrow> metric_access \<Rightarrow> bool" where
  "less_metric_access a b \<longleftrightarrow> access_rank a < access_rank b"

instance
  by standard (auto simp: less_eq_metric_access_def less_metric_access_def)

end

instantiation connection_role :: linorder
begin

definition less_eq_connection_role :: "connection_role \<Rightarrow> connection_role \<Rightarrow> bool" where
  "less_eq_connection_role a b \<longleftrightarrow> role_rank a \<le> role_rank b"

definition less_connection_role :: "connection_role \<Rightarrow> connection_role \<Rightarrow> bool" where
  "less_connection_role a b \<longleftrightarrow> role_rank a < role_rank b"

instance
  by standard (auto simp: less_eq_connection_role_def less_connection_role_def)

end

text \<open>The key that the derived comparison of \<open>ResourceLabels\<close> compares lexicographically.\<close>

definition labels_key ::
  "('a :: linorder) resource_labels_ext \<Rightarrow>
     str \<times> str \<times> metric_access option \<times> connection_role option \<times> 'a" where
  "labels_key l = (rl_name l, rl_endpoint l, rl_access l, rl_role l, resource_labels.more l)"

lemma labels_key_inject [simp]: "labels_key a = labels_key b \<longleftrightarrow> a = b"
  by (cases a; cases b) (simp add: labels_key_def)

instantiation resource_labels_ext :: (linorder) linorder
begin

definition less_eq_resource_labels_ext ::
  "'a resource_labels_ext \<Rightarrow> 'a resource_labels_ext \<Rightarrow> bool" where
  "less_eq_resource_labels_ext a b \<longleftrightarrow> labels_key a \<le> labels_key b"

definition less_resource_labels_ext ::
  "'a resource_labels_ext \<Rightarrow> 'a resource_labels_ext \<Rightarrow> bool" where
  "less_resource_labels_ext a b \<longleftrightarrow> labels_key a < labels_key b"

instance
  by standard
    (auto simp: less_eq_resource_labels_ext_def less_resource_labels_ext_def less_le_not_le
      simp del: less_eq_prod_simp less_prod_simp intro: order_trans dest: order_antisym)

end

section \<open>Lemmas\<close>

lemma access_label_inject [simp]: "access_label a = access_label b \<longleftrightarrow> a = b"
  by (cases a; cases b) simp_all

lemma role_label_inject [simp]: "role_label a = role_label b \<longleftrightarrow> a = b"
  by (cases a; cases b) simp_all

lemma with_access_role_commute: "with_access a (with_role r l) = with_role r (with_access a l)"
  by (simp add: with_access_def with_role_def)

end
