(* ===== verification/Metric_Types.thy ===== *)
theory Metric_Types
  imports Resource_Labels
begin

text \<open>
  The business identity of a metric: \<open>ResourceMetric\<close>, \<open>MetricType\<close> and the tables on it
  (\<open>src/src/metric.rs\<close>), the counter policies, and the export plans of \<open>src/src/plan.rs\<close>.
  A status code is a \<open>u16\<close>; \<open>validate\<close> panics outside 100..=599.
\<close>

section \<open>Counter policy and profile format\<close>

datatype metric_policy = PolicyResource | PolicyService | PolicyAccess

datatype profile_format = FormatResource | FormatAccessStatistic

section \<open>Metric types\<close>

datatype resource_metric = Req | Conn

datatype metric_type =
    Log
  | Redis resource_metric
  | Mysql resource_metric
  | Memcache resource_metric
  | McDetail
  | Http resource_metric
  | HttpAll
  | ApiAll
  | Api u16
  | Api3xx
  | Api4xx
  | Api5xx
  | ApiTimeout
  | Rpc resource_metric
  | Service resource_metric
  | SocketIo resource_metric
  | RpcServiceWhole

fun is_conn :: "metric_type \<Rightarrow> bool" where
  "is_conn (Redis Conn) = True"
| "is_conn (Mysql Conn) = True"
| "is_conn (Memcache Conn) = True"
| "is_conn (Http Conn) = True"
| "is_conn (Rpc Conn) = True"
| "is_conn (Service Conn) = True"
| "is_conn (SocketIo Conn) = True"
| "is_conn _ = False"

definition valid_status :: "u16 \<Rightarrow> bool" where
  "valid_status code \<longleftrightarrow> 100 \<le> code \<and> code \<le> 599"

fun validate :: "metric_type \<Rightarrow> unit result" where
  "validate (Api code) = assert_or (valid_status code) (AssertFailed ''invalid HTTP status code'')"
| "validate _ = Inr ()"

fun policy_of :: "metric_type \<Rightarrow> metric_policy" where
  "policy_of Log = PolicyResource"
| "policy_of (Redis _) = PolicyResource"
| "policy_of (Mysql _) = PolicyResource"
| "policy_of (Memcache _) = PolicyResource"
| "policy_of McDetail = PolicyResource"
| "policy_of (Http _) = PolicyResource"
| "policy_of HttpAll = PolicyService"
| "policy_of (Service _) = PolicyService"
| "policy_of (SocketIo _) = PolicyService"
| "policy_of ApiAll = PolicyService"
| "policy_of (Api _) = PolicyService"
| "policy_of Api3xx = PolicyService"
| "policy_of Api4xx = PolicyService"
| "policy_of Api5xx = PolicyService"
| "policy_of ApiTimeout = PolicyService"
| "policy_of (Rpc _) = PolicyAccess"
| "policy_of RpcServiceWhole = PolicyAccess"

fun output_of :: "metric_type \<Rightarrow> str \<times> profile_format" where
  "output_of Log = (''LOG'', FormatResource)"
| "output_of (Redis _) = (''REDIS'', FormatResource)"
| "output_of (Mysql _) = (''MYSQL'', FormatResource)"
| "output_of (Memcache _) = (''MC'', FormatResource)"
| "output_of McDetail = (''MCDETAIL'', FormatResource)"
| "output_of (Http _) = (''HTTP'', FormatResource)"
| "output_of HttpAll = (''HTTP'', FormatResource)"
| "output_of ApiAll = (''API'', FormatResource)"
| "output_of (Api _) = (''API_RESPONSE'', FormatResource)"
| "output_of Api3xx = (''API3XX'', FormatResource)"
| "output_of Api4xx = (''API4XX'', FormatResource)"
| "output_of Api5xx = (''API5XX'', FormatResource)"
| "output_of ApiTimeout = (''APITO'', FormatResource)"
| "output_of (Service _) = (''SERVICE'', FormatResource)"
| "output_of (SocketIo _) = (''SOCKET_IO'', FormatResource)"
| "output_of (Rpc _) = (''RPC'', FormatAccessStatistic)"
| "output_of RpcServiceWhole = (''RPC_SERVICE_WHOLE'', FormatAccessStatistic)"

record metric_spec =
  slow_threshold_us :: u64

fun spec_of :: "metric_policy \<Rightarrow> metric_spec" where
  "spec_of PolicyResource = \<lparr>slow_threshold_us = 50000\<rparr>"
| "spec_of PolicyService = \<lparr>slow_threshold_us = 200000\<rparr>"
| "spec_of PolicyAccess = \<lparr>slow_threshold_us = 200000\<rparr>"

section \<open>Export plans\<close>

record profile_output =
  po_type :: str
  po_name :: str
  po_resource :: "resource_labels option"

definition profile_output_new :: "str \<Rightarrow> str \<Rightarrow> profile_output" where
  "profile_output_new ty name = \<lparr>po_type = ty, po_name = name, po_resource = None\<rparr>"

record profile_plan =
  pp_identity :: str
  pp_policy :: metric_policy
  pp_outputs :: "profile_output list"
  pp_aggregate :: "profile_output option"

definition profile_plan_new ::
  "str \<Rightarrow> metric_policy \<Rightarrow> profile_format \<Rightarrow> str \<Rightarrow> str \<Rightarrow> profile_plan" where
  "profile_plan_new identity policy fmt ty name =
     \<lparr>pp_identity = identity, pp_policy = policy,
      pp_outputs = [profile_output_new ty name], pp_aggregate = None\<rparr>"

definition plan_alias :: "str \<Rightarrow> str \<Rightarrow> profile_plan \<Rightarrow> profile_plan" where
  "plan_alias ty name plan =
     plan\<lparr>pp_outputs := pp_outputs plan @ [profile_output_new ty name]\<rparr>"

definition plan_aggregate :: "str \<Rightarrow> str \<Rightarrow> profile_plan \<Rightarrow> profile_plan" where
  "plan_aggregate ty name plan = plan\<lparr>pp_aggregate := Some (profile_output_new ty name)\<rparr>"

datatype profile_meta =
    Single str metric_type
  | Resource resource_labels metric_type
  | Fanout profile_plan

section \<open>Order on exported views\<close>

definition output_key ::
  "('a :: linorder) profile_output_ext \<Rightarrow> str \<times> str \<times> resource_labels option \<times> 'a" where
  "output_key out = (po_type out, po_name out, po_resource out, profile_output.more out)"

lemma output_key_inject [simp]: "output_key a = output_key b \<longleftrightarrow> a = b"
  by (cases a; cases b) (simp add: output_key_def)

instantiation profile_output_ext :: (linorder) linorder
begin

definition less_eq_profile_output_ext ::
  "'a profile_output_ext \<Rightarrow> 'a profile_output_ext \<Rightarrow> bool" where
  "less_eq_profile_output_ext a b \<longleftrightarrow> output_key a \<le> output_key b"

definition less_profile_output_ext ::
  "'a profile_output_ext \<Rightarrow> 'a profile_output_ext \<Rightarrow> bool" where
  "less_profile_output_ext a b \<longleftrightarrow> output_key a < output_key b"

instance
  by standard
    (auto simp: less_eq_profile_output_ext_def less_profile_output_ext_def less_le_not_le
      simp del: less_eq_prod_simp less_prod_simp intro: order_trans dest: order_antisym)

end

section \<open>Lemmas\<close>

lemma validate_Inr_iff: "validate k = Inr () \<longleftrightarrow> (\<forall>code. k = Api code \<longrightarrow> valid_status code)"
  by (cases k) (auto simp: assert_or_def)

lemma output_of_API_iff: "fst (output_of k) = ''API'' \<longleftrightarrow> k = ApiAll"
  by (cases k) auto

lemma slow_threshold_cases:
  "slow_threshold_us (spec_of p) = (if p = PolicyResource then 50000 else 200000)"
  by (cases p) simp_all

lemma plan_builders_keep_identity [simp]:
  "pp_identity (plan_alias ty name plan) = pp_identity plan"
  "pp_identity (plan_aggregate ty name plan) = pp_identity plan"
  "pp_policy (plan_alias ty name plan) = pp_policy plan"
  "pp_policy (plan_aggregate ty name plan) = pp_policy plan"
  by (simp_all add: plan_alias_def plan_aggregate_def)

end
