(* ===== verification/Metric_Slot.thy ===== *)
theory Metric_Slot
  imports Metric_Types
begin

text \<open>
  The hot path of \<open>src/src/metric.rs\<close>: the six-counter slot, \<open>record\<close>, \<open>increment\<close> and
  \<open>snapshot\<close>. A call is the list of its atomic \<open>fetch_add\<close> operations in program order, so that the
  calls of several threads can be interleaved step by step; running the list alone is the sequential
  call. A snapshot is six independent loads, which may fall at six different moments.
\<close>

section \<open>State\<close>

record slot =
  sl_count :: u64
  sl_elapsed_us :: u64
  sl_slow_count :: u64
  sl_slow_elapsed_us :: u64
  sl_failure_count :: u64
  sl_failure_elapsed_us :: u64

definition slot_default :: slot where
  "slot_default = \<lparr>sl_count = 0, sl_elapsed_us = 0, sl_slow_count = 0, sl_slow_elapsed_us = 0,
     sl_failure_count = 0, sl_failure_elapsed_us = 0\<rparr>"

text \<open>\<open>std::time::Duration\<close>: seconds and nanoseconds below one second.\<close>

record duration =
  d_secs :: u64
  d_nanos :: nat

definition as_micros :: "duration \<Rightarrow> nat" where
  "as_micros d = unat (d_secs d) * 1000000 + d_nanos d div 1000"

definition elapsed_micros :: "duration \<Rightarrow> u64" where
  "elapsed_micros d = word_of_nat (min (as_micros d) (2 ^ 64 - 1))"

section \<open>Atomic steps\<close>

text \<open>The six exported counters (\<open>enum Counter\<close>), each stored in one atomic field of the slot.\<close>

datatype counter = Total | Failure | Slow | Elapsed | FailureElapsed | SlowElapsed

fun counter_read :: "counter \<Rightarrow> slot \<Rightarrow> u64" where
  "counter_read Total s = sl_count s"
| "counter_read Failure s = sl_failure_count s"
| "counter_read Slow s = sl_slow_count s"
| "counter_read Elapsed s = sl_elapsed_us s"
| "counter_read FailureElapsed s = sl_failure_elapsed_us s"
| "counter_read SlowElapsed s = sl_slow_elapsed_us s"

datatype slot_step = FetchAdd counter u64

fun slot_act :: "slot_step \<Rightarrow> slot \<Rightarrow> slot" where
  "slot_act (FetchAdd Total v) s = s\<lparr>sl_count := sl_count s + v\<rparr>"
| "slot_act (FetchAdd Failure v) s = s\<lparr>sl_failure_count := sl_failure_count s + v\<rparr>"
| "slot_act (FetchAdd Slow v) s = s\<lparr>sl_slow_count := sl_slow_count s + v\<rparr>"
| "slot_act (FetchAdd Elapsed v) s = s\<lparr>sl_elapsed_us := sl_elapsed_us s + v\<rparr>"
| "slot_act (FetchAdd FailureElapsed v) s =
     s\<lparr>sl_failure_elapsed_us := sl_failure_elapsed_us s + v\<rparr>"
| "slot_act (FetchAdd SlowElapsed v) s = s\<lparr>sl_slow_elapsed_us := sl_slow_elapsed_us s + v\<rparr>"

definition record_steps :: "metric_policy \<Rightarrow> duration \<Rightarrow> bool \<Rightarrow> slot_step list" where
  "record_steps policy elapsed success =
     (let profile = spec_of policy;
          elapsed_us = elapsed_micros elapsed
      in (if \<not> success then [FetchAdd Failure 1, FetchAdd FailureElapsed elapsed_us] else []) @
         [FetchAdd Elapsed elapsed_us] @
         (if slow_threshold_us profile \<le> elapsed_us
          then [FetchAdd Slow 1, FetchAdd SlowElapsed elapsed_us] else []) @
         [FetchAdd Total 1])"

definition increment_steps :: "slot_step list" where
  "increment_steps = [FetchAdd Total 1]"

definition record_slot :: "metric_policy \<Rightarrow> duration \<Rightarrow> bool \<Rightarrow> slot \<Rightarrow> slot" where
  "record_slot policy elapsed success = fold slot_act (record_steps policy elapsed success)"

definition increment_slot :: "slot \<Rightarrow> slot" where
  "increment_slot = fold slot_act increment_steps"

section \<open>Snapshots\<close>

record metric_snapshot =
  ms_total :: u64
  ms_success :: u64
  ms_failure :: u64
  ms_elapsed_us :: u64
  ms_slow :: u64
  ms_slow_elapsed_us :: u64
  ms_failure_elapsed_us :: u64

definition from_counters :: "u64 \<Rightarrow> u64 \<Rightarrow> u64 \<Rightarrow> u64 \<Rightarrow> u64 \<Rightarrow> u64 \<Rightarrow> metric_snapshot" where
  "from_counters total_count elapsed_us slow slow_elapsed_us failure failure_elapsed_us =
     \<lparr>ms_total = total_count, ms_success = saturating_sub total_count failure, ms_failure = failure,
      ms_elapsed_us = elapsed_us, ms_slow = slow, ms_slow_elapsed_us = slow_elapsed_us,
      ms_failure_elapsed_us = failure_elapsed_us\<rparr>"

text \<open>
  The six loads of \<open>snapshot\<close> in program order, each from the slot as it is at that moment.
\<close>

definition snapshot_loads ::
  "slot \<Rightarrow> slot \<Rightarrow> slot \<Rightarrow> slot \<Rightarrow> slot \<Rightarrow> slot \<Rightarrow> metric_snapshot" where
  "snapshot_loads s1 s2 s3 s4 s5 s6 =
     from_counters (sl_count s1) (sl_elapsed_us s2) (sl_slow_count s3) (sl_slow_elapsed_us s4)
       (sl_failure_count s5) (sl_failure_elapsed_us s6)"

definition snapshot_slot :: "slot \<Rightarrow> metric_snapshot" where
  "snapshot_slot s = snapshot_loads s s s s s s"

section \<open>Threads\<close>

datatype slot_call = CallRecord duration bool | CallIncrement

fun call_steps :: "metric_policy \<Rightarrow> slot_call \<Rightarrow> slot_step list" where
  "call_steps policy (CallRecord elapsed success) = record_steps policy elapsed success"
| "call_steps policy CallIncrement = increment_steps"

definition thread_steps :: "metric_policy \<Rightarrow> slot_call list \<Rightarrow> slot_step list" where
  "thread_steps policy calls = concat (map (call_steps policy) calls)"

text \<open>What one call adds to each counter, as the documentation of \<open>record\<close> states it.\<close>

fun call_amount :: "metric_policy \<Rightarrow> counter \<Rightarrow> slot_call \<Rightarrow> nat" where
  "call_amount policy c CallIncrement = (if c = Total then 1 else 0)"
| "call_amount policy c (CallRecord d success) =
     (let us = min (as_micros d) (2 ^ 64 - 1);
          slow = (unat (slow_threshold_us (spec_of policy)) \<le> us)
      in case c of
           Total \<Rightarrow> 1
         | Failure \<Rightarrow> (if success then 0 else 1)
         | Slow \<Rightarrow> (if slow then 1 else 0)
         | Elapsed \<Rightarrow> us
         | FailureElapsed \<Rightarrow> (if success then 0 else us)
         | SlowElapsed \<Rightarrow> (if slow then us else 0))"

definition amounts :: "metric_policy \<Rightarrow> counter \<Rightarrow> slot_call list \<Rightarrow> nat" where
  "amounts policy c calls = (\<Sum>call\<leftarrow>calls. call_amount policy c call)"

fun step_amount :: "counter \<Rightarrow> slot_step \<Rightarrow> nat" where
  "step_amount c (FetchAdd c' v) = (if c = c' then unat v else 0)"

definition added :: "counter \<Rightarrow> slot_step list \<Rightarrow> nat" where
  "added c zs = (\<Sum>z\<leftarrow>zs. step_amount c z)"

text \<open>The counter of a snapshot that each family exports.\<close>

fun snapshot_counter :: "counter \<Rightarrow> metric_snapshot \<Rightarrow> u64" where
  "snapshot_counter Total m = ms_total m"
| "snapshot_counter Failure m = ms_failure m"
| "snapshot_counter Slow m = ms_slow m"
| "snapshot_counter Elapsed m = ms_elapsed_us m"
| "snapshot_counter FailureElapsed m = ms_failure_elapsed_us m"
| "snapshot_counter SlowElapsed m = ms_slow_elapsed_us m"

section \<open>Lemmas\<close>

lemma slot_eqI:
  assumes "\<And>c. counter_read c s = counter_read c t"
  shows "s = (t :: slot)"
  using assms [of Total] assms [of Failure] assms [of Slow] assms [of Elapsed]
    assms [of FailureElapsed] assms [of SlowElapsed]
  by (cases s; cases t) simp

lemma counter_read_act [simp]:
  "counter_read c (slot_act (FetchAdd c' v) s) = counter_read c s + (if c = c' then v else 0)"
  by (cases c; cases c') simp_all

interpretation slot_steps: commuting_steps slot_act
proof
  fix a b and s :: slot
  show "slot_act a (slot_act b s) = slot_act b (slot_act a s)"
    by (cases a; cases b) (auto intro: slot_eqI)
qed

lemma counter_read_fold:
  "counter_read c (fold slot_act zs s) = counter_read c s + word_of_nat (added c zs)"
proof (induction zs arbitrary: s)
  case Nil
  show ?case by (simp add: added_def)
next
  case (Cons z zs)
  show ?case by (cases z) (simp add: Cons.IH added_def algebra_simps)
qed

lemma added_append [simp]: "added c (xs @ ys) = added c xs + added c ys"
  by (simp add: added_def)

lemma added_mset: "mset xs = mset ys \<Longrightarrow> added c xs = added c ys"
  unfolding added_def by (metis mset_map sum_mset_sum_list)

lemma added_prefix: "prefix xs ys \<Longrightarrow> added c xs \<le> added c ys"
  by (auto simp: prefix_def)

lemma unat_elapsed_micros [simp]: "unat (elapsed_micros d) = min (as_micros d) (2 ^ 64 - 1)"
  by (simp add: elapsed_micros_def unat_of_nat)

lemma added_call: "added c (call_steps policy call) = call_amount policy c call"
proof (cases call)
  case (CallRecord d success)
  then show ?thesis
    by (cases c) (auto simp: record_steps_def added_def Let_def word_le_nat_alt)
next
  case CallIncrement
  then show ?thesis by (simp add: increment_steps_def added_def)
qed

lemma added_thread: "added c (thread_steps policy calls) = amounts policy c calls"
  by (induction calls) (simp_all add: thread_steps_def amounts_def added_call, simp add: added_def)

lemma added_threads:
  "added c (concat (map (thread_steps policy) callss)) = amounts policy c (concat callss)"
  by (induction callss) (simp_all add: added_thread amounts_def, simp_all add: added_def)

lemma unat_counter_exact:
  assumes "unat (counter_read c s) + added c zs < 2 ^ 64"
  shows "unat (counter_read c (fold slot_act zs s)) = unat (counter_read c s) + added c zs"
  using assms by (simp add: counter_read_fold unat_word_ariths unat_of_nat mod_add_right_eq)

lemma snapshot_counter_slot [simp]: "snapshot_counter c (snapshot_slot s) = counter_read c s"
  by (cases c) (simp_all add: snapshot_slot_def snapshot_loads_def from_counters_def)

lemma counter_mono_prefix:
  assumes "prefix xs ys" and "unat (counter_read c s) + added c ys < 2 ^ 64"
  shows "counter_read c (fold slot_act xs s) \<le> counter_read c (fold slot_act ys s)"
  using assms added_prefix [OF assms(1), of c]
  by (simp add: word_le_nat_alt unat_counter_exact)

lemma take_prefix_take: "j \<le> k \<Longrightarrow> prefix (take j zs) (take k zs)"
  by (metis min.absorb1 take_is_prefix take_take)

lemma counter_mono_take:
  assumes "j \<le> k" and "unat (counter_read c s) + added c zs < 2 ^ 64"
  shows "counter_read c (fold slot_act (take j zs) s) \<le> counter_read c (fold slot_act (take k zs) s)"
proof (rule counter_mono_prefix [OF take_prefix_take [OF assms(1)]])
  show "unat (counter_read c s) + added c (take k zs) < 2 ^ 64"
    using assms(2) added_prefix [OF take_is_prefix, of c k zs] by linarith
qed

lemma amounts_le_total:
  assumes "c = Failure \<or> c = Slow"
  shows "amounts policy c calls \<le> amounts policy Total calls"
proof (induction calls)
  case (Cons call calls)
  moreover have "call_amount policy c call \<le> call_amount policy Total call"
    using assms by (cases call) (auto simp: Let_def)
  ultimately show ?case by (simp add: amounts_def)
qed (simp add: amounts_def)

lemma amounts_Total: "amounts policy Total calls = length calls"
proof (induction calls)
  case (Cons call calls)
  then show ?case by (cases call) (simp_all add: amounts_def Let_def)
qed (simp add: amounts_def)

lemma snapshot_slot_fields [simp]:
  "ms_total (snapshot_slot s) = sl_count s"
  "ms_success (snapshot_slot s) = saturating_sub (sl_count s) (sl_failure_count s)"
  "ms_failure (snapshot_slot s) = sl_failure_count s"
  "ms_slow (snapshot_slot s) = sl_slow_count s"
  "ms_elapsed_us (snapshot_slot s) = sl_elapsed_us s"
  "ms_slow_elapsed_us (snapshot_slot s) = sl_slow_elapsed_us s"
  "ms_failure_elapsed_us (snapshot_slot s) = sl_failure_elapsed_us s"
  by (simp_all add: snapshot_slot_def snapshot_loads_def from_counters_def)

lemma interleave_added:
  "interleave (map (thread_steps policy) callss) zs \<Longrightarrow>
     added c zs = amounts policy c (concat callss)"
  by (simp add: added_mset [OF mset_interleave] added_threads)

lemma quiescent_exact:
  assumes "interleave (map (thread_steps policy) callss) zs"
    and "\<And>c. amounts policy c (concat callss) < 2 ^ 64"
  shows "unat (counter_read c (fold slot_act zs slot_default)) = amounts policy c (concat callss)"
proof -
  have "unat (counter_read c slot_default) = 0"
    by (cases c) (simp_all add: slot_default_def)
  then show ?thesis
    using assms(2) unat_counter_exact [of c slot_default zs] interleave_added [OF assms(1)] by simp
qed

section \<open>Properties\<close>

text \<open>C7: However the atomic steps of any number of threads calling \<open>record\<close> and
  \<open>increment\<close> on one slot interleave, no update is lost: once all threads are done, every counter
  has grown (modulo two to the 64) by exactly the sum of what the calls contribute to it.\<close>

theorem record_no_lost_update:
  assumes "interleave (map (thread_steps policy) callss) zs"
  shows "counter_read c (fold slot_act zs s) =
           counter_read c s + word_of_nat (amounts policy c (concat callss))"
proof -
  have "fold slot_act zs s = fold slot_act (concat (map (thread_steps policy) callss)) s"
    using assms by (rule slot_steps.schedule_independent)
  then show ?thesis by (simp only: counter_read_fold added_threads)
qed

theorem record_no_lost_update_witness:
  "counter_read SlowElapsed
     (fold slot_act [FetchAdd Failure 1, FetchAdd Total 1, FetchAdd FailureElapsed 60000,
        FetchAdd Elapsed 60000, FetchAdd Slow 1, FetchAdd SlowElapsed 60000, FetchAdd Total 1]
        slot_default) = 60000"
proof -
  let ?calls = "[[CallRecord \<lparr>d_secs = 0, d_nanos = 60000999\<rparr> False], [CallIncrement]]"
  have threads: "map (thread_steps PolicyResource) ?calls =
    [[FetchAdd Failure 1, FetchAdd FailureElapsed 60000, FetchAdd Elapsed 60000, FetchAdd Slow 1,
      FetchAdd SlowElapsed 60000, FetchAdd Total 1], [FetchAdd Total 1]]"
    by (simp add: thread_steps_def record_steps_def increment_steps_def elapsed_micros_def
        as_micros_def Let_def word_le_nat_alt)
  have "interleave (map (thread_steps PolicyResource) ?calls)
    [FetchAdd Failure 1, FetchAdd Total 1, FetchAdd FailureElapsed 60000, FetchAdd Elapsed 60000,
     FetchAdd Slow 1, FetchAdd SlowElapsed 60000, FetchAdd Total 1]"
    unfolding threads
    by (rule interleave.turn [of 0], simp, simp, rule interleave.turn [of 1], simp, simp,
        (rule interleave.turn [of 0], simp, simp)+, simp add: interleave.finished)
  from record_no_lost_update [OF this, of SlowElapsed slot_default]
  show ?thesis by (simp add: amounts_def as_micros_def slot_default_def)
qed

text \<open>C12: A snapshot taken while threads are recording is eventually consistent. Its six
  loads may fall between any steps of the threads; as long as no counter passes two to the 64, every
  field lies between the value at the first load and the value at the last one, never exceeds what
  all the calls contribute, and the derived success count never wraps below zero.\<close>

theorem snapshot_between:
  assumes "interleave (map (thread_steps policy) callss) zs"
    and "k1 \<le> k2" "k2 \<le> k3" "k3 \<le> k4" "k4 \<le> k5" "k5 \<le> k6"
    and fits: "\<And>c. unat (counter_read c s) + amounts policy c (concat callss) < 2 ^ 64"
    and "snap = snapshot_loads (fold slot_act (take k1 zs) s) (fold slot_act (take k2 zs) s)
           (fold slot_act (take k3 zs) s) (fold slot_act (take k4 zs) s)
           (fold slot_act (take k5 zs) s) (fold slot_act (take k6 zs) s)"
  shows "counter_read c (fold slot_act (take k1 zs) s) \<le> snapshot_counter c snap \<and>
     snapshot_counter c snap \<le> counter_read c (fold slot_act (take k6 zs) s) \<and>
     unat (snapshot_counter c snap) \<le> unat (counter_read c s) + amounts policy c (concat callss) \<and>
     ms_success snap \<le> ms_total snap"
proof (intro conjI)
  note adds = interleave_added [OF assms(1)]
  have fit: "unat (counter_read c s) + added c zs < 2 ^ 64" for c
    using fits by (simp add: adds)
  obtain k where k: "snapshot_counter c snap = counter_read c (fold slot_act (take k zs) s)"
    "k1 \<le> k" "k \<le> k6"
    using assms(2-6,8) by (cases c) (force simp: snapshot_loads_def from_counters_def)+
  show "counter_read c (fold slot_act (take k1 zs) s) \<le> snapshot_counter c snap"
    and "snapshot_counter c snap \<le> counter_read c (fold slot_act (take k6 zs) s)"
    using k counter_mono_take [OF _ fit] by simp_all
  have "unat (snapshot_counter c snap) \<le> unat (counter_read c (fold slot_act zs s))"
    using k counter_mono_prefix [OF take_is_prefix fit] by (simp add: word_le_nat_alt)
  then show "unat (snapshot_counter c snap) \<le> unat (counter_read c s) + amounts policy c (concat callss)"
    by (simp add: unat_counter_exact [OF fit] adds)
  show "ms_success snap \<le> ms_total snap"
    by (simp add: assms(8) snapshot_loads_def from_counters_def word_le_nat_alt unat_saturating_sub)
qed

theorem snapshot_between_witness:
  "ms_success (snapshot_loads slot_default slot_default slot_default slot_default
      (fold slot_act [FetchAdd Failure 1] slot_default)
      (fold slot_act [FetchAdd Failure 1] slot_default)) \<le> 0"
proof -
  let ?calls = "[[CallRecord \<lparr>d_secs = 0, d_nanos = 7000\<rparr> False]]"
  have threads: "map (thread_steps PolicyResource) ?calls =
    [[FetchAdd Failure 1, FetchAdd FailureElapsed 7, FetchAdd Elapsed 7, FetchAdd Total 1]]"
    by (simp add: thread_steps_def record_steps_def elapsed_micros_def as_micros_def Let_def
        word_le_nat_alt)
  have il: "interleave (map (thread_steps PolicyResource) ?calls)
    [FetchAdd Failure 1, FetchAdd FailureElapsed 7, FetchAdd Elapsed 7, FetchAdd Total 1]"
    using interleave_concat [of "map (thread_steps PolicyResource) ?calls"]
    by (simp only: threads concat.simps append_Nil2)
  have fits: "unat (counter_read c slot_default) + amounts PolicyResource c (concat ?calls) < 2 ^ 64"
    for c
    by (cases c) (simp_all add: slot_default_def amounts_def as_micros_def)
  show ?thesis
    using snapshot_between [OF il, of 0 0 0 0 1 1 slot_default, OF _ _ _ _ _ fits refl]
    by (simp add: snapshot_loads_def from_counters_def slot_default_def)
qed

text \<open>C27: Once every call on a fresh slot has completed, in any interleaving and with no counter
  overflowing, every field of the snapshot is exact: the total is the number of calls, the failures
  are the failed records and the successes all the other calls, the slow count is the number of slow
  records, and the three durations are the sums of the clamped microseconds of all, the slow and the
  failed records.\<close>

theorem snapshot_quiescent:
  assumes "interleave (map (thread_steps policy) callss) zs"
    and "\<And>c. amounts policy c (concat callss) < 2 ^ 64"
    and "snap = snapshot_slot (fold slot_act zs slot_default)"
  shows "unat (ms_total snap) = length (concat callss) \<and>
     unat (ms_failure snap) = amounts policy Failure (concat callss) \<and>
     unat (ms_success snap) = length (concat callss) - amounts policy Failure (concat callss) \<and>
     unat (ms_success snap) + unat (ms_failure snap) = unat (ms_total snap) \<and>
     unat (ms_slow snap) = amounts policy Slow (concat callss) \<and>
     unat (ms_elapsed_us snap) = amounts policy Elapsed (concat callss) \<and>
     unat (ms_slow_elapsed_us snap) = amounts policy SlowElapsed (concat callss) \<and>
     unat (ms_failure_elapsed_us snap) = amounts policy FailureElapsed (concat callss)"
proof -
  note exact = quiescent_exact [OF assms(1,2)]
  have tot: "unat (ms_total snap) = length (concat callss)"
    and fail: "unat (ms_failure snap) = amounts policy Failure (concat callss)"
    and "unat (ms_slow snap) = amounts policy Slow (concat callss)"
    and "unat (ms_elapsed_us snap) = amounts policy Elapsed (concat callss)"
    and "unat (ms_slow_elapsed_us snap) = amounts policy SlowElapsed (concat callss)"
    and "unat (ms_failure_elapsed_us snap) = amounts policy FailureElapsed (concat callss)"
    using exact [of Total] exact [of Failure] exact [of Slow] exact [of Elapsed] exact [of SlowElapsed]
      exact [of FailureElapsed]
    by (simp_all add: assms(3) amounts_Total del: length_concat)
  moreover have "unat (ms_success snap) = unat (ms_total snap) - unat (ms_failure snap)"
    by (simp add: assms(3) unat_saturating_sub)
  ultimately show ?thesis
    using amounts_le_total [of Failure policy "concat callss"] by (simp add: amounts_Total del: length_concat)
qed

theorem snapshot_quiescent_witness:
  "let snap = snapshot_slot (fold slot_act
      [FetchAdd Total 1, FetchAdd Failure 1, FetchAdd FailureElapsed 7, FetchAdd Elapsed 7, FetchAdd Total 1] slot_default)
   in unat (ms_total snap) = 2 \<and> unat (ms_success snap) = 1 \<and> unat (ms_failure_elapsed_us snap) = 7"
proof -
  let ?calls = "[[CallIncrement], [CallRecord \<lparr>d_secs = 0, d_nanos = 7000\<rparr> False]]"
  have threads: "map (thread_steps PolicyResource) ?calls =
    [[FetchAdd Total 1], [FetchAdd Failure 1, FetchAdd FailureElapsed 7, FetchAdd Elapsed 7, FetchAdd Total 1]]"
    by (simp add: thread_steps_def record_steps_def increment_steps_def elapsed_micros_def as_micros_def Let_def
        word_le_nat_alt)
  have il: "interleave (map (thread_steps PolicyResource) ?calls)
    [FetchAdd Total 1, FetchAdd Failure 1, FetchAdd FailureElapsed 7, FetchAdd Elapsed 7, FetchAdd Total 1]"
    using interleave_concat [of "map (thread_steps PolicyResource) ?calls"]
    by (simp only: threads concat.simps append_Nil2 append_Cons append_Nil)
  have "amounts PolicyResource c (concat ?calls) < 2 ^ 64" for c
    by (cases c) (simp_all add: amounts_def as_micros_def)
  from snapshot_quiescent [OF il this refl] show ?thesis by (simp add: amounts_def as_micros_def Let_def)
qed

text \<open>C16: What one \<open>record\<close> does to a slot, on every branch. The elapsed time, truncated to
  microseconds and clamped to an \<open>u64\<close>, is added to the total pair, to the failure pair when the
  operation failed and to the slow pair when it reaches 50 milliseconds (resources) or 200
  milliseconds (services and access statistics), so a slow failure counts in all three;
  \<open>increment\<close> changes the total count only.\<close>

theorem record_classification:
  "record_slot policy d success s =
     (let us = min (unat (d_secs d) * 1000000 + d_nanos d div 1000) (2 ^ 64 - 1);
          w = word_of_nat us :: u64;
          slow = ((if policy = PolicyResource then 50000 else 200000) \<le> us)
      in \<lparr>sl_count = sl_count s + 1, sl_elapsed_us = sl_elapsed_us s + w,
          sl_slow_count = sl_slow_count s + (if slow then 1 else 0),
          sl_slow_elapsed_us = sl_slow_elapsed_us s + (if slow then w else 0),
          sl_failure_count = sl_failure_count s + (if success then 0 else 1),
          sl_failure_elapsed_us = sl_failure_elapsed_us s + (if success then 0 else w)\<rparr>) \<and>
   increment_slot s = s\<lparr>sl_count := sl_count s + 1\<rparr>"
proof
  have thr: "unat (slow_threshold_us (spec_of policy)) = (if policy = PolicyResource then 50000 else 200000)"
    by (cases policy) simp_all
  have slow: "slow_threshold_us (spec_of policy) \<le> elapsed_micros d \<longleftrightarrow>
    (if policy = PolicyResource then 50000 else 200000) \<le> min (as_micros d) (2 ^ 64 - 1)"
    by (simp only: word_le_nat_alt thr unat_elapsed_micros)
  show "record_slot policy d success s =
     (let us = min (unat (d_secs d) * 1000000 + d_nanos d div 1000) (2 ^ 64 - 1);
          w = word_of_nat us :: u64;
          slow = ((if policy = PolicyResource then 50000 else 200000) \<le> us)
      in \<lparr>sl_count = sl_count s + 1, sl_elapsed_us = sl_elapsed_us s + w,
          sl_slow_count = sl_slow_count s + (if slow then 1 else 0),
          sl_slow_elapsed_us = sl_slow_elapsed_us s + (if slow then w else 0),
          sl_failure_count = sl_failure_count s + (if success then 0 else 1),
          sl_failure_elapsed_us = sl_failure_elapsed_us s + (if success then 0 else w)\<rparr>)"
    unfolding as_micros_def [symmetric] elapsed_micros_def [symmetric] Let_def slow [symmetric]
    by (cases s; cases success; cases "slow_threshold_us (spec_of policy) \<le> elapsed_micros d")
      (simp_all add: record_slot_def record_steps_def Let_def)
qed (simp add: increment_slot_def increment_steps_def)

end
