(* ===== verification/Chunk_Log.thy ===== *)
theory Chunk_Log
  imports Metrics_Prelude
begin

text \<open>
  The append-only metadata log of one shard (\<open>MetaChunk\<close> and \<open>ShardIndex\<close> of
  \<open>src/src/registry.rs\<close>), shared by the timing registry and the scalar registry. A chunk is an
  array of cells that are written once (\<open>None\<close> is an uninitialised cell) and a published length; the
  index is a list of references to chunks, so a reader that holds an old index still sees entries
  published later in the chunks it refers to. A chunk reference is the position of the chunk in the
  shard's own vector, which only grows. Debug assertions are modelled as checks; the lemmas show that
  they never fire, so debug and release builds agree.
\<close>

section \<open>Chunks\<close>

definition CHUNK_SIZE :: nat where
  "CHUNK_SIZE = 256"

record 'm meta_chunk =
  mc_entries :: "'m option list"
  mc_published_len :: nat

definition meta_chunk_new :: "'m meta_chunk" where
  "meta_chunk_new = \<lparr>mc_entries = replicate CHUNK_SIZE None, mc_published_len = 0\<rparr>"

text \<open>The two memory effects of \<open>publish\<close>, in program order: the write, then the release store.\<close>

definition write_entry :: "nat \<Rightarrow> 'm \<Rightarrow> 'm meta_chunk \<Rightarrow> 'm meta_chunk result" where
  "write_entry offset meta c =
     res_bind (index_at (mc_entries c) offset)
       (\<lambda>_. Inr (c\<lparr>mc_entries := (mc_entries c)[offset := Some meta]\<rparr>))"

definition store_len :: "nat \<Rightarrow> 'm meta_chunk \<Rightarrow> 'm meta_chunk" where
  "store_len n c = c\<lparr>mc_published_len := n\<rparr>"

definition publish :: "nat \<Rightarrow> 'm \<Rightarrow> 'm meta_chunk \<Rightarrow> 'm meta_chunk result" where
  "publish offset meta c =
     res_bind (assert_or (offset < CHUNK_SIZE) DebugAssert) (\<lambda>_.
     res_bind (assert_or (mc_published_len c = offset) DebugAssert) (\<lambda>_.
     res_bind (write_entry offset meta c) (\<lambda>c'.
     Inr (store_len (offset + 1) c'))))"

definition assume_init :: "'m option \<Rightarrow> 'm result" where
  "assume_init e = (case e of None \<Rightarrow> Inl UninitRead | Some m \<Rightarrow> Inr m)"

definition chunk_get :: "'m meta_chunk \<Rightarrow> nat \<Rightarrow> 'm result" where
  "chunk_get c offset =
     res_bind (assert_or (offset < mc_published_len c) DebugAssert) (\<lambda>_.
     res_bind (index_at (mc_entries c) offset) assume_init)"

text \<open>\<open>Drop\<close>: the entries whose destructor runs, in order.\<close>

definition chunk_drop :: "'m meta_chunk \<Rightarrow> 'm list result" where
  "chunk_drop c =
     map_res (\<lambda>offset. res_bind (index_at (mc_entries c) offset) assume_init) [0..<mc_published_len c]"

text \<open>The inner loop of \<open>for_each_meta\<close>: one load of the length, then every offset below it.\<close>

definition chunk_visit :: "'m meta_chunk \<Rightarrow> 'm list result" where
  "chunk_visit c = map_res (chunk_get c) [0..<mc_published_len c]"

section \<open>The log of one shard\<close>

record ('slot, 'm) chunk_log =
  cl_slots :: "'slot list list"
  cl_chunks :: "'m meta_chunk list"
  cl_len :: nat
  cl_index :: "nat list"

text \<open>
  \<open>allocate\<close> in its two halves. \<open>log_write\<close> adds a chunk when the last one is full and publishes the
  entry; \<open>mk\<close> builds the metadata from the address of the new slot, which is the chunk it lives in and
  the offset there; boxed chunks never move, so this pair is the pointer. \<open>log_commit\<close> counts the entry
  and, for a new chunk, stores the new index. The scalar shard updates its maps between the two.
\<close>

definition log_write ::
  "'slot \<Rightarrow> (nat \<Rightarrow> nat \<Rightarrow> 'm) \<Rightarrow> ('slot, 'm, 'z) chunk_log_scheme \<Rightarrow>
     (((nat \<times> nat) \<times> bool) \<times> ('slot, 'm, 'z) chunk_log_scheme) result" where
  "log_write d mk l =
     (let index = cl_len l;
          chunk_index = index div CHUNK_SIZE;
          offset = index mod CHUNK_SIZE;
          is_new_chunk = (length (cl_chunks l) \<le> chunk_index);
          l1 = (if is_new_chunk
                then l\<lparr>cl_slots := cl_slots l @ [replicate CHUNK_SIZE d],
                       cl_chunks := cl_chunks l @ [meta_chunk_new]\<rparr>
                else l)
      in res_bind (index_at (cl_slots l1) chunk_index) (\<lambda>_.
         res_bind (index_at (cl_chunks l1) chunk_index) (\<lambda>c.
         res_bind (publish offset (mk chunk_index offset) c) (\<lambda>c'.
           Inr (((chunk_index, offset), is_new_chunk),
                l1\<lparr>cl_chunks := (cl_chunks l1)[chunk_index := c']\<rparr>)))))"

definition log_commit :: "bool \<Rightarrow> ('slot, 'm, 'z) chunk_log_scheme \<Rightarrow> ('slot, 'm, 'z) chunk_log_scheme" where
  "log_commit is_new_chunk l =
     (let l1 = l\<lparr>cl_len := cl_len l + 1\<rparr>
      in if is_new_chunk then l1\<lparr>cl_index := [0..<length (cl_chunks l1)]\<rparr> else l1)"

definition log_alloc ::
  "'slot \<Rightarrow> (nat \<Rightarrow> nat \<Rightarrow> 'm) \<Rightarrow> ('slot, 'm, 'z) chunk_log_scheme \<Rightarrow>
     ((nat \<times> nat) \<times> ('slot, 'm, 'z) chunk_log_scheme) result" where
  "log_alloc d mk l =
     res_bind (log_write d mk l) (\<lambda>((p, is_new_chunk), l'). Inr (p, log_commit is_new_chunk l'))"

lemmas log_alloc_defs = log_alloc_def log_write_def log_commit_def

lemma log_alloc_unfold:
  "log_alloc d mk l =
     (let n = cl_len l div CHUNK_SIZE; k = cl_len l mod CHUNK_SIZE; new = (length (cl_chunks l) \<le> n);
          slots = (if new then cl_slots l @ [replicate CHUNK_SIZE d] else cl_slots l);
          chunks = (if new then cl_chunks l @ [meta_chunk_new] else cl_chunks l)
      in res_bind (index_at slots n) (\<lambda>_. res_bind (index_at chunks n) (\<lambda>c. res_bind (publish k (mk n k) c) (\<lambda>c'.
           Inr ((n, k), l\<lparr>cl_slots := slots, cl_chunks := chunks[n := c'], cl_len := cl_len l + 1,
             cl_index := (if new then [0..<length chunks] else cl_index l)\<rparr>)))))"
  by (cases "length (cl_chunks l) \<le> cl_len l div CHUNK_SIZE")
    (simp_all add: log_alloc_defs Let_def res_bind_def split: sum.split del: upt_Suc)

text \<open>Traversal through the published index, and the sum of the published lengths.\<close>

definition log_visit :: "('slot, 'm, 'z) chunk_log_scheme \<Rightarrow> 'm list result" where
  "log_visit l =
     res_bind (map_res (\<lambda>i. res_bind (index_at (cl_chunks l) i) chunk_visit) (cl_index l))
       (\<lambda>mss. Inr (concat mss))"

definition log_len :: "('slot, 'm, 'z) chunk_log_scheme \<Rightarrow> nat result" where
  "log_len l =
     res_bind (map_res (\<lambda>i. res_bind (index_at (cl_chunks l) i) (\<lambda>c. Inr (mc_published_len c)))
       (cl_index l)) (\<lambda>ns. Inr (sum_list ns))"

text \<open>
  A visit of all shards, in their order, while the process goes on: \<open>at i\<close> are the shards at the moment
  when shard \<open>i\<close> is visited, and the callback \<open>f\<close> is called for entry \<open>j\<close> of shard \<open>i\<close>. What can happen
  inside the visit of one shard is the subject of \<open>Concurrent_Visit\<close>.
\<close>

definition visit_shards ::
  "nat \<Rightarrow> (nat \<Rightarrow> ('slot, 'm, 'z) chunk_log_scheme list) \<Rightarrow> (nat \<Rightarrow> nat \<Rightarrow> 'm \<Rightarrow> 'a result) \<Rightarrow> 'a list result" where
  "visit_shards n at f =
     res_bind (map_res (\<lambda>i.
         res_bind (index_at (at i) i) (\<lambda>shard.
         res_bind (log_visit shard) (\<lambda>metas. map_res (\<lambda>(j, meta). f i j meta) (enumerate 0 metas)))) [0..<n])
       (\<lambda>xss. Inr (concat xss))"

text \<open>Dereferencing a slot pointer of the shard, for reading and for an atomic update.\<close>

definition log_deref :: "('slot, 'm, 'z) chunk_log_scheme \<Rightarrow> nat \<times> nat \<Rightarrow> 'slot result" where
  "log_deref l p =
     (if fst p < length (cl_slots l) \<and> snd p < length (cl_slots l ! fst p)
      then Inr (cl_slots l ! fst p ! snd p) else Inl DanglingPointer)"

definition log_update ::
  "nat \<times> nat \<Rightarrow> ('slot \<Rightarrow> 'slot) \<Rightarrow> ('slot, 'm, 'z) chunk_log_scheme \<Rightarrow>
     ('slot, 'm, 'z) chunk_log_scheme result" where
  "log_update p f l =
     res_bind (log_deref l p) (\<lambda>s.
     Inr (l\<lparr>cl_slots := (cl_slots l)[fst p := (cl_slots l ! fst p)[snd p := f s]]\<rparr>))"

section \<open>Invariant and abstraction\<close>

definition chunk_wf :: "'m meta_chunk \<Rightarrow> bool" where
  "chunk_wf c \<longleftrightarrow> length (mc_entries c) = CHUNK_SIZE \<and> mc_published_len c \<le> CHUNK_SIZE \<and>
     (\<forall>i < CHUNK_SIZE. mc_entries c ! i \<noteq> None \<longleftrightarrow> i < mc_published_len c)"

definition chunk_metas :: "'m meta_chunk \<Rightarrow> 'm list" where
  "chunk_metas c = map (\<lambda>i. the (mc_entries c ! i)) [0..<mc_published_len c]"

definition log_metas :: "('slot, 'm, 'z) chunk_log_scheme \<Rightarrow> 'm list" where
  "log_metas l = concat (map chunk_metas (cl_chunks l))"

definition log_inv :: "'slot \<Rightarrow> ('slot, 'm, 'z) chunk_log_scheme \<Rightarrow> bool" where
  "log_inv d l \<longleftrightarrow>
     length (cl_chunks l) = (cl_len l + 255) div 256 \<and>
     length (cl_slots l) = length (cl_chunks l) \<and>
     (\<forall>s \<in> set (cl_slots l). length s = CHUNK_SIZE) \<and>
     cl_index l = [0..<length (cl_chunks l)] \<and>
     (\<forall>i < length (cl_chunks l). chunk_wf (cl_chunks l ! i) \<and>
        mc_published_len (cl_chunks l ! i) = min 256 (cl_len l - 256 * i)) \<and>
     (\<forall>i j. i < length (cl_slots l) \<longrightarrow> j < CHUNK_SIZE \<longrightarrow> cl_len l \<le> i * 256 + j \<longrightarrow>
        cl_slots l ! i ! j = d)"

definition ptr_valid :: "('slot, 'm, 'z) chunk_log_scheme \<Rightarrow> nat \<times> nat \<Rightarrow> bool" where
  "ptr_valid l p \<longleftrightarrow> snd p < 256 \<and> fst p * 256 + snd p < cl_len l"

section \<open>Lemmas: chunks\<close>

lemma chunk_wf_new [simp]: "chunk_wf meta_chunk_new"
  by (simp add: chunk_wf_def meta_chunk_new_def)

lemma chunk_metas_new [simp]: "chunk_metas meta_chunk_new = []"
  by (simp add: chunk_metas_def meta_chunk_new_def)

lemma mc_published_len_new [simp]: "mc_published_len meta_chunk_new = 0"
  by (simp add: meta_chunk_new_def)

lemma publish_wf:
  assumes "chunk_wf c" and "mc_published_len c = offset" and "offset < CHUNK_SIZE"
  obtains c' where "publish offset meta c = Inr c'" and "chunk_wf c'"
    and "mc_published_len c' = Suc offset" and "chunk_metas c' = chunk_metas c @ [meta]"
proof
  let ?c' = "store_len (offset + 1) (c\<lparr>mc_entries := (mc_entries c)[offset := Some meta]\<rparr>)"
  show "publish offset meta c = Inr ?c'"
    using assms by (simp add: publish_def write_entry_def chunk_wf_def)
  show "chunk_wf ?c'"
    using assms by (auto simp: chunk_wf_def store_len_def nth_list_update less_Suc_eq)
  show "mc_published_len ?c' = Suc offset"
    by (simp add: store_len_def)
  show "chunk_metas ?c' = chunk_metas c @ [meta]"
    using assms by (simp add: chunk_metas_def store_len_def chunk_wf_def)
qed

lemma chunk_get_wf:
  assumes "chunk_wf c" and "offset < mc_published_len c"
  shows "chunk_get c offset = Inr (the (mc_entries c ! offset))"
  using assms by (auto simp: chunk_get_def chunk_wf_def assume_init_def split: option.splits)

lemma chunk_visit_wf [simp]: "chunk_wf c \<Longrightarrow> chunk_visit c = Inr (chunk_metas c)"
  unfolding chunk_visit_def chunk_metas_def by (rule map_res_Inr) (simp add: chunk_get_wf)

lemma chunk_drop_wf [simp]: "chunk_wf c \<Longrightarrow> chunk_drop c = Inr (chunk_metas c)"
  unfolding chunk_drop_def chunk_metas_def
  by (rule map_res_Inr) (auto simp: chunk_wf_def assume_init_def split: option.splits)

lemma length_chunk_metas [simp]: "length (chunk_metas c) = mc_published_len c"
  by (simp add: chunk_metas_def)

section \<open>Lemmas: the log\<close>

lemma log_inv_empty: "log_inv d l"
  if "cl_slots l = []" "cl_chunks l = []" "cl_len l = 0" "cl_index l = []"
  using that by (simp add: log_inv_def)

lemma log_metas_empty [simp]: "cl_chunks l = [] \<Longrightarrow> log_metas l = []"
  by (simp add: log_metas_def)

lemma log_inv_chunk_wf: "log_inv d l \<Longrightarrow> c \<in> set (cl_chunks l) \<Longrightarrow> chunk_wf c"
  by (auto simp: log_inv_def in_set_conv_nth)

lemma index_published:
  assumes "cl_index l = [0..<length (cl_chunks l)]"
    and "\<And>c. c \<in> set (cl_chunks l) \<Longrightarrow> f c = Inr (g c)"
  shows "map_res (\<lambda>i. res_bind (index_at (cl_chunks l) i) f) (cl_index l) = Inr (map g (cl_chunks l))"
proof -
  have "map_res (\<lambda>i. res_bind (index_at (cl_chunks l) i) f) (cl_index l) =
      Inr (map (\<lambda>i. g (cl_chunks l ! i)) [0..<length (cl_chunks l)])"
    unfolding assms(1) by (rule map_res_Inr) (simp add: assms(2))
  also have "map (\<lambda>i. g (cl_chunks l ! i)) [0..<length (cl_chunks l)] = map g (cl_chunks l)"
    by (intro nth_equalityI) simp_all
  finally show ?thesis .
qed

lemma log_visit_inv [run_simps]: "log_inv d l \<Longrightarrow> log_visit l = Inr (log_metas l)"
  unfolding log_visit_def log_metas_def
  by (subst index_published [where g = chunk_metas])
    (auto simp: log_inv_def in_set_conv_nth)

lemma log_len_metas: "log_inv d l \<Longrightarrow> log_len l = Inr (length (log_metas l))"
  unfolding log_len_def log_metas_def
  by (subst index_published [where g = mc_published_len])
    (auto simp: log_inv_def length_concat comp_def)

lemma sum_published:
  "(\<Sum>i\<leftarrow>[0..<n]. min 256 (m - 256 * i)) = min m (256 * n)" for m n :: nat
proof (induction n)
  case (Suc n)
  show ?case by (simp add: Suc.IH)
qed simp

lemma length_log_metas:
  assumes "log_inv d l"
  shows "length (log_metas l) = cl_len l"
proof -
  let ?cs = "cl_chunks l"
  have "map mc_published_len ?cs = map (\<lambda>i. min 256 (cl_len l - 256 * i)) [0..<length ?cs]"
    using assms by (intro nth_equalityI) (simp_all add: log_inv_def)
  then have "length (log_metas l) = (\<Sum>i\<leftarrow>[0..<length ?cs]. min 256 (cl_len l - 256 * i))"
    by (simp add: log_metas_def length_concat comp_def)
  also have "\<dots> = min (cl_len l) (256 * length ?cs)"
    by (rule sum_published)
  also have "\<dots> = cl_len l"
    using assms by (simp add: log_inv_def)
  finally show ?thesis .
qed

lemma log_len_inv [run_simps]: "log_inv d l \<Longrightarrow> log_len l = Inr (cl_len l)"
  by (simp add: log_len_metas length_log_metas)

lemma chunk_count_arith:
  "(n + 255) div 256 = (if n mod 256 = 0 then n div 256 else Suc (n div 256))" for n :: nat
proof -
  have "(n + 255) div 256 = n div 256 + (n mod 256 + 255) div 256"
    by (subst div_add1_eq) simp
  moreover have "(n mod 256 + 255) div 256 = (if n mod 256 = 0 then 0 else 1)"
    using mod_less_divisor [of 256 n] by (intro div_nat_eqI) auto
  ultimately show ?thesis by simp
qed

lemma published_last_arith: "min 256 (n - 256 * (n div 256)) = n mod 256" for n :: nat
  using mod_less_divisor [of 256 n] by (simp add: minus_mult_div_eq_mod)

lemma log_chunk_counts:
  assumes "log_inv d l"
  shows "cl_len l mod 256 = 0 \<Longrightarrow> length (cl_chunks l) = cl_len l div 256"
    and "cl_len l mod 256 \<noteq> 0 \<Longrightarrow> length (cl_chunks l) = Suc (cl_len l div 256)"
  using assms by (simp_all add: log_inv_def chunk_count_arith)

lemma log_alloc_new:
  assumes inv: "log_inv d l" and new: "cl_len l mod 256 = 0"
  obtains l' c' where "log_alloc d mk l = Inr ((cl_len l div 256, cl_len l mod 256), l')"
    and "cl_slots l' = cl_slots l @ [replicate CHUNK_SIZE d]"
    and "cl_chunks l' = cl_chunks l @ [c']"
    and "chunk_wf c'" "mc_published_len c' = 1"
    and "chunk_metas c' = [mk (cl_len l div 256) (cl_len l mod 256)]"
    and "cl_len l' = Suc (cl_len l)"
    and "cl_index l' = cl_index l @ [cl_len l div 256]"
    and "chunk_log.more l' = chunk_log.more l"
proof -
  let ?n = "cl_len l div 256"
  have len: "length (cl_chunks l) = ?n" "length (cl_slots l) = ?n" "cl_index l = [0..<?n]"
    using inv log_chunk_counts(1) [OF inv new] by (simp_all add: log_inv_def)
  obtain c' where c': "publish 0 (mk ?n 0) meta_chunk_new = Inr c'" "chunk_wf c'"
    "mc_published_len c' = 1" "chunk_metas c' = [mk ?n 0]"
    by (rule publish_wf [of meta_chunk_new 0 "mk ?n 0"]) (simp_all add: CHUNK_SIZE_def)
  let ?l' = "l\<lparr>cl_slots := cl_slots l @ [replicate CHUNK_SIZE d], cl_chunks := cl_chunks l @ [c'],
    cl_len := Suc (cl_len l), cl_index := cl_index l @ [?n]\<rparr>"
  have upd: "(cl_chunks l @ [meta_chunk_new])[?n := c'] = cl_chunks l @ [c']"
    using list_update_length [of "cl_chunks l" meta_chunk_new "[]" c'] by (simp add: len)
  have "log_alloc d mk l = Inr ((?n, cl_len l mod 256), ?l')"
    using upd by (simp add: log_alloc_defs Let_def CHUNK_SIZE_def new len c' nth_append)
  then show thesis
    using c' by (intro that [of ?l' c']) (simp_all add: new)
qed

lemma log_alloc_old:
  assumes inv: "log_inv d l" and old: "cl_len l mod 256 \<noteq> 0"
  obtains l' c' where "log_alloc d mk l = Inr ((cl_len l div 256, cl_len l mod 256), l')"
    and "cl_slots l' = cl_slots l"
    and "cl_chunks l' = butlast (cl_chunks l) @ [c']"
    and "chunk_wf c'" "mc_published_len c' = Suc (cl_len l mod 256)"
    and "chunk_metas c' = chunk_metas (last (cl_chunks l)) @ [mk (cl_len l div 256) (cl_len l mod 256)]"
    and "cl_len l' = Suc (cl_len l)"
    and "cl_index l' = cl_index l"
    and "chunk_log.more l' = chunk_log.more l"
proof -
  let ?n = "cl_len l div 256" and ?o = "cl_len l mod 256"
  have len: "length (cl_chunks l) = Suc ?n" "length (cl_slots l) = Suc ?n"
    using inv log_chunk_counts(2) [OF inv old] by (simp_all add: log_inv_def)
  obtain cs c where cs: "cl_chunks l = cs @ [c]" "length cs = ?n"
    using len(1) by (metis length_append_singleton nat.inject rev_exhaust list.size(3) nat.simps(3))
  have pub: "mc_published_len c = ?o" "chunk_wf c"
    using inv cs by (auto simp: log_inv_def published_last_arith nth_append)
  obtain c' where c': "publish ?o (mk ?n ?o) c = Inr c'" "chunk_wf c'"
    "mc_published_len c' = Suc ?o" "chunk_metas c' = chunk_metas c @ [mk ?n ?o]"
    by (rule publish_wf [OF pub(2,1), of "mk ?n ?o"]) (simp_all add: CHUNK_SIZE_def)
  let ?l' = "l\<lparr>cl_chunks := cs @ [c'], cl_len := Suc (cl_len l)\<rparr>"
  have upd: "(cs @ [c])[?n := c'] = cs @ [c']"
    using list_update_length [of cs c "[]" c'] by (simp add: cs)
  have "log_alloc d mk l = Inr ((?n, ?o), ?l')"
    using upd cs(2) by (simp add: log_alloc_defs Let_def CHUNK_SIZE_def len(2) c' cs(1) nth_append)
  then show thesis
    using c' cs by (intro that [of ?l' c']) simp_all
qed

lemma log_invI:
  assumes "length (cl_chunks l) = (cl_len l + 255) div 256"
    and "length (cl_slots l) = length (cl_chunks l)"
    and "\<And>s. s \<in> set (cl_slots l) \<Longrightarrow> length s = CHUNK_SIZE"
    and "cl_index l = [0..<length (cl_chunks l)]"
    and "\<And>i. i < length (cl_chunks l) \<Longrightarrow> chunk_wf (cl_chunks l ! i)"
    and "\<And>i. i < length (cl_chunks l) \<Longrightarrow>
           mc_published_len (cl_chunks l ! i) = min 256 (cl_len l - 256 * i)"
    and "\<And>i j. i < length (cl_slots l) \<Longrightarrow> j < CHUNK_SIZE \<Longrightarrow> cl_len l \<le> i * 256 + j \<Longrightarrow>
           cl_slots l ! i ! j = d"
  shows "log_inv d l"
  using assms by (simp add: log_inv_def)

lemma log_invD:
  assumes "log_inv d l"
  shows "length (cl_slots l) = length (cl_chunks l)"
    and "s \<in> set (cl_slots l) \<Longrightarrow> length s = CHUNK_SIZE"
    and "cl_index l = [0..<length (cl_chunks l)]"
    and "i < length (cl_chunks l) \<Longrightarrow> chunk_wf (cl_chunks l ! i)"
    and "i < length (cl_chunks l) \<Longrightarrow>
           mc_published_len (cl_chunks l ! i) = min 256 (cl_len l - 256 * i)"
    and "i < length (cl_slots l) \<Longrightarrow> j < CHUNK_SIZE \<Longrightarrow> cl_len l \<le> i * 256 + j \<Longrightarrow>
           cl_slots l ! i ! j = d"
  using assms by (simp_all add: log_inv_def)

lemma log_alloc_keeps_inv:
  assumes inv: "log_inv d l" and "log_alloc d mk l = Inr (p, l')"
  shows "log_inv d l'"
proof (cases "cl_len l mod 256 = 0")
  case True
  define n where "n = cl_len l div 256"
  have n: "cl_len l = 256 * n" using True by (auto simp: n_def)
  have len: "length (cl_chunks l) = n" using log_chunk_counts(1) [OF inv True] by (simp add: n_def)
  obtain l1 c' where "log_alloc d mk l = Inr ((n, cl_len l mod 256), l1)"
    and l1: "cl_slots l1 = cl_slots l @ [replicate CHUNK_SIZE d]" "cl_chunks l1 = cl_chunks l @ [c']"
    "chunk_wf c'" "mc_published_len c' = 1" "cl_len l1 = Suc (cl_len l)" "cl_index l1 = cl_index l @ [n]"
    using log_alloc_new [OF inv True, of mk] unfolding n_def by metis
  with assms(2) have [simp]: "l' = l1" by simp
  show ?thesis
  proof (rule log_invI)
    fix i j
    assume "i < length (cl_slots l')" "j < CHUNK_SIZE" "cl_len l' \<le> i * 256 + j"
    then show "cl_slots l' ! i ! j = d"
      using log_invD(1) [OF inv] by (simp add: l1 nth_append n len CHUNK_SIZE_def split: if_splits)
  qed (use log_invD [OF inv] in \<open>auto simp: l1 n len nth_append less_Suc_eq\<close>)
next
  case False
  define n where "n = cl_len l div 256"
  define k where "k = cl_len l mod 256"
  have nk: "cl_len l = 256 * n + k" "0 < k" "k < 256" using False by (simp_all add: n_def k_def)
  have len: "length (cl_chunks l) = Suc n" using log_chunk_counts(2) [OF inv False] by (simp add: n_def)
  obtain l1 c' where "log_alloc d mk l = Inr ((n, k), l1)"
    and l1: "cl_slots l1 = cl_slots l" "cl_chunks l1 = butlast (cl_chunks l) @ [c']"
    "chunk_wf c'" "mc_published_len c' = Suc k" "cl_len l1 = Suc (cl_len l)" "cl_index l1 = cl_index l"
    using log_alloc_old [OF inv False, of mk] unfolding n_def k_def by metis
  with assms(2) have [simp]: "l' = l1" by simp
  show ?thesis
  proof (rule log_invI)
    show "length (cl_chunks l') = (cl_len l' + 255) div 256"
      using nk by (simp add: l1 len)
    fix i assume "i < length (cl_chunks l')"
    then show "mc_published_len (cl_chunks l' ! i) = min 256 (cl_len l' - 256 * i)"
      using log_invD(5) [OF inv, of i] nk
      by (auto simp: l1 len nth_append nth_butlast less_Suc_eq)
  qed (use log_invD [OF inv] in \<open>auto simp: l1 len nth_append nth_butlast less_Suc_eq\<close>)
qed

lemma log_alloc_metas:
  assumes inv: "log_inv d l" and "log_alloc d mk l = Inr (p, l')"
  shows "log_metas l' = log_metas l @ [mk (fst p) (snd p)]"
proof (cases "cl_len l mod 256 = 0")
  case True
  then show ?thesis
    using log_alloc_new [OF inv True, of mk] assms(2) by (force simp: log_metas_def)
next
  case False
  have "cl_chunks l \<noteq> []" using log_chunk_counts(2) [OF inv False] by auto
  then have "cl_chunks l = butlast (cl_chunks l) @ [last (cl_chunks l)]" by simp
  then have "map chunk_metas (cl_chunks l) =
      map chunk_metas (butlast (cl_chunks l)) @ [chunk_metas (last (cl_chunks l))]"
    by (metis list.simps(8,9) map_append)
  then have "log_metas l = concat (map chunk_metas (butlast (cl_chunks l))) @ chunk_metas (last (cl_chunks l))"
    by (simp add: log_metas_def)
  then show ?thesis
    using log_alloc_old [OF inv False, of mk] assms(2) by (force simp: log_metas_def)
qed

lemma log_alloc_total:
  assumes inv: "log_inv d l"
  obtains l' where "log_alloc d mk l = Inr ((cl_len l div 256, cl_len l mod 256), l')"
    and "cl_len l' = Suc (cl_len l)" and "chunk_log.more l' = chunk_log.more l"
    and "cl_slots l' = cl_slots l \<or> cl_slots l' = cl_slots l @ [replicate CHUNK_SIZE d]"
    and "cl_index l' = (if cl_len l mod 256 = 0 then cl_index l @ [cl_len l div 256] else cl_index l)"
  using log_alloc_new [OF inv, of mk] log_alloc_old [OF inv, of mk] by metis

section \<open>Lemmas: slot memory\<close>

lemma ptr_valid_bounds:
  assumes "log_inv d l" and "ptr_valid l p"
  shows "fst p < length (cl_slots l)" and "snd p < length (cl_slots l ! fst p)"
proof -
  show *: "fst p < length (cl_slots l)"
    using assms by (auto simp: log_inv_def ptr_valid_def)
  then show "snd p < length (cl_slots l ! fst p)"
    using assms by (simp add: log_inv_def ptr_valid_def CHUNK_SIZE_def)
qed

lemma log_deref_valid:
  "log_inv d l \<Longrightarrow> ptr_valid l p \<Longrightarrow> log_deref l p = Inr (cl_slots l ! fst p ! snd p)"
  by (simp add: log_deref_def ptr_valid_bounds)

text \<open>Allocation moves no slot and clears no slot: every pointer handed out before still works.\<close>

lemma log_alloc_deref:
  assumes inv: "log_inv d l" and alloc: "log_alloc d mk l = Inr (p, l')"
  shows "ptr_valid l q \<Longrightarrow> log_deref l' q = log_deref l q"
    and "ptr_valid l q \<Longrightarrow> ptr_valid l' q"
    and "ptr_valid l' p" and "\<not> ptr_valid l p" and "log_deref l' p = Inr d"
proof -
  obtain l1 where l1: "log_alloc d mk l = Inr ((cl_len l div 256, cl_len l mod 256), l1)"
    "cl_len l1 = Suc (cl_len l)"
    "cl_slots l1 = cl_slots l \<or> cl_slots l1 = cl_slots l @ [replicate CHUNK_SIZE d]"
    by (rule log_alloc_total [OF inv, of mk]) blast
  with alloc have l': "l' = l1" and p: "p = (cl_len l div 256, cl_len l mod 256)" by auto
  show vq: "ptr_valid l q \<Longrightarrow> ptr_valid l' q"
    by (simp add: ptr_valid_def l' l1)
  show vp: "ptr_valid l' p" and "\<not> ptr_valid l p"
    by (simp_all add: ptr_valid_def p l' l1)
  have inv': "log_inv d l'" using inv alloc by (rule log_alloc_keeps_inv)
  show "log_deref l' q = log_deref l q" if "ptr_valid l q"
    using log_deref_valid [OF inv that] log_deref_valid [OF inv' vq [OF that]]
      ptr_valid_bounds [OF inv that] l1(3)
    by (auto simp: l' nth_append)
  have "fst p < length (cl_slots l')" "cl_len l = fst p * 256 + snd p" "snd p < CHUNK_SIZE"
    using ptr_valid_bounds [OF inv' vp] by (simp_all add: p CHUNK_SIZE_def)
  then have "cl_slots l ! fst p ! snd p = d" if "fst p < length (cl_slots l)"
    using inv that by (simp add: log_inv_def)
  with log_deref_valid [OF inv' vp] l1(3) show "log_deref l' p = Inr d"
    using \<open>fst p < length (cl_slots l')\<close> \<open>snd p < CHUNK_SIZE\<close>
    by (auto simp: l' nth_append less_Suc_eq_le not_less)
qed

lemma log_update_valid:
  assumes inv: "log_inv d l" and "ptr_valid l p"
  obtains l' where "log_update p f l = Inr l'" and "log_inv d l'"
    and "cl_chunks l' = cl_chunks l" "cl_len l' = cl_len l" "cl_index l' = cl_index l"
    and "chunk_log.more l' = chunk_log.more l"
    and "\<And>q. ptr_valid l q \<Longrightarrow> log_deref l' q = (if q = p then map_sum id f (log_deref l q) else log_deref l q)"
proof -
  note b = ptr_valid_bounds [OF assms]
  let ?l' = "l\<lparr>cl_slots := (cl_slots l)[fst p := (cl_slots l ! fst p)[snd p := f (cl_slots l ! fst p ! snd p)]]\<rparr>"
  have upd: "log_update p f l = Inr ?l'"
    by (simp add: log_update_def log_deref_valid [OF assms])
  moreover have inv': "log_inv d ?l'"
    using assms b unfolding log_inv_def ptr_valid_def
    by (auto simp: nth_list_update dest: in_set_conv_nth [THEN iffD1] split: if_splits)
  moreover have "log_deref ?l' q = (if q = p then map_sum id f (log_deref l q) else log_deref l q)"
    if "ptr_valid l q" for q
  proof -
    have "ptr_valid ?l' q" using that by (simp add: ptr_valid_def)
    from log_deref_valid [OF inv that] log_deref_valid [OF inv' this]
    show ?thesis using b by (auto simp: nth_list_update prod_eq_iff)
  qed
  ultimately show thesis by (intro that [of ?l']) simp_all
qed

lemma log_update_metas: "log_update p f l = Inr l' \<Longrightarrow> log_metas l' = log_metas l"
  by (auto simp: log_update_def log_metas_def res_bind_Inr_iff)

section \<open>Visiting shards that grow\<close>

definition visited :: "nat \<Rightarrow> (nat \<Rightarrow> ('slot, 'm, 'z) chunk_log_scheme list) \<Rightarrow> 'm list" where
  "visited n at = concat (map (\<lambda>i. log_metas (at i ! i)) [0..<n])"

lemma visit_shards_ok:
  assumes "\<And>i. i < n \<Longrightarrow> i < length (at i) \<and> log_inv d (at i ! i)"
    and "\<And>i j m. i < n \<Longrightarrow> m \<in> set (log_metas (at i ! i)) \<Longrightarrow> f i j m = Inr (g i j m)"
  shows "visit_shards n at f =
    Inr (concat (map (\<lambda>i. map (\<lambda>(j, m). g i j m) (enumerate 0 (log_metas (at i ! i)))) [0..<n]))"
proof -
  have "res_bind (index_at (at i) i) (\<lambda>shard. res_bind (log_visit shard) (\<lambda>metas.
      map_res (\<lambda>(j, meta). f i j meta) (enumerate 0 metas))) =
    Inr (map (\<lambda>(j, m). g i j m) (enumerate 0 (log_metas (at i ! i))))" if "i < n" for i
  proof -
    have "map_res (\<lambda>(j, meta). f i j meta) (enumerate 0 (log_metas (at i ! i))) =
        Inr (map (\<lambda>(j, m). g i j m) (enumerate 0 (log_metas (at i ! i))))"
      by (rule map_res_Inr) (use assms(2) [OF that] in \<open>auto simp: in_set_enumerate_eq\<close>)
    then show ?thesis using assms(1) [OF that] log_visit_inv [of d "at i ! i"] by (simp add: index_at_def)
  qed
  then have "map_res (\<lambda>i. res_bind (index_at (at i) i) (\<lambda>shard. res_bind (log_visit shard) (\<lambda>metas.
      map_res (\<lambda>(j, meta). f i j meta) (enumerate 0 metas)))) [0..<n] =
    Inr (map (\<lambda>i. map (\<lambda>(j, m). g i j m) (enumerate 0 (log_metas (at i ! i)))) [0..<n])"
    by (intro map_res_Inr) simp
  then show ?thesis by (simp add: visit_shards_def)
qed

lemma map_enumerate_snd: "map (\<lambda>(j, m). g m) (enumerate k xs) = map g xs"
  by (induction xs arbitrary: k) simp_all

lemma visit_shards_metas:
  assumes "\<And>i. i < n \<Longrightarrow> i < length (at i) \<and> log_inv d (at i ! i)"
    and "\<And>i j m. i < n \<Longrightarrow> m \<in> set (log_metas (at i ! i)) \<Longrightarrow> f i j m = Inr (g m)"
  shows "visit_shards n at f = Inr (map g (visited n at))"
  using visit_shards_ok [OF assms(1), where f = f and g = "\<lambda>i j. g"] assms(2)
  by (simp add: map_enumerate_snd visited_def map_concat comp_def)

lemma visited_const: "visited (length xs) (\<lambda>_. xs) = concat (map log_metas xs)"
proof -
  have "map (\<lambda>i. log_metas (xs ! i)) [0..<length xs] = map log_metas xs"
    by (rule nth_equalityI) simp_all
  then show ?thesis by (simp add: visited_def)
qed

text \<open>Logs only grow, so a visit sees at least what there was when it began and at most what there
  is when it ends.\<close>

definition logs_grown :: "('slot, 'm, 'z) chunk_log_scheme list \<Rightarrow> ('slot, 'm, 'z) chunk_log_scheme list \<Rightarrow> bool" where
  "logs_grown xs ys \<longleftrightarrow> list_all2 (\<lambda>a b. prefix (log_metas a) (log_metas b)) xs ys"

lemma logs_grown_refl [simp]: "logs_grown xs xs"
  by (simp add: logs_grown_def list_all2_same)

lemma logs_grown_trans [trans]: "logs_grown xs ys \<Longrightarrow> logs_grown ys zs \<Longrightarrow> logs_grown xs zs"
  unfolding logs_grown_def by (rule list_all2_trans) (auto intro: prefix_order.trans)

lemma logs_grown_update:
  "prefix (log_metas (xs ! i)) (log_metas s) \<Longrightarrow> i < length xs \<Longrightarrow> logs_grown xs (xs[i := s])"
  by (simp add: logs_grown_def list_all2_conv_all_nth nth_list_update)

lemma subseq_prefixes: "list_all2 prefix xss yss \<Longrightarrow> subseq (concat xss) (concat yss)"
  by (intro subseq_concat) (auto simp: list_all2_conv_all_nth intro: prefix_imp_subseq)

lemma visited_between:
  assumes "\<And>i. i \<le> n \<Longrightarrow> length (at i) = n" and "\<And>i. i < n \<Longrightarrow> logs_grown (at 0) (at i) \<and> logs_grown (at i) (at n)"
  shows "subseq (concat (map log_metas (at 0))) (visited n at)"
    and "subseq (visited n at) (concat (map log_metas (at n)))"
proof -
  have "prefix (log_metas (at 0 ! i)) (log_metas (at i ! i))" "prefix (log_metas (at i ! i)) (log_metas (at n ! i))"
    if "i < n" for i
    using assms(2) [OF that] assms(1) that by (simp_all add: logs_grown_def list_all2_conv_all_nth)
  then show "subseq (concat (map log_metas (at 0))) (visited n at)"
    and "subseq (visited n at) (concat (map log_metas (at n)))"
    unfolding visited_def by (auto intro!: subseq_prefixes simp: list_all2_conv_all_nth assms(1))
qed

end
