(* ===== verification/Keyed_Registry.thy ===== *)
theory Keyed_Registry
  imports Metrics_Prelude
begin

text \<open>
  The contract that every registry of the program offers to its clients, as a locale: registering a
  key returns the handle the key already has, or a handle on a fresh slot that reads as zero, and
  disturbs no other key and no other slot. It is stated once, its consequences (idempotence, no
  aliasing, any sequence of registrations) are proved once, and spreading a registry over shards by a
  hash keeps it (\<open>sharded_registry\<close>). The timing shard, the scalar shard and both whole registries
  interpret it on their own definitions.
\<close>

section \<open>Running operations\<close>

text \<open>A sequence of calls on one state, collecting the returned handles.\<close>

fun run_all :: "('r \<Rightarrow> 's \<Rightarrow> ('h \<times> 's) result) \<Rightarrow> 'r list \<Rightarrow> 's \<Rightarrow> ('h list \<times> 's) result" where
  "run_all f [] s = Inr ([], s)"
| "run_all f (r # rs) s =
     res_bind (f r s) (\<lambda>(h, s'). res_bind (run_all f rs s') (\<lambda>(hs, s''). Inr (h # hs, s'')))"

fun run_steps :: "('z \<Rightarrow> 's \<Rightarrow> 's result) \<Rightarrow> 'z list \<Rightarrow> 's \<Rightarrow> 's result" where
  "run_steps act [] s = Inr s"
| "run_steps act (z # zs) s = res_bind (act z s) (run_steps act zs)"

lemma run_steps_append: "run_steps act (xs @ ys) s = res_bind (run_steps act xs s) (run_steps act ys)"
  by (induction xs arbitrary: s) (simp_all add: res_bind_def split: sum.split)

text \<open>One call on the shard at index \<open>i\<close> of an array of shards.\<close>

definition on_shard :: "nat \<Rightarrow> ('s \<Rightarrow> ('h \<times> 's) result) \<Rightarrow> 's list \<Rightarrow> ('h \<times> 's list) result" where
  "on_shard i f xs =
     res_bind (index_at xs i) (\<lambda>s. res_bind (f s) (\<lambda>(h, s'). Inr (h, xs[i := s'])))"

text \<open>
  Shard selection: the low bits of the hash. Both registries have 64 shards; the hash function (a
  keyed AHash) is a parameter.
\<close>

definition SHARD_COUNT :: nat where
  "SHARD_COUNT = 64"

definition shard_index :: "u64 \<Rightarrow> nat" where
  "shard_index h = unat (h AND word_of_nat (SHARD_COUNT - 1))"

lemma shard_index_less [simp]: "shard_index h < 64"
proof -
  have "h AND 63 \<le> 63" by (rule word_and_le1)
  then show ?thesis by (simp add: shard_index_def SHARD_COUNT_def word_le_nat_alt)
qed

text \<open>
  The abstract content of a registry: what each registered key's slot holds. A client that only
  registers, updates and reads through handles sees nothing else.
\<close>

definition slot_map ::
  "('s \<Rightarrow> 'k \<Rightarrow> 'h option) \<Rightarrow> ('h \<Rightarrow> 'a) \<Rightarrow> ('s \<Rightarrow> 'a \<Rightarrow> 'v result) \<Rightarrow> 's \<Rightarrow> 'k \<Rightarrow> 'v option" where
  "slot_map lookup addr slot_at s k =
     (case lookup s k of None \<Rightarrow> None
      | Some h \<Rightarrow> (case slot_at s (addr h) of Inl _ \<Rightarrow> None | Inr v \<Rightarrow> Some v))"

text \<open>Running on a component of a larger state is running on the component.\<close>

lemma run_all_lift:
  assumes "\<And>r x. r \<in> set rs \<Longrightarrow> f r (put x) = res_bind (g r x) (\<lambda>(h, x'). Inr (h, put x'))"
  shows "run_all f rs (put x) = res_bind (run_all g rs x) (\<lambda>(hs, x'). Inr (hs, put x'))"
  using assms
proof (induction rs arbitrary: x)
  case (Cons r rs)
  have IH: "run_all f rs (put x') = res_bind (run_all g rs x') (\<lambda>(hs, x'). Inr (hs, put x'))" for x'
    using Cons by simp
  show ?case
    using Cons.prems [of r x]
    by (cases "g r x") (auto simp: IH res_bind_def split: sum.splits)
qed simp

section \<open>The contract\<close>

locale keyed_registry =
  fixes invar :: "'s \<Rightarrow> bool"
    and lookup :: "'s \<Rightarrow> 'k \<Rightarrow> 'h option"
    and register :: "'r \<Rightarrow> 's \<Rightarrow> ('h \<times> 's) result"
    and key :: "'r \<Rightarrow> 'k"
    and addr :: "'h \<Rightarrow> 'a"
    and slot_at :: "'s \<Rightarrow> 'a \<Rightarrow> 'v result"
    and update :: "'a \<Rightarrow> ('v \<Rightarrow> 'v) \<Rightarrow> 's \<Rightarrow> 's result"
    and zero :: 'v
    and log :: "'s \<Rightarrow> ('k \<times> 'h) list"
  assumes log_keys: "invar s \<Longrightarrow> distinct (map fst (log s))"
    and log_addrs: "invar s \<Longrightarrow> distinct (map (\<lambda>e. addr (snd e)) (log s))"
    and lookup_log: "invar s \<Longrightarrow> lookup s k = map_of (log s) k"
    and register_known: "invar s \<Longrightarrow> lookup s (key r) = Some h \<Longrightarrow> register r s = Inr (h, s)"
    and register_fresh: "invar s \<Longrightarrow> lookup s (key r) = None \<Longrightarrow>
      \<exists>h s'. register r s = Inr (h, s') \<and> invar s' \<and>
        mset (log s') = add_mset (key r, h) (mset (log s)) \<and>
        slot_at s' (addr h) = Inr zero \<and>
        (\<forall>e \<in> set (log s). slot_at s' (addr (snd e)) = slot_at s (addr (snd e)))"
    and slot_ok: "invar s \<Longrightarrow> e \<in> set (log s) \<Longrightarrow> \<exists>v. slot_at s (addr (snd e)) = Inr v"
    and update_slot: "invar s \<Longrightarrow> e \<in> set (log s) \<Longrightarrow>
      \<exists>s'. update (addr (snd e)) f s = Inr s' \<and> invar s' \<and> log s' = log s \<and>
        (\<forall>e' \<in> set (log s). slot_at s' (addr (snd e')) =
           (if e' = e then map_sum id f (slot_at s (addr (snd e'))) else slot_at s (addr (snd e'))))"
begin

lemma lookup_Some_iff: "invar s \<Longrightarrow> lookup s k = Some h \<longleftrightarrow> (k, h) \<in> set (log s)"
  by (simp add: lookup_log map_of_eq_Some_iff log_keys)

lemma dom_lookup: "invar s \<Longrightarrow> dom (lookup s) = fst ` set (log s)"
  by (simp add: lookup_log dom_map_of_conv_image_fst [symmetric] dom_def)

lemma register_fresh_lookup:
  assumes "invar s" "invar s'" and "mset (log s') = add_mset (k, h) (mset (log s))"
  shows "lookup s' = (lookup s)(k \<mapsto> h)"
proof (rule ext)
  fix k'
  have set: "set (log s') = insert (k, h) (set (log s))"
    using assms(3) by (metis set_mset_add_mset_insert set_mset_mset)
  have "distinct (map fst (log s'))" by (rule log_keys [OF assms(2)])
  moreover have "mset (map fst (log s')) = mset (k # map fst (log s))"
    using assms(3) by simp
  ultimately have "distinct (k # map fst (log s))"
    using mset_eq_imp_distinct_iff by blast
  then have "k \<notin> fst ` set (log s)" by simp
  then show "lookup s' k' = ((lookup s)(k \<mapsto> h)) k'"
    using set lookup_Some_iff [OF assms(1), of k'] lookup_Some_iff [OF assms(2), of k']
    by (cases "lookup s' k'"; cases "k' = k") (force dest: not_Some_eq [THEN iffD2])+
qed

text \<open>Registration never fails, keeps the invariant, and installs the handle it returns.\<close>

lemma register_total:
  assumes "invar s"
  obtains h s' where "register r s = Inr (h, s')" and "invar s'"
    and "lookup s' = (lookup s)(key r \<mapsto> h)"
    and "\<And>k g. lookup s k = Some g \<Longrightarrow> lookup s' k = Some g"
    and "\<And>k g. lookup s k = Some g \<Longrightarrow> slot_at s' (addr g) = slot_at s (addr g)"
    and "length (log s') = length (log s) + (if key r \<in> dom (lookup s) then 0 else 1)"
proof (cases "lookup s (key r)")
  case (Some h)
  then show thesis
    using assms register_known by (intro that [of h s]) (auto simp: fun_eq_iff)
next
  case None
  from register_fresh [OF assms this] obtain h s' where h: "register r s = Inr (h, s')" "invar s'"
    "mset (log s') = add_mset (key r, h) (mset (log s))"
    "\<forall>e \<in> set (log s). slot_at s' (addr (snd e)) = slot_at s (addr (snd e))" by blast
  have up: "lookup s' = (lookup s)(key r \<mapsto> h)"
    using register_fresh_lookup [OF assms h(2,3)] .
  moreover have "length (log s') = Suc (length (log s))"
    using h(3) by (metis size_add_mset size_mset)
  ultimately show thesis
    using h None lookup_Some_iff [OF assms] by (intro that [of h s']) force+
qed

lemma register_idempotent:
  assumes "invar s" and "register r s = Inr (h, s')" and "key r' = key r"
  shows "register r' s' = Inr (h, s')"
proof -
  from register_total [OF assms(1), of r] assms(2) have "invar s'" and "lookup s' (key r') = Some h"
    using assms(3) by (metis Inr_inject prod.inject fun_upd_same)+
  then show ?thesis by (rule register_known)
qed

lemma register_fresh_zero:
  assumes "invar s" and "lookup s (key r) = None" and "register r s = Inr (h, s')"
  shows "slot_at s' (addr h) = Inr zero"
  using register_fresh [OF assms(1,2)] assms(3) by auto

text \<open>Two keys never share a slot.\<close>

lemma no_aliasing:
  assumes "invar s" and "lookup s k = Some h" and "lookup s k' = Some h'" and "addr h = addr h'"
  shows "k = k'"
proof -
  have e: "(k, h) \<in> set (log s)" "(k', h') \<in> set (log s)"
    using assms by (simp_all add: lookup_Some_iff)
  have "inj_on (\<lambda>e. addr (snd e)) (set (log s))"
    using log_addrs [OF assms(1)] by (simp add: distinct_map)
  from inj_onD [OF this _ e] assms(4) show ?thesis by simp
qed

text \<open>
  A registered handle can always be dereferenced, and an atomic update through it changes the slot
  of its own key only.
\<close>

lemma slot_at_lookup: "invar s \<Longrightarrow> lookup s k = Some h \<Longrightarrow> \<exists>v. slot_at s (addr h) = Inr v"
  using slot_ok [of s "(k, h)"] by (simp add: lookup_Some_iff)

lemma update_total:
  assumes "invar s" and "lookup s k = Some h"
  obtains s' v where "update (addr h) f s = Inr s'" and "invar s'" and "log s' = log s"
    and "lookup s' = lookup s"
    and "slot_at s (addr h) = Inr v" and "slot_at s' (addr h) = Inr (f v)"
    and "\<And>k' g. lookup s k' = Some g \<Longrightarrow> k' \<noteq> k \<Longrightarrow> slot_at s' (addr g) = slot_at s (addr g)"
proof -
  have e: "(k, h) \<in> set (log s)" using assms by (simp add: lookup_Some_iff)
  obtain v where v: "slot_at s (addr h) = Inr v" using slot_at_lookup [OF assms] by blast
  obtain s' where s': "update (addr h) f s = Inr s'" "invar s'" "log s' = log s"
    "\<And>e'. e' \<in> set (log s) \<Longrightarrow> slot_at s' (addr (snd e')) =
       (if e' = (k, h) then map_sum id f (slot_at s (addr (snd e'))) else slot_at s (addr (snd e')))"
    using update_slot [OF assms(1) e, of f] by auto
  have "lookup s' = lookup s"
    by (rule ext) (simp add: lookup_log [OF s'(2)] lookup_log [OF assms(1)] s'(3))
  moreover have "slot_at s' (addr h) = Inr (f v)" using s'(4) [OF e] v by simp
  moreover have "slot_at s' (addr g) = slot_at s (addr g)" if "lookup s k' = Some g" "k' \<noteq> k" for k' g
    using s'(4) [of "(k', g)"] that assms(1) by (simp add: lookup_Some_iff)
  ultimately show thesis using s'(1-3) v by (intro that)
qed

lemma handles_eq_iff:
  assumes "invar s" and "lookup s k = Some h" and "lookup s k' = Some h'"
  shows "addr h = addr h' \<longleftrightarrow> k = k'"
  using assms no_aliasing [OF assms] by auto

text \<open>Registering and updating, on the abstract content.\<close>

lemma slot_map_Some: "invar s \<Longrightarrow> lookup s k = Some h \<Longrightarrow> slot_at s (addr h) = Inr v \<Longrightarrow>
  slot_map lookup addr slot_at s k = Some v"
  by (simp add: slot_map_def)

lemma slot_map_None_iff: "invar s \<Longrightarrow> slot_map lookup addr slot_at s k = None \<longleftrightarrow> lookup s k = None"
  using slot_at_lookup [of s k] by (auto simp: slot_map_def split: option.splits)

lemma slot_map_register:
  assumes inv: "invar s" and r: "register r s = Inr (h, s')"
  shows "slot_map lookup addr slot_at s' = (slot_map lookup addr slot_at s)(key r \<mapsto>
    (case slot_map lookup addr slot_at s (key r) of None \<Rightarrow> zero | Some v \<Rightarrow> v))"
proof (cases "lookup s (key r)")
  case (Some h')
  with register_known [OF inv this] r have "s' = s" by simp
  then show ?thesis
    using slot_at_lookup [OF inv Some] by (auto simp: fun_eq_iff slot_map_def Some)
next
  case None
  obtain s1 where s1: "register r s = Inr (h, s1)" "lookup s1 = (lookup s)(key r \<mapsto> h)"
    "\<And>k g. lookup s k = Some g \<Longrightarrow> slot_at s1 (addr g) = slot_at s (addr g)"
    by (rule register_total [OF inv, of r]) (use r in auto)
  have "slot_at s' (addr h) = Inr zero" by (rule register_fresh_zero [OF inv None r])
  then show ?thesis
    using s1 r None by (auto simp: fun_eq_iff slot_map_def split: option.splits)
qed

lemma slot_map_update:
  assumes inv: "invar s" and k: "lookup s k = Some h"
  obtains s' v where "update (addr h) f s = Inr s'" and "invar s'" and "log s' = log s"
    and "lookup s' = lookup s" and "slot_map lookup addr slot_at s k = Some v"
    and "slot_map lookup addr slot_at s' = (slot_map lookup addr slot_at s)(k \<mapsto> f v)"
proof -
  obtain s' v where s': "update (addr h) f s = Inr s'" "invar s'" "log s' = log s" "lookup s' = lookup s"
    "slot_at s (addr h) = Inr v" "slot_at s' (addr h) = Inr (f v)"
    "\<And>k' g. lookup s k' = Some g \<Longrightarrow> k' \<noteq> k \<Longrightarrow> slot_at s' (addr g) = slot_at s (addr g)"
    by (rule update_total [OF inv k, of f]) blast
  have "slot_map lookup addr slot_at s' k' = ((slot_map lookup addr slot_at s)(k \<mapsto> f v)) k'" for k'
    using s'(5-7) k by (cases "lookup s k'") (auto simp: slot_map_def s'(4))
  then show thesis
    using s' k by (intro that [of s' v]) (auto simp: slot_map_def)
qed

text \<open>Any sequence of atomic updates through registered handles, so any schedule of threads:
  every slot undergoes exactly its own updates, in their order.\<close>

lemma run_updates:
  assumes "invar s" and "fst ` set zs \<subseteq> ran (lookup s)"
  shows "\<exists>s'. run_steps (\<lambda>(h, f). update (addr h) f) zs s = Inr s' \<and> invar s' \<and>
    log s' = log s \<and> lookup s' = lookup s \<and>
    (\<forall>k h. lookup s k = Some h \<longrightarrow> slot_map lookup addr slot_at s' k =
       map_option (fold (\<lambda>(g, f). if g = h then f else id) zs) (slot_map lookup addr slot_at s k))"
  using assms
proof (induction zs arbitrary: s)
  case Nil
  then show ?case by (simp add: option.map_ident)
next
  case (Cons z zs)
  obtain g f where z: "z = (g, f)" by (cases z)
  obtain k where k: "lookup s k = Some g" using Cons.prems(2) z by (auto simp: ran_def)
  obtain s1 v where s1: "update (addr g) f s = Inr s1" "invar s1" "log s1 = log s" "lookup s1 = lookup s"
    "slot_map lookup addr slot_at s k = Some v"
    "slot_map lookup addr slot_at s1 = (slot_map lookup addr slot_at s)(k \<mapsto> f v)"
    by (rule slot_map_update [OF Cons.prems(1) k, of f]) blast
  have "fst ` set zs \<subseteq> ran (lookup s1)" using Cons.prems(2) by (simp add: s1(4))
  from Cons.IH [OF s1(2) this] obtain s' where
    s': "run_steps (\<lambda>(h, f). update (addr h) f) zs s1 = Inr s'" "invar s'"
    "log s' = log s1" "lookup s' = lookup s1"
    and m: "\<forall>k h. lookup s1 k = Some h \<longrightarrow> slot_map lookup addr slot_at s' k =
       map_option (fold (\<lambda>(g, f). if g = h then f else id) zs) (slot_map lookup addr slot_at s1 k)"
    by (elim exE conjE)
  have step: "slot_map lookup addr slot_at s' k' =
       map_option (fold (\<lambda>(g, f). if g = h then f else id) (z # zs)) (slot_map lookup addr slot_at s k')"
    if "lookup s k' = Some h" for k' h
  proof (cases "k' = k")
    case True
    with m [rule_format, of k' h] s1(4-6) that k show ?thesis by (simp add: z)
  next
    case False
    then have "g \<noteq> h" using no_aliasing [OF Cons.prems(1) k that] by auto
    with False m [rule_format, of k' h] s1(4,6) that show ?thesis by (simp add: z)
  qed
  show ?case
  proof (intro exI [of _ s'] conjI allI impI)
    show "run_steps (\<lambda>(h, f). update (addr h) f) (z # zs) s = Inr s'" by (simp add: z s1(1) s'(1))
  qed (simp_all only: s' s1 step)
qed

text \<open>Any sequence of registrations, so any schedule of concurrent ones.\<close>

lemma run_all_register:
  assumes "invar s"
  shows "\<exists>hs s'. run_all register rs s = Inr (hs, s') \<and> invar s' \<and> length hs = length rs \<and>
    (\<forall>i < length rs. lookup s' (key (rs ! i)) = Some (hs ! i)) \<and>
    (\<forall>k g. lookup s k = Some g \<longrightarrow> lookup s' k = Some g \<and> slot_at s' (addr g) = slot_at s (addr g)) \<and>
    (\<forall>k g. lookup s k = None \<longrightarrow> lookup s' k = Some g \<longrightarrow> slot_at s' (addr g) = Inr zero) \<and>
    dom (lookup s') = dom (lookup s) \<union> key ` set rs \<and>
    length (log s') = length (log s) + card (key ` set rs - dom (lookup s))"
  using assms
proof (induction rs arbitrary: s)
  case Nil
  then show ?case by simp
next
  case (Cons r rs)
  obtain h s1 where s1: "register r s = Inr (h, s1)" "invar s1" "lookup s1 = (lookup s)(key r \<mapsto> h)"
    "\<And>k g. lookup s k = Some g \<Longrightarrow> lookup s1 k = Some g"
    "\<And>k g. lookup s k = Some g \<Longrightarrow> slot_at s1 (addr g) = slot_at s (addr g)"
    "length (log s1) = length (log s) + (if key r \<in> dom (lookup s) then 0 else 1)"
    by (rule register_total [OF Cons.prems, of r]) blast
  from Cons.IH [OF s1(2)] obtain hs s' where s': "run_all register rs s1 = Inr (hs, s')" "invar s'"
    "length hs = length rs" "\<forall>i < length rs. lookup s' (key (rs ! i)) = Some (hs ! i)"
    "\<forall>k g. lookup s1 k = Some g \<longrightarrow> lookup s' k = Some g \<and> slot_at s' (addr g) = slot_at s1 (addr g)"
    "\<forall>k g. lookup s1 k = None \<longrightarrow> lookup s' k = Some g \<longrightarrow> slot_at s' (addr g) = Inr zero"
    "dom (lookup s') = dom (lookup s1) \<union> key ` set rs"
    "length (log s') = length (log s1) + card (key ` set rs - dom (lookup s1))" by (elim exE conjE)
  have card: "card (key ` set (r # rs) - dom (lookup s)) =
      (if key r \<in> dom (lookup s) then 0 else 1) + card (key ` set rs - dom (lookup s1))"
  proof (cases "key r \<in> dom (lookup s)")
    case True
    then have "key ` set (r # rs) - dom (lookup s) = key ` set rs - dom (lookup s1)"
      by (auto simp: s1(3))
    with True show ?thesis by simp
  next
    case False
    then have "key ` set (r # rs) - dom (lookup s) = insert (key r) (key ` set rs - dom (lookup s1))"
      by (auto simp: s1(3))
    with False show ?thesis by (simp add: s1(3))
  qed
  show ?case
  proof (intro exI [of _ "h # hs"] exI [of _ s'] conjI allI impI)
    show "run_all register (r # rs) s = Inr (h # hs, s')" by (simp add: s1(1) s'(1))
    show "lookup s' (key ((r # rs) ! i)) = Some ((h # hs) ! i)" if "i < length (r # rs)" for i
      using that s'(4,5) s1(3) by (cases i) simp_all
    show "lookup s' k = Some g" "slot_at s' (addr g) = slot_at s (addr g)"
      if "lookup s k = Some g" for k g
      using s'(5) [rule_format, OF s1(4) [OF that]] s1(5) [OF that] by simp_all
    show "slot_at s' (addr g) = Inr zero" if "lookup s k = None" "lookup s' k = Some g" for k g
    proof (cases "k = key r")
      case True
      with that s1(1) have "slot_at s1 (addr h) = Inr zero"
        by (intro register_fresh_zero [OF Cons.prems]) simp_all
      moreover have "lookup s1 k = Some h" using True s1(3) by simp
      ultimately show ?thesis using s'(5) that(2) by (metis option.inject)
    next
      case False
      with that(1) have "lookup s1 k = None" by (simp add: s1(3))
      then show ?thesis by (rule s'(6) [rule_format]) (rule that(2))
    qed
    show "dom (lookup s') = dom (lookup s) \<union> key ` set (r # rs)" by (simp add: s'(7) s1(3))
    show "length (log s') = length (log s) + card (key ` set (r # rs) - dom (lookup s))"
      using card s'(8) s1(6) by simp
  qed (simp_all add: s'(2,3))
qed

lemma run_all_from_empty:
  assumes inv: "invar s" and empty: "log s = []"
  shows "\<exists>hs s'. run_all register rs s = Inr (hs, s') \<and> invar s' \<and> length hs = length rs \<and>
    (\<forall>i < length rs. lookup s' (key (rs ! i)) = Some (hs ! i)) \<and>
    (\<forall>i < length rs. \<forall>j < length rs. addr (hs ! i) = addr (hs ! j) \<longleftrightarrow> key (rs ! i) = key (rs ! j)) \<and>
    (\<forall>i < length rs. slot_at s' (addr (hs ! i)) = Inr zero) \<and>
    fst ` set (log s') = key ` set rs \<and> length (log s') = card (key ` set rs)"
proof -
  have none: "lookup s k = None" for k by (simp add: lookup_log [OF inv] empty)
  then have dom: "dom (lookup s) = {}" by auto
  from run_all_register [OF inv, of rs] obtain hs s' where r:
    "run_all register rs s = Inr (hs, s')" "invar s'" "length hs = length rs"
    "\<forall>i < length rs. lookup s' (key (rs ! i)) = Some (hs ! i)"
    "\<forall>k g. lookup s k = None \<longrightarrow> lookup s' k = Some g \<longrightarrow> slot_at s' (addr g) = Inr zero"
    and d: "dom (lookup s') = dom (lookup s) \<union> key ` set rs"
      "length (log s') = length (log s) + card (key ` set rs - dom (lookup s))" by (elim exE conjE)
  have d': "dom (lookup s') = key ` set rs" "length (log s') = card (key ` set rs)"
    using d by (simp_all add: dom empty)
  show ?thesis
  proof (intro exI conjI allI impI)
    show "addr (hs ! i) = addr (hs ! j) \<longleftrightarrow> key (rs ! i) = key (rs ! j)"
      if "i < length rs" "j < length rs" for i j
      by (rule handles_eq_iff [OF r(2) r(4) [rule_format, OF that(1)] r(4) [rule_format, OF that(2)]])
    show "slot_at s' (addr (hs ! i)) = Inr zero" if "i < length rs" for i
      by (rule r(5) [rule_format, OF none r(4) [rule_format, OF that]])
    show "fst ` set (log s') = key ` set rs" using d'(1) dom_lookup [OF r(2)] by simp
  qed (use r d' in simp_all)
qed

end

section \<open>Sharding\<close>

text \<open>An array of registries, the one at index \<open>idx k\<close> being responsible for the key \<open>k\<close>.\<close>

definition shards_inv ::
  "('s \<Rightarrow> bool) \<Rightarrow> ('s \<Rightarrow> 'k \<Rightarrow> 'h option) \<Rightarrow> ('s \<Rightarrow> nat) \<Rightarrow> ('k \<Rightarrow> nat) \<Rightarrow> nat \<Rightarrow> 's list \<Rightarrow> bool" where
  "shards_inv invar lookup region idx n xs \<longleftrightarrow> length xs = n \<and>
     (\<forall>i < n. invar (xs ! i) \<and> region (xs ! i) = i \<and> (\<forall>k \<in> dom (lookup (xs ! i)). idx k = i))"

definition shards_lookup :: "('s \<Rightarrow> 'k \<Rightarrow> 'h option) \<Rightarrow> ('k \<Rightarrow> nat) \<Rightarrow> 's list \<Rightarrow> 'k \<Rightarrow> 'h option" where
  "shards_lookup lookup idx xs k = lookup (xs ! idx k) k"

definition shards_slot :: "('s \<Rightarrow> 'a \<Rightarrow> 'v result) \<Rightarrow> ('a \<Rightarrow> nat) \<Rightarrow> 's list \<Rightarrow> 'a \<Rightarrow> 'v result" where
  "shards_slot slot_at home xs a = res_bind (index_at xs (home a)) (\<lambda>s. slot_at s a)"

definition shards_update ::
  "('a \<Rightarrow> ('v \<Rightarrow> 'v) \<Rightarrow> 's \<Rightarrow> 's result) \<Rightarrow> ('a \<Rightarrow> nat) \<Rightarrow> 'a \<Rightarrow> ('v \<Rightarrow> 'v) \<Rightarrow> 's list \<Rightarrow> 's list result" where
  "shards_update update home a f xs =
     res_bind (index_at xs (home a)) (\<lambda>s. res_bind (update a f s) (\<lambda>s'. Inr (xs[home a := s'])))"

locale shard_registry = keyed_registry invar lookup register key addr slot_at update zero log
  for invar :: "'s \<Rightarrow> bool"
    and lookup :: "'s \<Rightarrow> 'k \<Rightarrow> 'h option"
    and register :: "'r \<Rightarrow> 's \<Rightarrow> ('h \<times> 's) result"
    and key :: "'r \<Rightarrow> 'k"
    and addr :: "'h \<Rightarrow> 'a"
    and slot_at :: "'s \<Rightarrow> 'a \<Rightarrow> 'v result"
    and update :: "'a \<Rightarrow> ('v \<Rightarrow> 'v) \<Rightarrow> 's \<Rightarrow> 's result"
    and zero :: 'v
    and log :: "'s \<Rightarrow> ('k \<times> 'h) list" +
  fixes region :: "'s \<Rightarrow> nat"
    and home :: "'a \<Rightarrow> nat"
  assumes home_log: "invar s \<Longrightarrow> e \<in> set (log s) \<Longrightarrow> home (addr (snd e)) = region s"
    and region_register: "invar s \<Longrightarrow> register r s = Inr (h, s') \<Longrightarrow> region s' = region s"
    and region_update: "update a f s = Inr s' \<Longrightarrow> region s' = region s"

locale sharded_registry = shard_registry invar lookup register key addr slot_at update zero log region home
  for invar :: "'s \<Rightarrow> bool"
    and lookup :: "'s \<Rightarrow> 'k \<Rightarrow> 'h option"
    and register :: "'r \<Rightarrow> 's \<Rightarrow> ('h \<times> 's) result"
    and key :: "'r \<Rightarrow> 'k"
    and addr :: "'h \<Rightarrow> 'a"
    and slot_at :: "'s \<Rightarrow> 'a \<Rightarrow> 'v result"
    and update :: "'a \<Rightarrow> ('v \<Rightarrow> 'v) \<Rightarrow> 's \<Rightarrow> 's result"
    and zero :: 'v
    and log :: "'s \<Rightarrow> ('k \<times> 'h) list"
    and region :: "'s \<Rightarrow> nat"
    and home :: "'a \<Rightarrow> nat" +
  fixes idx :: "'k \<Rightarrow> nat"
    and n :: nat
  assumes idx_less: "idx k < n"
begin

lemma shard_at:
  assumes "shards_inv invar lookup region idx n xs" and "i < n"
  shows "i < length xs" and "invar (xs ! i)" and "region (xs ! i) = i"
    and "k \<in> dom (lookup (xs ! i)) \<Longrightarrow> idx k = i"
  using assms by (simp_all add: shards_inv_def)

lemma shards_log_set:
  assumes "shards_inv invar lookup region idx n xs"
  shows "e \<in> set (concat (map log xs)) \<longleftrightarrow> (\<exists>i < n. e \<in> set (log (xs ! i)))"
  using assms by (simp add: shards_inv_def) (metis in_set_conv_nth)

lemma shard_entry:
  assumes "shards_inv invar lookup region idx n xs" and "i < n" and "e \<in> set (log (xs ! i))"
  shows "idx (fst e) = i" and "home (addr (snd e)) = i"
proof -
  note at = shard_at [OF assms(1,2)]
  have "fst e \<in> dom (lookup (xs ! i))" using assms(3) at(2) by (simp add: dom_lookup)
  then show "idx (fst e) = i" by (rule at(4))
  show "home (addr (snd e)) = i" using home_log [OF at(2) assms(3)] at(3) by simp
qed

lemma shards_log_keys:
  assumes "shards_inv invar lookup region idx n xs"
  shows "distinct (map fst (concat (map log xs)))"
    and "distinct (map (\<lambda>e. addr (snd e)) (concat (map log xs)))"
proof -
  have len: "length xs = n" using assms by (simp add: shards_inv_def)
  show "distinct (map fst (concat (map log xs)))"
    unfolding map_concat map_map
    by (rule distinct_concat_tagged [where tag = idx])
      (use shard_at [OF assms] shard_entry [OF assms] log_keys len in auto)
  show "distinct (map (\<lambda>e. addr (snd e)) (concat (map log xs)))"
    unfolding map_concat map_map
    by (rule distinct_concat_tagged [where tag = home])
      (use shard_at [OF assms] shard_entry [OF assms] log_addrs len in auto)
qed

lemma shards_lookup_log:
  assumes "shards_inv invar lookup region idx n xs"
  shows "shards_lookup lookup idx xs k = map_of (concat (map log xs)) k"
proof -
  have iff: "shards_lookup lookup idx xs k = Some h \<longleftrightarrow> (k, h) \<in> set (concat (map log xs))" for h
  proof -
    have "shards_lookup lookup idx xs k = Some h \<longleftrightarrow> (k, h) \<in> set (log (xs ! idx k))"
      by (simp add: shards_lookup_def lookup_Some_iff [OF shard_at(2) [OF assms idx_less]])
    also have "\<dots> \<longleftrightarrow> (\<exists>i < n. (k, h) \<in> set (log (xs ! i)))"
      using shard_entry(1) [OF assms] idx_less by force
    also have "\<dots> \<longleftrightarrow> (k, h) \<in> set (concat (map log xs))"
      by (rule shards_log_set [OF assms, symmetric])
    finally show ?thesis .
  qed
  then show ?thesis
    by (metis map_of_eq_Some_iff not_Some_eq option.exhaust shards_log_keys(1) [OF assms])
qed

lemma shards_fresh:
  assumes inv: "shards_inv invar lookup region idx n xs"
    and none: "shards_lookup lookup idx xs (key r) = None"
  shows "\<exists>h xs'. on_shard (idx (key r)) (register r) xs = Inr (h, xs') \<and>
    shards_inv invar lookup region idx n xs' \<and>
    mset (concat (map log xs')) = add_mset (key r, h) (mset (concat (map log xs))) \<and>
    shards_slot slot_at home xs' (addr h) = Inr zero \<and>
    (\<forall>e \<in> set (concat (map log xs)).
       shards_slot slot_at home xs' (addr (snd e)) = shards_slot slot_at home xs (addr (snd e)))"
proof -
  let ?i = "idx (key r)"
  note at = shard_at [OF inv idx_less [of "key r"]]
  obtain h s' where s': "register r (xs ! ?i) = Inr (h, s')" "invar s'"
    "mset (log s') = add_mset (key r, h) (mset (log (xs ! ?i)))" "slot_at s' (addr h) = Inr zero"
    "\<forall>e \<in> set (log (xs ! ?i)). slot_at s' (addr (snd e)) = slot_at (xs ! ?i) (addr (snd e))"
    using register_fresh [OF at(2), of r] none by (auto simp: shards_lookup_def)
  let ?xs' = "xs[?i := s']"
  have lookup': "lookup s' = (lookup (xs ! ?i))(key r \<mapsto> h)"
    by (rule register_fresh_lookup [OF at(2) s'(2,3)])
  have region': "region s' = ?i"
    using region_register [OF at(2) s'(1)] at(3) by simp
  have inv': "shards_inv invar lookup region idx n ?xs'"
    unfolding shards_inv_def
  proof (intro conjI allI impI)
    fix j assume "j < n"
    note atj = shard_at [OF inv this]
    have dom': "k = key r \<or> k \<in> dom (lookup (xs ! ?i))" if "k \<in> dom (lookup s')" for k
      using that lookup' by (auto split: if_splits)
    show "invar (?xs' ! j)" and "region (?xs' ! j) = j"
      using atj at(1) s'(2) region' by (simp_all add: nth_list_update)
    show "\<forall>k \<in> dom (lookup (?xs' ! j)). idx k = j"
    proof
      fix k assume k: "k \<in> dom (lookup (?xs' ! j))"
      show "idx k = j"
      proof (cases "j = ?i")
        case True
        with k at(1) have "k \<in> dom (lookup s')" by simp
        from dom' [OF this] at(4) [of k] True show ?thesis by blast
      next
        case False
        with k have "k \<in> dom (lookup (xs ! j))" by simp
        then show ?thesis by (rule atj(4))
      qed
    qed
  qed (use inv in \<open>simp add: shards_inv_def\<close>)
  have "mset (concat (map log ?xs')) + mset (log (xs ! ?i)) = mset (concat (map log xs)) + mset (log s')"
    using mset_concat_update [of ?i "map log xs" "log s'"] at(1) by (simp add: map_update)
  then have log': "mset (concat (map log ?xs')) = add_mset (key r, h) (mset (concat (map log xs)))"
    by (simp add: s'(3))
  have "(key r, h) \<in> set (log s')" by (metis s'(3) set_mset_mset union_single_eq_member)
  then have home_h: "home (addr h) = ?i" using home_log [OF s'(2)] region' by fastforce
  have "shards_slot slot_at home ?xs' (addr (snd e)) = shards_slot slot_at home xs (addr (snd e))"
    if e: "e \<in> set (concat (map log xs))" for e
  proof -
    obtain j where j: "j < n" "e \<in> set (log (xs ! j))"
      using e shards_log_set [OF inv] by blast
    have "j < length xs" using j inv by (simp add: shards_inv_def)
    then show ?thesis
      using shard_entry(2) [OF inv j] j s'(5) at(1)
      by (cases "j = ?i") (simp_all add: shards_slot_def)
  qed
  moreover have "on_shard ?i (register r) xs = Inr (h, ?xs')"
    using at(1) s'(1) by (simp add: on_shard_def)
  moreover have "shards_slot slot_at home ?xs' (addr h) = Inr zero"
    using home_h at(1) s'(4) by (simp add: shards_slot_def)
  ultimately show ?thesis using inv' log' by blast
qed

lemma shards_update_slot:
  assumes inv: "shards_inv invar lookup region idx n xs" and e: "e \<in> set (concat (map log xs))"
  shows "\<exists>xs'. shards_update update home (addr (snd e)) f xs = Inr xs' \<and>
    shards_inv invar lookup region idx n xs' \<and> concat (map log xs') = concat (map log xs) \<and>
    (\<forall>e' \<in> set (concat (map log xs)). shards_slot slot_at home xs' (addr (snd e')) =
       (if e' = e then map_sum id f (shards_slot slot_at home xs (addr (snd e')))
        else shards_slot slot_at home xs (addr (snd e'))))"
proof -
  obtain i where i: "i < n" "e \<in> set (log (xs ! i))" using e shards_log_set [OF inv] by blast
  note at = shard_at [OF inv i(1)]
  have home: "home (addr (snd e)) = i" by (rule shard_entry(2) [OF inv i])
  obtain s' where s': "update (addr (snd e)) f (xs ! i) = Inr s'" "invar s'" "log s' = log (xs ! i)"
    "\<And>e'. e' \<in> set (log (xs ! i)) \<Longrightarrow> slot_at s' (addr (snd e')) =
       (if e' = e then map_sum id f (slot_at (xs ! i) (addr (snd e'))) else slot_at (xs ! i) (addr (snd e')))"
    using update_slot [OF at(2) i(2), of f] by auto
  let ?xs' = "xs[i := s']"
  have lookup': "lookup s' = lookup (xs ! i)"
    by (rule ext) (simp add: lookup_log [OF s'(2)] lookup_log [OF at(2)] s'(3))
  have region': "region s' = i" using region_update [OF s'(1)] at(3) by simp
  have inv': "shards_inv invar lookup region idx n ?xs'"
    using inv s'(2) lookup' region' at(1) unfolding shards_inv_def
    by (simp add: nth_list_update)
  have "map log ?xs' = map log xs"
    by (metis list_update_id map_update s'(3))
  moreover have "shards_slot slot_at home ?xs' (addr (snd e')) =
      (if e' = e then map_sum id f (shards_slot slot_at home xs (addr (snd e')))
       else shards_slot slot_at home xs (addr (snd e')))"
    if e': "e' \<in> set (concat (map log xs))" for e'
  proof -
    obtain j where j: "j < n" "e' \<in> set (log (xs ! j))" using e' shards_log_set [OF inv] by blast
    have j': "home (addr (snd e')) = j" "j < length xs"
      using shard_entry(2) [OF inv j] shard_at(1) [OF inv j(1)] by simp_all
    show ?thesis
      using j' j(2) s'(4) [of e'] home at(1) by (cases "j = i") (auto simp: shards_slot_def)
  qed
  ultimately show ?thesis
    using inv' home at(1) s'(1) by (intro exI [of _ ?xs']) (simp add: shards_update_def)
qed

end

sublocale sharded_registry \<subseteq> all: keyed_registry
  "shards_inv invar lookup region idx n" "shards_lookup lookup idx"
  "\<lambda>r. on_shard (idx (key r)) (register r)" key addr "shards_slot slot_at home"
  "shards_update update home" zero
  "\<lambda>xs. concat (map log xs)"
proof
  fix xs assume inv: "shards_inv invar lookup region idx n xs"
  show "distinct (map fst (concat (map log xs)))"
    and "distinct (map (\<lambda>e. addr (snd e)) (concat (map log xs)))"
    by (rule shards_log_keys [OF inv])+
  show "shards_lookup lookup idx xs k = map_of (concat (map log xs)) k" for k
    by (rule shards_lookup_log [OF inv])
  show "on_shard (idx (key r)) (register r) xs = Inr (h, xs)"
    if "shards_lookup lookup idx xs (key r) = Some h" for r h
  proof -
    note at = shard_at [OF inv idx_less [of "key r"]]
    have "register r (xs ! idx (key r)) = Inr (h, xs ! idx (key r))"
      using that by (intro register_known [OF at(2)]) (simp add: shards_lookup_def)
    with at(1) show ?thesis by (simp add: on_shard_def)
  qed
  show "\<exists>v. shards_slot slot_at home xs (addr (snd e)) = Inr v" if e: "e \<in> set (concat (map log xs))" for e
  proof -
    obtain i where i: "i < n" "e \<in> set (log (xs ! i))" using e shards_log_set [OF inv] by blast
    with shard_at(1,2) [OF inv i(1)] shard_entry(2) [OF inv i] slot_ok [of "xs ! i" e]
    show ?thesis by (simp add: shards_slot_def)
  qed
qed (rule shards_fresh, assumption+, rule shards_update_slot)

end
