(* ===== verification/Metric_Shard.thy ===== *)
theory Metric_Shard
  imports Metric_Slot Chunk_Log Keyed_Registry
begin

text \<open>
  One registration shard of the timing registry (\<open>ShardState\<close> and \<open>Shard\<close> of
  \<open>src/src/registry.rs\<close>). The hash maps are maps (they are never iterated); the slots, the metadata
  chunks, the length and the published index are the chunk log. An \<open>ItemPtr\<close> is the address of a slot:
  the memory region of its shard, the boxed chunk there and the offset in the chunk. Every operation
  runs under the shard mutex, so it is one step of the shard.
\<close>

section \<open>State\<close>

datatype item_ptr = ItemPtr (ip_region: nat) (ip_chunk: nat) (ip_offset: nat)

record metric =
  m_item :: item_ptr
  m_policy :: metric_policy

record metric_meta =
  mm_item :: item_ptr
  mm_profile :: profile_meta

record shard = "(slot, metric_meta) chunk_log" +
  sh_region :: nat
  sh_by_type :: "metric_type \<rightharpoonup> (str \<rightharpoonup> item_ptr)"
  sh_by_resource :: "(metric_type \<times> resource_labels) \<rightharpoonup> item_ptr"
  sh_by_profile :: "metric_policy \<rightharpoonup> (str \<rightharpoonup> item_ptr)"

definition shard_new :: "nat \<Rightarrow> shard" where
  "shard_new region =
     \<lparr>cl_slots = [], cl_chunks = [], cl_len = 0, cl_index = [], sh_region = region,
      sh_by_type = Map.empty, sh_by_resource = Map.empty, sh_by_profile = Map.empty\<rparr>"

section \<open>Operations\<close>

definition from_item :: "item_ptr \<Rightarrow> metric_policy \<Rightarrow> metric" where
  "from_item item policy = \<lparr>m_item = item, m_policy = policy\<rparr>"

definition existing :: "shard \<Rightarrow> str \<Rightarrow> metric_type \<Rightarrow> item_ptr option" where
  "existing s name kind = entry_get (sh_by_type s) kind name"

definition existing_profile :: "shard \<Rightarrow> str \<Rightarrow> metric_policy \<Rightarrow> item_ptr option" where
  "existing_profile s identity policy = entry_get (sh_by_profile s) policy identity"

definition allocate ::
  "profile_meta \<Rightarrow> metric_policy \<Rightarrow> shard \<Rightarrow> ((metric \<times> item_ptr) \<times> shard) result" where
  "allocate profile policy s =
     res_bind
       (log_alloc slot_default
         (\<lambda>c off. \<lparr>mm_item = ItemPtr (sh_region s) c off, mm_profile = profile\<rparr>) s)
       (\<lambda>((c, off), s').
          let item = ItemPtr (sh_region s) c off
          in Inr ((from_item item policy, item), s'))"

definition insert_metric :: "str \<Rightarrow> metric_type \<Rightarrow> shard \<Rightarrow> (metric \<times> shard) result" where
  "insert_metric name kind s =
     res_bind (allocate (Single name kind) (policy_of kind) s) (\<lambda>((metric, item), s').
       Inr (metric, s'\<lparr>sh_by_type := entry_insert (sh_by_type s') kind name item\<rparr>))"

definition insert_profile :: "profile_plan \<Rightarrow> shard \<Rightarrow> (metric \<times> shard) result" where
  "insert_profile plan s =
     (let identity = pp_identity plan; policy = pp_policy plan
      in res_bind (allocate (Fanout plan) policy s) (\<lambda>((metric, item), s').
           Inr (metric, s'\<lparr>sh_by_profile := entry_insert (sh_by_profile s') policy identity item\<rparr>)))"

definition shard_register :: "str \<Rightarrow> metric_type \<Rightarrow> shard \<Rightarrow> (metric \<times> shard) result" where
  "shard_register name kind s =
     (case existing s name kind of
        Some item \<Rightarrow> Inr (from_item item (policy_of kind), s)
      | None \<Rightarrow> insert_metric name kind s)"

definition shard_register_profile :: "profile_plan \<Rightarrow> shard \<Rightarrow> (metric \<times> shard) result" where
  "shard_register_profile plan s =
     (case existing_profile s (pp_identity plan) (pp_policy plan) of
        Some item \<Rightarrow> Inr (from_item item (pp_policy plan), s)
      | None \<Rightarrow> insert_profile plan s)"

text \<open>The body of \<open>Registry::register_resource\<close> after the shard is locked.\<close>

definition shard_register_resource ::
  "metric_type \<Rightarrow> resource_labels \<Rightarrow> shard \<Rightarrow> (metric \<times> shard) result" where
  "shard_register_resource kind labels s =
     (case sh_by_resource s (kind, labels) of
        Some item \<Rightarrow> Inr (from_item item (policy_of kind), s)
      | None \<Rightarrow>
          res_bind (allocate (Resource labels kind) (policy_of kind) s) (\<lambda>((metric, item), s').
            Inr (metric, s'\<lparr>sh_by_resource := (sh_by_resource s')((kind, labels) \<mapsto> item)\<rparr>)))"

text \<open>Reading a slot through its address, and one atomic step on it.\<close>

definition shard_slot :: "shard \<Rightarrow> item_ptr \<Rightarrow> slot result" where
  "shard_slot s p =
     (if ip_region p = sh_region s then log_deref s (ip_chunk p, ip_offset p) else Inl DanglingPointer)"

definition shard_slot_update :: "item_ptr \<Rightarrow> (slot \<Rightarrow> slot) \<Rightarrow> shard \<Rightarrow> shard result" where
  "shard_slot_update p f s =
     (if ip_region p = sh_region s then log_update (ip_chunk p, ip_offset p) f s
      else Inl DanglingPointer)"

section \<open>Registrations and their keys\<close>

datatype metric_key =
    NameKey str metric_type
  | ProfileKey str metric_policy
  | ResourceKey metric_type resource_labels

datatype registration =
    RegName str metric_type
  | RegProfile profile_plan
  | RegResource metric_type resource_labels

fun reg_key :: "registration \<Rightarrow> metric_key" where
  "reg_key (RegName name kind) = NameKey name kind"
| "reg_key (RegProfile plan) = ProfileKey (pp_identity plan) (pp_policy plan)"
| "reg_key (RegResource kind labels) = ResourceKey kind labels"

fun key_policy :: "metric_key \<Rightarrow> metric_policy" where
  "key_policy (NameKey name kind) = policy_of kind"
| "key_policy (ProfileKey identity policy) = policy"
| "key_policy (ResourceKey kind labels) = policy_of kind"

fun profile_key :: "profile_meta \<Rightarrow> metric_key" where
  "profile_key (Single name kind) = NameKey name kind"
| "profile_key (Fanout plan) = ProfileKey (pp_identity plan) (pp_policy plan)"
| "profile_key (Resource labels kind) = ResourceKey kind labels"

fun shard_do :: "registration \<Rightarrow> shard \<Rightarrow> (metric \<times> shard) result" where
  "shard_do (RegName name kind) = shard_register name kind"
| "shard_do (RegProfile plan) = shard_register_profile plan"
| "shard_do (RegResource kind labels) = shard_register_resource kind labels"

fun raw_lookup :: "shard \<Rightarrow> metric_key \<Rightarrow> item_ptr option" where
  "raw_lookup s (NameKey name kind) = existing s name kind"
| "raw_lookup s (ProfileKey identity policy) = existing_profile s identity policy"
| "raw_lookup s (ResourceKey kind labels) = sh_by_resource s (kind, labels)"

definition shard_lookup :: "shard \<Rightarrow> metric_key \<Rightarrow> metric option" where
  "shard_lookup s k = map_option (\<lambda>p. from_item p (key_policy k)) (raw_lookup s k)"

section \<open>Invariant\<close>

definition meta_entry :: "metric_meta \<Rightarrow> metric_key \<times> item_ptr" where
  "meta_entry m = (profile_key (mm_profile m), mm_item m)"

definition shard_log :: "shard \<Rightarrow> (metric_key \<times> metric) list" where
  "shard_log s =
     map (\<lambda>m. let k = profile_key (mm_profile m) in (k, from_item (mm_item m) (key_policy k))) (log_metas s)"

definition shard_inv :: "shard \<Rightarrow> bool" where
  "shard_inv s \<longleftrightarrow> log_inv slot_default s \<and>
     distinct (map (\<lambda>m. profile_key (mm_profile m)) (log_metas s)) \<and>
     (\<forall>i < cl_len s. mm_item (log_metas s ! i) = ItemPtr (sh_region s) (i div 256) (i mod 256)) \<and>
     raw_lookup s = map_of (map meta_entry (log_metas s))"

section \<open>Lemmas\<close>

lemma shard_frame [simp]:
  "log_metas (s\<lparr>sh_by_type := x\<rparr>) = log_metas s"
  "log_metas (s\<lparr>sh_by_resource := y\<rparr>) = log_metas s"
  "log_metas (s\<lparr>sh_by_profile := z\<rparr>) = log_metas s"
  "log_inv d (s\<lparr>sh_by_type := x\<rparr>) = log_inv d s"
  "log_inv d (s\<lparr>sh_by_resource := y\<rparr>) = log_inv d s"
  "log_inv d (s\<lparr>sh_by_profile := z\<rparr>) = log_inv d s"
  "log_deref (s\<lparr>sh_by_type := x\<rparr>) p = log_deref s p"
  "log_deref (s\<lparr>sh_by_resource := y\<rparr>) p = log_deref s p"
  "log_deref (s\<lparr>sh_by_profile := z\<rparr>) p = log_deref s p"
  by (simp_all add: log_metas_def log_inv_def log_deref_def)

lemma shard_more_cong:
  assumes "chunk_log.more s' = chunk_log.more (s :: shard)"
  shows "sh_region s' = sh_region s" "sh_by_type s' = sh_by_type s"
    "sh_by_resource s' = sh_by_resource s" "sh_by_profile s' = sh_by_profile s"
  using assms by (cases s; cases s'; simp)+

lemma shard_inv_new: "shard_inv (shard_new region)"
proof -
  have "raw_lookup (shard_new region) k = None" for k
    by (cases k) (simp_all add: shard_new_def existing_def existing_profile_def)
  then show ?thesis
    by (auto simp: shard_inv_def shard_new_def log_inv_empty fun_eq_iff)
qed

lemma raw_lookup_updates [simp]:
  "raw_lookup (s\<lparr>sh_by_type := entry_insert (sh_by_type s) kind name item\<rparr>) =
     (raw_lookup s)(NameKey name kind \<mapsto> item)"
  "raw_lookup (s\<lparr>sh_by_profile := entry_insert (sh_by_profile s) policy identity item\<rparr>) =
     (raw_lookup s)(ProfileKey identity policy \<mapsto> item)"
  "raw_lookup (s\<lparr>sh_by_resource := (sh_by_resource s)((kind, labels) \<mapsto> item)\<rparr>) =
     (raw_lookup s)(ResourceKey kind labels \<mapsto> item)"
  by (rule ext, rename_tac k, case_tac k, simp_all add: existing_def existing_profile_def)+

text \<open>What \<open>allocate\<close> does to a well-formed shard; the caller then records the new item under its key.\<close>

lemma allocate_ok:
  assumes inv: "shard_inv s" and fresh: "raw_lookup s (profile_key profile) = None"
  obtains item s1 where "allocate profile policy s = Inr ((from_item item policy, item), s1)"
    and "sh_region s1 = sh_region s" and "raw_lookup s1 = raw_lookup s"
    and "ip_region item = sh_region s"
    and "\<And>s'. \<lbrakk>log_metas s' = log_metas s1; log_inv slot_default s' = log_inv slot_default s1;
            cl_len s' = cl_len s1; sh_region s' = sh_region s1;
            raw_lookup s' = (raw_lookup s1)(profile_key profile \<mapsto> item)\<rbrakk> \<Longrightarrow> shard_inv s'"
    and "log_metas s1 = log_metas s @ [\<lparr>mm_item = item, mm_profile = profile\<rparr>]"
    and "log_deref s1 (ip_chunk item, ip_offset item) = Inr slot_default"
    and "\<And>q. ptr_valid s q \<Longrightarrow> log_deref s1 q = log_deref s q"
proof -
  let ?mk = "\<lambda>c off. \<lparr>mm_item = ItemPtr (sh_region s) c off, mm_profile = profile\<rparr>"
  let ?p = "(cl_len s div 256, cl_len s mod 256)"
  let ?item = "ItemPtr (sh_region s) (fst ?p) (snd ?p)"
  have li: "log_inv slot_default s" using inv by (simp add: shard_inv_def)
  obtain s1 where s1: "log_alloc slot_default ?mk s = Inr (?p, s1)" "cl_len s1 = Suc (cl_len s)"
    "chunk_log.more s1 = chunk_log.more s"
    by (rule log_alloc_total [OF li, of ?mk]) blast
  note more = shard_more_cong [OF s1(3)]
  have raw: "raw_lookup s1 = raw_lookup s"
    by (rule ext, rename_tac k, case_tac k) (simp_all add: existing_def existing_profile_def more)
  have metas: "log_metas s1 = log_metas s @ [?mk (fst ?p) (snd ?p)]"
    by (rule log_alloc_metas [OF li s1(1)])
  have li1: "log_inv slot_default s1" by (rule log_alloc_keeps_inv [OF li s1(1)])
  have len: "length (log_metas s) = cl_len s" by (rule length_log_metas [OF li])
  have notin: "profile_key profile \<notin> (\<lambda>m. profile_key (mm_profile m)) ` set (log_metas s)"
    using fresh inv by (simp add: shard_inv_def map_of_eq_None_iff meta_entry_def image_image)
  have inv': "shard_inv s'"
    if "log_metas s' = log_metas s1" "log_inv slot_default s' = log_inv slot_default s1"
      "cl_len s' = cl_len s1" "sh_region s' = sh_region s1"
      "raw_lookup s' = (raw_lookup s1)(profile_key profile \<mapsto> ?item)" for s'
    unfolding shard_inv_def
  proof (intro conjI allI impI)
    show "log_inv slot_default s'" using that li1 by simp
    show "distinct (map (\<lambda>m. profile_key (mm_profile m)) (log_metas s'))"
      using inv notin by (simp add: shard_inv_def that metas)
    show "mm_item (log_metas s' ! i) = ItemPtr (sh_region s') (i div 256) (i mod 256)"
      if "i < cl_len s'" for i
      using inv that s1(2) \<open>cl_len s' = cl_len s1\<close>
      by (auto simp: shard_inv_def \<open>log_metas s' = log_metas s1\<close> \<open>sh_region s' = sh_region s1\<close>
          more metas nth_append len less_Suc_eq)
    have "map_of (map meta_entry (log_metas s')) =
        (map_of (map meta_entry (log_metas s)))(profile_key profile \<mapsto> ?item)"
      unfolding that(1) metas map_append list.map meta_entry_def
      using notin by (subst map_of_snoc_fresh) (simp_all add: image_image meta_entry_def)
    then show "raw_lookup s' = map_of (map meta_entry (log_metas s'))"
      using inv by (simp add: that raw shard_inv_def)
  qed
  have alloc: "allocate profile policy s = Inr ((from_item ?item policy, ?item), s1)"
    using s1(1) by (simp add: allocate_def Let_def)
  have zero: "log_deref s1 (ip_chunk ?item, ip_offset ?item) = Inr slot_default"
    using log_alloc_deref(5) [OF li s1(1)] by simp
  show thesis
  proof (rule that [of ?item s1])
    show "ip_region ?item = sh_region s" by simp
    show "log_metas s1 = log_metas s @ [\<lparr>mm_item = ?item, mm_profile = profile\<rparr>]"
      using metas by simp
    show "log_deref s1 q = log_deref s q" if "ptr_valid s q" for q
      using that by (rule log_alloc_deref(1) [OF li s1(1)])
  qed (fact alloc more(1) raw zero inv')+
qed

lemma shard_inv_len: "shard_inv s \<Longrightarrow> length (log_metas s) = cl_len s"
  unfolding shard_inv_def by (elim conjE) (rule length_log_metas)

lemma shard_inv_item_valid:
  assumes "shard_inv s" and "m \<in> set (log_metas s)"
  shows "ip_region (mm_item m) = sh_region s" and "ptr_valid s (ip_chunk (mm_item m), ip_offset (mm_item m))"
proof -
  note len = shard_inv_len [OF assms(1)]
  obtain i where i: "i < cl_len s" "m = log_metas s ! i"
    using assms(2) len by (metis in_set_conv_nth)
  with assms(1) show "ip_region (mm_item m) = sh_region s"
    and "ptr_valid s (ip_chunk (mm_item m), ip_offset (mm_item m))"
    by (simp_all add: shard_inv_def ptr_valid_def)
qed

lemma shard_log_frame:
  assumes "shard_inv s" and "sh_region s' = sh_region s" and "e \<in> set (shard_log s)"
    and "\<And>q. ptr_valid s q \<Longrightarrow> log_deref s' q = log_deref s q"
  shows "shard_slot s' (m_item (snd e)) = shard_slot s (m_item (snd e))"
proof -
  obtain m where "m \<in> set (log_metas s)" "m_item (snd e) = mm_item m"
    using assms(3) by (auto simp: shard_log_def Let_def from_item_def)
  with shard_inv_item_valid [OF assms(1)] assms(2,4) show ?thesis by (simp add: shard_slot_def)
qed

lemma shard_do_fresh:
  assumes inv: "shard_inv s" and fresh: "shard_lookup s (reg_key r) = None"
  shows "\<exists>h s'. shard_do r s = Inr (h, s') \<and> shard_inv s' \<and> sh_region s' = sh_region s \<and>
    shard_log s' = shard_log s @ [(reg_key r, h)] \<and> shard_slot s' (m_item h) = Inr slot_default \<and>
    (\<forall>e \<in> set (shard_log s). shard_slot s' (m_item (snd e)) = shard_slot s (m_item (snd e))) \<and>
    prefix (log_metas s) (log_metas s')"
proof -
  define profile where "profile = (case r of RegName name kind \<Rightarrow> Single name kind
    | RegProfile plan \<Rightarrow> Fanout plan | RegResource kind labels \<Rightarrow> Resource labels kind)"
  have key: "profile_key profile = reg_key r"
    by (cases r) (simp_all add: profile_def)
  have none: "raw_lookup s (profile_key profile) = None"
    using fresh by (simp add: shard_lookup_def key)
  obtain item s1 where s1:
    "allocate profile (key_policy (reg_key r)) s = Inr ((from_item item (key_policy (reg_key r)), item), s1)"
    "sh_region s1 = sh_region s" "raw_lookup s1 = raw_lookup s" "ip_region item = sh_region s"
    "\<And>s'. \<lbrakk>log_metas s' = log_metas s1; log_inv slot_default s' = log_inv slot_default s1;
       cl_len s' = cl_len s1; sh_region s' = sh_region s1;
       raw_lookup s' = (raw_lookup s1)(profile_key profile \<mapsto> item)\<rbrakk> \<Longrightarrow> shard_inv s'"
    "log_metas s1 = log_metas s @ [\<lparr>mm_item = item, mm_profile = profile\<rparr>]"
    "log_deref s1 (ip_chunk item, ip_offset item) = Inr slot_default"
    "\<And>q. ptr_valid s q \<Longrightarrow> log_deref s1 q = log_deref s q"
    using allocate_ok [OF inv none, of "key_policy (reg_key r)"] by blast
  define s' where "s' = (case r of
      RegName name kind \<Rightarrow> s1\<lparr>sh_by_type := entry_insert (sh_by_type s1) kind name item\<rparr>
    | RegProfile plan \<Rightarrow>
        s1\<lparr>sh_by_profile := entry_insert (sh_by_profile s1) (pp_policy plan) (pp_identity plan) item\<rparr>
    | RegResource kind labels \<Rightarrow> s1\<lparr>sh_by_resource := (sh_by_resource s1)((kind, labels) \<mapsto> item)\<rparr>)"
  have run: "shard_do r s = Inr (from_item item (key_policy (reg_key r)), s')"
    using s1(1) none
    by (cases r) (simp_all add: profile_def s'_def shard_register_def insert_metric_def
        shard_register_profile_def insert_profile_def shard_register_resource_def Let_def)
  have s': "log_metas s' = log_metas s1" "log_inv slot_default s' = log_inv slot_default s1"
    "cl_len s' = cl_len s1" "sh_region s' = sh_region s1"
    "raw_lookup s' = (raw_lookup s1)(profile_key profile \<mapsto> item)"
    "\<And>q. log_deref s' q = log_deref s1 q"
    by (cases r; simp add: s'_def profile_def)+
  have "shard_inv s'" using s' by (intro s1(5))
  moreover have "shard_log s' = shard_log s @ [(reg_key r, from_item item (key_policy (reg_key r)))]"
    by (simp add: shard_log_def s'(1) s1(6) key Let_def)
  moreover have "shard_slot s' (m_item (from_item item (key_policy (reg_key r)))) = Inr slot_default"
    by (simp add: shard_slot_def from_item_def s'(4,6) s1(2,4,7))
  moreover have "prefix (log_metas s) (log_metas s')" by (simp add: s'(1) s1(6))
  ultimately show ?thesis
    using run s'(4,6) s1(2,8) shard_log_frame [OF inv, of s'] by metis
qed

lemma shard_do_known: "shard_lookup s (reg_key r) = Some h \<Longrightarrow> shard_do r s = Inr (h, s)"
  by (cases r) (auto simp: shard_lookup_def shard_register_def shard_register_profile_def
      shard_register_resource_def)

lemma shard_slot_update_ok:
  assumes inv: "shard_inv s" and e: "e \<in> set (shard_log s)"
  shows "\<exists>s'. shard_slot_update (m_item (snd e)) f s = Inr s' \<and> shard_inv s' \<and> shard_log s' = shard_log s \<and>
    sh_region s' = sh_region s \<and>
    (\<forall>e' \<in> set (shard_log s). shard_slot s' (m_item (snd e')) =
       (if m_item (snd e') = m_item (snd e) then map_sum id f (shard_slot s (m_item (snd e')))
        else shard_slot s (m_item (snd e'))))"
proof -
  have li: "log_inv slot_default s" using inv by (simp add: shard_inv_def)
  have valid: "ip_region (m_item (snd e)) = sh_region s \<and>
      ptr_valid s (ip_chunk (m_item (snd e)), ip_offset (m_item (snd e)))" if "e \<in> set (shard_log s)" for e
    using that shard_inv_item_valid [OF inv] by (auto simp: shard_log_def Let_def from_item_def)
  let ?p = "(ip_chunk (m_item (snd e)), ip_offset (m_item (snd e)))"
  obtain s' where s': "log_update ?p f s = Inr s'" "log_inv slot_default s'" "cl_chunks s' = cl_chunks s"
    "cl_len s' = cl_len s" "chunk_log.more s' = chunk_log.more s"
    "\<And>q. ptr_valid s q \<Longrightarrow> log_deref s' q = (if q = ?p then map_sum id f (log_deref s q) else log_deref s q)"
    by (rule log_update_valid [OF li valid [OF e, THEN conjunct2], of f]) blast
  note more = shard_more_cong [OF s'(5)]
  have raw: "raw_lookup s' = raw_lookup s"
    by (rule ext, rename_tac k, case_tac k) (simp_all add: existing_def existing_profile_def more)
  have metas: "log_metas s' = log_metas s" by (simp add: log_metas_def s'(3))
  have "shard_inv s'" using inv by (simp add: shard_inv_def metas raw s'(2,4) more)
  moreover have "shard_log s' = shard_log s" by (simp add: shard_log_def metas)
  moreover have "shard_slot s' (m_item (snd e')) =
      (if m_item (snd e') = m_item (snd e) then map_sum id f (shard_slot s (m_item (snd e')))
       else shard_slot s (m_item (snd e')))" if "e' \<in> set (shard_log s)" for e'
    using valid [OF that] valid [OF e] s'(6) [of "(ip_chunk (m_item (snd e')), ip_offset (m_item (snd e')))"]
    by (auto simp: shard_slot_def more intro: item_ptr.expand)
  ultimately show ?thesis
    using s'(1) valid [OF e] more(1) by (intro exI [of _ s']) (simp add: shard_slot_update_def)
qed

interpretation metric_shard: shard_registry shard_inv shard_lookup shard_do reg_key m_item shard_slot
  shard_slot_update slot_default shard_log sh_region ip_region
proof
  fix s assume inv: "shard_inv s"
  note len = shard_inv_len [OF inv]
  show "distinct (map fst (shard_log s))"
    using inv by (simp add: shard_inv_def shard_log_def comp_def Let_def)
  show addrs: "distinct (map (\<lambda>e. m_item (snd e)) (shard_log s))"
  proof -
    have "distinct (map mm_item (log_metas s))"
      unfolding distinct_conv_nth
    proof (intro allI impI)
      fix i j assume "i < length (map mm_item (log_metas s))" "j < length (map mm_item (log_metas s))" "i \<noteq> j"
      with inv len show "map mm_item (log_metas s) ! i \<noteq> map mm_item (log_metas s) ! j"
        by (simp add: shard_inv_def) (metis div_mult_mod_eq)
    qed
    then show ?thesis by (simp add: shard_log_def comp_def Let_def from_item_def)
  qed
  show "shard_lookup s k = map_of (shard_log s) k" for k
  proof -
    have "shard_lookup s k = map_option (\<lambda>p. from_item p (key_policy k)) (map_of (map meta_entry (log_metas s)) k)"
      using inv by (simp add: shard_lookup_def shard_inv_def)
    also have "\<dots> = map_of (shard_log s) k"
      unfolding shard_log_def Let_def meta_entry_def
      by (rule map_of_map_dep [where f = "\<lambda>k p. from_item p (key_policy k)", symmetric])
    finally show ?thesis .
  qed
  show "shard_do r s = Inr (h, s)" if "shard_lookup s (reg_key r) = Some h" for r h
    using that by (rule shard_do_known)
  show "ip_region (m_item (snd e)) = sh_region s" if "e \<in> set (shard_log s)" for e
    using that shard_inv_item_valid(1) [OF inv] by (auto simp: shard_log_def Let_def from_item_def)
  have addr_inj: "inj_on (\<lambda>e. m_item (snd e)) (set (shard_log s))"
    using addrs by (simp add: distinct_map)
  show "\<exists>v. shard_slot s (m_item (snd e)) = Inr v" if e: "e \<in> set (shard_log s)" for e
  proof -
    obtain m where "m \<in> set (log_metas s)" "m_item (snd e) = mm_item m"
      using e by (auto simp: shard_log_def Let_def from_item_def)
    with shard_inv_item_valid [OF inv] show ?thesis
      using inv log_deref_valid [of slot_default s] by (simp add: shard_slot_def shard_inv_def)
  qed
  show "\<exists>s'. shard_slot_update (m_item (snd e)) f s = Inr s' \<and> shard_inv s' \<and> shard_log s' = shard_log s \<and>
    (\<forall>e' \<in> set (shard_log s). shard_slot s' (m_item (snd e')) =
       (if e' = e then map_sum id f (shard_slot s (m_item (snd e'))) else shard_slot s (m_item (snd e'))))"
    if e: "e \<in> set (shard_log s)" for e f
    using shard_slot_update_ok [OF inv e, of f] inj_onD [OF addr_inj _ _ e] by metis
next
  fix s r assume inv: "shard_inv s" and fresh: "shard_lookup s (reg_key r) = None"
  show "\<exists>h s'. shard_do r s = Inr (h, s') \<and> shard_inv s' \<and>
    mset (shard_log s') = add_mset (reg_key r, h) (mset (shard_log s)) \<and>
    shard_slot s' (m_item h) = Inr slot_default \<and>
    (\<forall>e \<in> set (shard_log s). shard_slot s' (m_item (snd e)) = shard_slot s (m_item (snd e)))"
    using shard_do_fresh [OF inv fresh] by auto
next
  fix s r h s' assume inv: "shard_inv s" and run: "shard_do r s = Inr (h, s')"
  show "sh_region s' = sh_region s"
  proof (cases "shard_lookup s (reg_key r)")
    case None
    from shard_do_fresh [OF inv None] run show ?thesis by auto
  next
    case (Some h')
    then have "shard_do r s = Inr (h', s)" by (rule shard_do_known)
    with run show ?thesis by simp
  qed
next
  fix a f s s' assume "shard_slot_update a f s = Inr s'"
  then show "sh_region s' = sh_region s"
    by (auto simp: shard_slot_update_def log_update_def res_bind_Inr_iff split: if_splits)
qed

text \<open>The metadata of a shard only grows.\<close>

lemma shard_do_grows:
  assumes "shard_inv s" and "shard_do r s = Inr (h, s')"
  shows "prefix (log_metas s) (log_metas s')"
proof (cases "shard_lookup s (reg_key r)")
  case None
  from shard_do_fresh [OF assms(1) None] assms(2) show ?thesis by auto
next
  case (Some h')
  with shard_do_known [OF this] assms(2) show ?thesis by simp
qed

lemma shard_slot_update_metas: "shard_slot_update p f s = Inr s' \<Longrightarrow> log_metas s' = log_metas s"
  by (auto simp: shard_slot_update_def log_update_metas split: if_splits)

end
