(* ===== verification/Scalar_Shard.thy ===== *)
theory Scalar_Shard
  imports Metric_Types Chunk_Log Keyed_Registry
begin

text \<open>
  One shard of the scalar registry (\<open>Shard\<close> of \<open>src/src/scalar.rs\<close>): one atomic \<open>u64\<close> per counter
  or gauge. Its storage is the chunk log of the timing registry, with its own copy of the allocation
  code; the keys carry the storage kind, so a counter and a gauge of one name have two slots.
\<close>

section \<open>State\<close>

datatype scalar_ptr = ScalarPtr (sp_region: nat) (sp_chunk: nat) (sp_offset: nat)

datatype scalar_kind = CounterKind | GaugeKind

record scalar_meta =
  sm_name :: str
  sm_resource :: "resource_labels option"
  sm_kind :: metric_type
  sm_mode :: scalar_kind
  sm_item :: scalar_ptr

record scalar_shard = "(u64, scalar_meta) chunk_log" +
  ss_region :: nat
  ss_by_type :: "(metric_type \<times> scalar_kind) \<rightharpoonup> (str \<rightharpoonup> scalar_ptr)"
  ss_by_resource :: "(metric_type \<times> scalar_kind \<times> resource_labels) \<rightharpoonup> scalar_ptr"

definition scalar_shard_new :: "nat \<Rightarrow> scalar_shard" where
  "scalar_shard_new region =
     \<lparr>cl_slots = [], cl_chunks = [], cl_len = 0, cl_index = [], ss_region = region,
      ss_by_type = Map.empty, ss_by_resource = Map.empty\<rparr>"

section \<open>Registration\<close>

definition scalar_shard_register ::
  "metric_type \<Rightarrow> scalar_kind \<Rightarrow> str \<Rightarrow> resource_labels option \<Rightarrow> scalar_shard \<Rightarrow>
     (scalar_ptr \<times> scalar_shard) result" where
  "scalar_shard_register kind mode name resource s =
     (let resource_key = map_option (\<lambda>labels. (kind, mode, labels)) resource;
          existing = (case resource_key of
              Some key \<Rightarrow> ss_by_resource s key
            | None \<Rightarrow> entry_get (ss_by_type s) (kind, mode) name)
      in case existing of
           Some item \<Rightarrow> Inr (item, s)
         | None \<Rightarrow>
             res_bind
               (log_write 0
                 (\<lambda>c off. \<lparr>sm_name = name, sm_resource = resource, sm_kind = kind, sm_mode = mode,
                    sm_item = ScalarPtr (ss_region s) c off\<rparr>) s)
               (\<lambda>(((c, off), added), s1).
                  let item = ScalarPtr (ss_region s) c off;
                      s2 = (case resource_key of
                          Some key \<Rightarrow> s1\<lparr>ss_by_resource := (ss_by_resource s1)(key \<mapsto> item)\<rparr>
                        | None \<Rightarrow> s1\<lparr>ss_by_type := entry_insert (ss_by_type s1) (kind, mode) name item\<rparr>)
                  in Inr (item, log_commit added s2)))"

definition scalar_slot :: "scalar_shard \<Rightarrow> scalar_ptr \<Rightarrow> u64 result" where
  "scalar_slot s p =
     (if sp_region p = ss_region s then log_deref s (sp_chunk p, sp_offset p) else Inl DanglingPointer)"

definition scalar_slot_update :: "scalar_ptr \<Rightarrow> (u64 \<Rightarrow> u64) \<Rightarrow> scalar_shard \<Rightarrow> scalar_shard result" where
  "scalar_slot_update p f s =
     (if sp_region p = ss_region s then log_update (sp_chunk p, sp_offset p) f s
      else Inl DanglingPointer)"

section \<open>Keys\<close>

datatype scalar_key =
    ScalarName metric_type scalar_kind str
  | ScalarResource metric_type scalar_kind resource_labels

fun scalar_do :: "scalar_key \<Rightarrow> scalar_shard \<Rightarrow> (scalar_ptr \<times> scalar_shard) result" where
  "scalar_do (ScalarName kind mode name) = scalar_shard_register kind mode name None"
| "scalar_do (ScalarResource kind mode labels) =
     scalar_shard_register kind mode (rl_name labels) (Some labels)"

fun scalar_lookup :: "scalar_shard \<Rightarrow> scalar_key \<Rightarrow> scalar_ptr option" where
  "scalar_lookup s (ScalarName kind mode name) = entry_get (ss_by_type s) (kind, mode) name"
| "scalar_lookup s (ScalarResource kind mode labels) = ss_by_resource s (kind, mode, labels)"

definition scalar_meta_key :: "scalar_meta \<Rightarrow> scalar_key" where
  "scalar_meta_key m =
     (case sm_resource m of
        None \<Rightarrow> ScalarName (sm_kind m) (sm_mode m) (sm_name m)
      | Some labels \<Rightarrow> ScalarResource (sm_kind m) (sm_mode m) labels)"

section \<open>Invariant\<close>

text \<open>The metadata entry a registration writes.\<close>

definition scalar_entry :: "scalar_key \<Rightarrow> scalar_ptr \<Rightarrow> scalar_meta" where
  "scalar_entry k item =
     (case k of
        ScalarName kind mode name \<Rightarrow>
          \<lparr>sm_name = name, sm_resource = None, sm_kind = kind, sm_mode = mode, sm_item = item\<rparr>
      | ScalarResource kind mode labels \<Rightarrow>
          \<lparr>sm_name = rl_name labels, sm_resource = Some labels, sm_kind = kind, sm_mode = mode,
           sm_item = item\<rparr>)"

definition scalar_log :: "scalar_shard \<Rightarrow> (scalar_key \<times> scalar_ptr) list" where
  "scalar_log s = map (\<lambda>m. (scalar_meta_key m, sm_item m)) (log_metas s)"

definition scalar_shard_inv :: "scalar_shard \<Rightarrow> bool" where
  "scalar_shard_inv s \<longleftrightarrow> log_inv 0 s \<and> distinct (map fst (scalar_log s)) \<and>
     (\<forall>i < cl_len s. sm_item (log_metas s ! i) = ScalarPtr (ss_region s) (i div 256) (i mod 256)) \<and>
     scalar_lookup s = map_of (scalar_log s) \<and>
     (\<forall>m \<in> set (log_metas s). m = scalar_entry (scalar_meta_key m) (sm_item m))"

section \<open>Lemmas\<close>

lemma scalar_frame [simp]:
  "log_metas (s\<lparr>ss_by_type := x\<rparr>) = log_metas s"
  "log_metas (s\<lparr>ss_by_resource := y\<rparr>) = log_metas s"
  "log_inv d (s\<lparr>ss_by_type := x\<rparr>) = log_inv d s"
  "log_inv d (s\<lparr>ss_by_resource := y\<rparr>) = log_inv d s"
  "log_deref (s\<lparr>ss_by_type := x\<rparr>) p = log_deref s p"
  "log_deref (s\<lparr>ss_by_resource := y\<rparr>) p = log_deref s p"
  by (simp_all add: log_metas_def log_inv_def log_deref_def)

lemma scalar_more_cong:
  assumes "chunk_log.more s' = chunk_log.more (s :: scalar_shard)"
  shows "ss_region s' = ss_region s" "ss_by_type s' = ss_by_type s" "ss_by_resource s' = ss_by_resource s"
  using assms by (cases s; cases s'; simp)+

lemma scalar_shard_inv_new: "scalar_shard_inv (scalar_shard_new region)"
proof -
  have "scalar_lookup (scalar_shard_new region) k = None" for k
    by (cases k) (simp_all add: scalar_shard_new_def)
  then show ?thesis
    by (auto simp: scalar_shard_inv_def scalar_shard_new_def scalar_log_def log_inv_empty fun_eq_iff)
qed

lemma scalar_lookup_updates [simp]:
  "scalar_lookup (s\<lparr>ss_by_type := entry_insert (ss_by_type s) (kind, mode) name item\<rparr>) =
     (scalar_lookup s)(ScalarName kind mode name \<mapsto> item)"
  "scalar_lookup (s\<lparr>ss_by_resource := (ss_by_resource s)((kind, mode, labels) \<mapsto> item)\<rparr>) =
     (scalar_lookup s)(ScalarResource kind mode labels \<mapsto> item)"
  by (rule ext, rename_tac k, case_tac k, simp_all)+

lemma scalar_inv_len: "scalar_shard_inv s \<Longrightarrow> length (log_metas s) = cl_len s"
  unfolding scalar_shard_inv_def by (elim conjE) (rule length_log_metas)

lemma scalar_inv_item_valid:
  assumes "scalar_shard_inv s" and "m \<in> set (log_metas s)"
  shows "sp_region (sm_item m) = ss_region s" and "ptr_valid s (sp_chunk (sm_item m), sp_offset (sm_item m))"
proof -
  obtain i where "i < cl_len s" "m = log_metas s ! i"
    using assms(2) scalar_inv_len [OF assms(1)] by (metis in_set_conv_nth)
  with assms(1) show "sp_region (sm_item m) = ss_region s"
    and "ptr_valid s (sp_chunk (sm_item m), sp_offset (sm_item m))"
    by (simp_all add: scalar_shard_inv_def ptr_valid_def)
qed

lemma scalar_log_frame:
  assumes "scalar_shard_inv s" and "ss_region s' = ss_region s" and "e \<in> set (scalar_log s)"
    and "\<And>q. ptr_valid s q \<Longrightarrow> log_deref s' q = log_deref s q"
  shows "scalar_slot s' (snd e) = scalar_slot s (snd e)"
  using assms scalar_inv_item_valid [OF assms(1)] by (auto simp: scalar_slot_def scalar_log_def)

text \<open>The state a registration leaves.\<close>

definition scalar_bind :: "scalar_key \<Rightarrow> scalar_ptr \<Rightarrow> scalar_shard \<Rightarrow> scalar_shard" where
  "scalar_bind k item s =
     (case k of
        ScalarName kind mode name \<Rightarrow>
          s\<lparr>ss_by_type := entry_insert (ss_by_type s) (kind, mode) name item\<rparr>
      | ScalarResource kind mode labels \<Rightarrow>
          s\<lparr>ss_by_resource := (ss_by_resource s)((kind, mode, labels) \<mapsto> item)\<rparr>)"

lemma scalar_entry_simps [simp]:
  "scalar_meta_key (scalar_entry k item) = k" "sm_item (scalar_entry k item) = item"
  by (cases k; simp add: scalar_entry_def scalar_meta_key_def)+

lemma scalar_bind_simps [simp]:
  "log_metas (scalar_bind k item s) = log_metas s"
  "log_inv d (scalar_bind k item s) = log_inv d s"
  "log_deref (scalar_bind k item s) p = log_deref s p"
  "cl_len (scalar_bind k item s) = cl_len s"
  "ss_region (scalar_bind k item s) = ss_region s"
  "scalar_lookup (scalar_bind k item s) = (scalar_lookup s)(k \<mapsto> item)"
  by (cases k; simp add: scalar_bind_def)+

lemma scalar_bind_commit: "log_commit added (scalar_bind k item s) = scalar_bind k item (log_commit added s)"
  by (cases k) (simp_all add: scalar_bind_def log_commit_def Let_def)

lemma scalar_do_alloc:
  assumes "scalar_lookup s k = None"
  shows "scalar_do k s =
    res_bind (log_alloc 0 (\<lambda>c off. scalar_entry k (ScalarPtr (ss_region s) c off)) s)
      (\<lambda>((c, off), s'). Inr (ScalarPtr (ss_region s) c off, scalar_bind k (ScalarPtr (ss_region s) c off) s'))"
proof -
  have "scalar_do k s =
      res_bind (log_write 0 (\<lambda>c off. scalar_entry k (ScalarPtr (ss_region s) c off)) s)
        (\<lambda>(((c, off), added), s'). Inr (ScalarPtr (ss_region s) c off,
           log_commit added (scalar_bind k (ScalarPtr (ss_region s) c off) s')))"
    using assms
    by (cases k) (simp_all add: scalar_shard_register_def scalar_entry_def scalar_bind_def Let_def)
  then show ?thesis
    by (simp add: log_alloc_def scalar_bind_commit res_bind_def split: sum.split prod.split)
qed

lemma scalar_do_known:
  "scalar_lookup s k = Some p \<Longrightarrow> scalar_do k s = Inr (p, s)"
  by (cases k) (simp_all add: scalar_shard_register_def Let_def)

lemma scalar_do_fresh:
  assumes inv: "scalar_shard_inv s" and fresh: "scalar_lookup s k = None"
  shows "\<exists>p s'. scalar_do k s = Inr (p, s') \<and> scalar_shard_inv s' \<and> ss_region s' = ss_region s \<and>
    scalar_log s' = scalar_log s @ [(k, p)] \<and> scalar_slot s' p = Inr 0 \<and>
    (\<forall>e \<in> set (scalar_log s). scalar_slot s' (snd e) = scalar_slot s (snd e)) \<and>
    prefix (log_metas s) (log_metas s')"
proof -
  let ?mk = "\<lambda>c off. scalar_entry k (ScalarPtr (ss_region s) c off)"
  let ?q = "(cl_len s div 256, cl_len s mod 256)"
  let ?p = "ScalarPtr (ss_region s) (cl_len s div 256) (cl_len s mod 256)"
  have li: "log_inv 0 s" using inv by (simp add: scalar_shard_inv_def)
  obtain s1 where s1: "log_alloc 0 ?mk s = Inr (?q, s1)" "cl_len s1 = Suc (cl_len s)"
    "chunk_log.more s1 = chunk_log.more s"
    by (rule log_alloc_total [OF li, of ?mk]) blast
  note more = scalar_more_cong [OF s1(3)]
  note deref = log_alloc_deref [OF li s1(1)]
  let ?s' = "scalar_bind k ?p s1"
  have raw: "scalar_lookup s1 = scalar_lookup s"
    by (rule ext, rename_tac k, case_tac k) (simp_all add: more)
  have metas: "log_metas s1 = log_metas s @ [scalar_entry k ?p]"
    using log_alloc_metas [OF li s1(1)] by simp
  have log': "scalar_log ?s' = scalar_log s @ [(k, ?p)]"
    by (simp add: scalar_log_def metas)
  have notin: "k \<notin> fst ` set (scalar_log s)"
    using fresh inv by (simp add: scalar_shard_inv_def map_of_eq_None_iff)
  have "scalar_shard_inv ?s'"
    unfolding scalar_shard_inv_def
  proof (intro conjI allI impI ballI)
    show "log_inv 0 ?s'" using log_alloc_keeps_inv [OF li s1(1)] by simp
    show "distinct (map fst (scalar_log ?s'))"
      using inv notin by (simp add: log' scalar_shard_inv_def)
    show "sm_item (log_metas ?s' ! i) = ScalarPtr (ss_region ?s') (i div 256) (i mod 256)"
      if "i < cl_len ?s'" for i
      using inv that s1(2) scalar_inv_len [OF inv]
      by (auto simp: scalar_shard_inv_def more metas nth_append less_Suc_eq)
    show "scalar_lookup ?s' = map_of (scalar_log ?s')"
      unfolding log' map_of_snoc_fresh [OF notin] using inv by (simp add: raw scalar_shard_inv_def)
    show "m = scalar_entry (scalar_meta_key m) (sm_item m)" if "m \<in> set (log_metas ?s')" for m
      using inv that by (auto simp: scalar_shard_inv_def metas)
  qed
  moreover have "scalar_do k s = Inr (?p, ?s')"
    using s1(1) by (simp add: scalar_do_alloc [OF fresh])
  moreover have "scalar_slot ?s' ?p = Inr 0"
    using deref(5) by (simp add: scalar_slot_def more)
  moreover have "scalar_slot ?s' (snd e) = scalar_slot s (snd e)" if "e \<in> set (scalar_log s)" for e
    using deref(1) by (intro scalar_log_frame [OF inv _ that]) (simp_all add: more)
  moreover have "prefix (log_metas s) (log_metas ?s')" by (simp add: metas)
  ultimately show ?thesis using log' more(1) by (metis scalar_bind_simps(5))
qed

lemma scalar_slot_update_ok:
  assumes inv: "scalar_shard_inv s" and e: "e \<in> set (scalar_log s)"
  shows "\<exists>s'. scalar_slot_update (snd e) f s = Inr s' \<and> scalar_shard_inv s' \<and> scalar_log s' = scalar_log s \<and>
    (\<forall>e' \<in> set (scalar_log s). scalar_slot s' (snd e') =
       (if snd e' = snd e then map_sum id f (scalar_slot s (snd e')) else scalar_slot s (snd e')))"
proof -
  have li: "log_inv 0 s" using inv by (simp add: scalar_shard_inv_def)
  have valid: "sp_region (snd e) = ss_region s \<and> ptr_valid s (sp_chunk (snd e), sp_offset (snd e))"
    if "e \<in> set (scalar_log s)" for e
    using that scalar_inv_item_valid [OF inv] by (auto simp: scalar_log_def)
  let ?p = "(sp_chunk (snd e), sp_offset (snd e))"
  obtain s' where s': "log_update ?p f s = Inr s'" "log_inv 0 s'" "cl_chunks s' = cl_chunks s"
    "cl_len s' = cl_len s" "chunk_log.more s' = chunk_log.more s"
    "\<And>q. ptr_valid s q \<Longrightarrow> log_deref s' q = (if q = ?p then map_sum id f (log_deref s q) else log_deref s q)"
    by (rule log_update_valid [OF li valid [OF e, THEN conjunct2], of f]) blast
  note more = scalar_more_cong [OF s'(5)]
  have raw: "scalar_lookup s' = scalar_lookup s"
    by (rule ext, rename_tac k, case_tac k) (simp_all add: more)
  have metas: "log_metas s' = log_metas s" by (simp add: log_metas_def s'(3))
  have log': "scalar_log s' = scalar_log s" by (simp add: scalar_log_def metas)
  have "scalar_shard_inv s'" using inv by (simp add: scalar_shard_inv_def log' metas raw s'(2,4) more)
  moreover have "scalar_slot s' (snd e') =
      (if snd e' = snd e then map_sum id f (scalar_slot s (snd e')) else scalar_slot s (snd e'))"
    if "e' \<in> set (scalar_log s)" for e'
    using valid [OF that] valid [OF e] s'(6) [of "(sp_chunk (snd e'), sp_offset (snd e'))"]
    by (auto simp: scalar_slot_def more intro: scalar_ptr.expand)
  ultimately show ?thesis
    using s'(1) valid [OF e] log' by (intro exI [of _ s']) (simp add: scalar_slot_update_def)
qed

interpretation scalar_shards: shard_registry scalar_shard_inv scalar_lookup scalar_do "\<lambda>k. k" "\<lambda>p. p"
  scalar_slot scalar_slot_update 0 scalar_log ss_region sp_region
proof
  fix s assume inv: "scalar_shard_inv s"
  note len = scalar_inv_len [OF inv]
  show "distinct (map fst (scalar_log s))" and "scalar_lookup s k = map_of (scalar_log s) k" for k
    using inv by (simp_all add: scalar_shard_inv_def)
  show addrs: "distinct (map (\<lambda>e. snd e) (scalar_log s))"
  proof -
    have "distinct (map sm_item (log_metas s))"
      unfolding distinct_conv_nth
    proof (intro allI impI)
      fix i j assume "i < length (map sm_item (log_metas s))" "j < length (map sm_item (log_metas s))" "i \<noteq> j"
      with inv len show "map sm_item (log_metas s) ! i \<noteq> map sm_item (log_metas s) ! j"
        by (simp add: scalar_shard_inv_def) (metis div_mult_mod_eq)
    qed
    then show ?thesis by (simp add: scalar_log_def comp_def)
  qed
  show "sp_region (snd e) = ss_region s" if "e \<in> set (scalar_log s)" for e
    using that scalar_inv_item_valid(1) [OF inv] by (auto simp: scalar_log_def)
  show "\<exists>v. scalar_slot s (snd e) = Inr v" if "e \<in> set (scalar_log s)" for e
    using that scalar_inv_item_valid [OF inv] inv log_deref_valid [of 0 s]
    by (auto simp: scalar_slot_def scalar_shard_inv_def scalar_log_def)
  have addr_inj: "inj_on (\<lambda>e. snd e) (set (scalar_log s))"
    using addrs by (simp only: distinct_map)
  show "\<exists>s'. scalar_slot_update (snd e) f s = Inr s' \<and> scalar_shard_inv s' \<and> scalar_log s' = scalar_log s \<and>
    (\<forall>e' \<in> set (scalar_log s). scalar_slot s' (snd e') =
       (if e' = e then map_sum id f (scalar_slot s (snd e')) else scalar_slot s (snd e')))"
    if e: "e \<in> set (scalar_log s)" for e f
    using scalar_slot_update_ok [OF inv e, of f] inj_onD [OF addr_inj _ _ e] by metis
next
  fix s k p assume "scalar_lookup s k = Some p"
  then show "scalar_do k s = Inr (p, s)" by (rule scalar_do_known)
next
  fix s k assume "scalar_shard_inv s" and "scalar_lookup s k = None"
  from scalar_do_fresh [OF this] show "\<exists>h s'. scalar_do k s = Inr (h, s') \<and> scalar_shard_inv s' \<and>
    mset (scalar_log s') = add_mset (k, h) (mset (scalar_log s)) \<and> scalar_slot s' h = Inr 0 \<and>
    (\<forall>e \<in> set (scalar_log s). scalar_slot s' (snd e) = scalar_slot s (snd e))"
    by auto
next
  fix s r h s' assume inv: "scalar_shard_inv s" and run: "scalar_do r s = Inr (h, s')"
  show "ss_region s' = ss_region s"
    using run scalar_do_fresh [OF inv, of r] scalar_do_known [of s r]
    by (cases "scalar_lookup s r") auto
next
  fix a f s s' assume "scalar_slot_update a f s = Inr s'"
  then show "ss_region s' = ss_region s"
    by (auto simp: scalar_slot_update_def log_update_def res_bind_Inr_iff split: if_splits)
qed

text \<open>The metadata of a shard only grows.\<close>

lemma scalar_do_grows:
  assumes "scalar_shard_inv s" and "scalar_do k s = Inr (p, s')"
  shows "prefix (log_metas s) (log_metas s')"
proof (cases "scalar_lookup s k")
  case None
  from scalar_do_fresh [OF assms(1) None] assms(2) show ?thesis by auto
next
  case (Some q)
  with scalar_do_known [OF this] assms(2) show ?thesis by simp
qed

lemma scalar_slot_update_metas: "scalar_slot_update p f s = Inr s' \<Longrightarrow> log_metas s' = log_metas s"
  by (auto simp: scalar_slot_update_def log_update_metas split: if_splits)

end
