(* ===== verification/Scalar_Registry.thy ===== *)
theory Scalar_Registry
  imports Scalar_Shard
begin

text \<open>
  The scalar registry and its handles (\<open>ScalarRegistry\<close>, \<open>CounterMetric\<close>, \<open>GaugeMetric\<close>,
  \<open>ConnMetric\<close> and \<open>ConnectionGuard\<close> of \<open>src/src/scalar.rs\<close>). A gauge stores an \<open>i64\<close> in the bits of
  its \<open>u64\<close>; the casts keep the bits, so both are a 64-bit word, read with \<open>unat\<close> or \<open>sint\<close>. The
  hash function is a field of the registry, chosen when it is built.
\<close>

section \<open>The registry\<close>

record scalar_registry =
  sr_shards :: "scalar_shard list"
  sr_hasher :: "scalar_key \<Rightarrow> u64"

definition scalar_registry_new :: "(scalar_key \<Rightarrow> u64) \<Rightarrow> scalar_registry" where
  "scalar_registry_new hasher =
     \<lparr>sr_shards = map scalar_shard_new [0..<SHARD_COUNT], sr_hasher = hasher\<rparr>"

definition scalar_register ::
  "metric_type \<Rightarrow> scalar_kind \<Rightarrow> str \<Rightarrow> scalar_registry \<Rightarrow> (scalar_ptr \<times> scalar_registry) result" where
  "scalar_register kind mode name reg =
     res_bind (validate kind) (\<lambda>_.
       let shard = shard_index (sr_hasher reg (ScalarName kind mode name))
       in res_bind (on_shard shard (scalar_shard_register kind mode name None) (sr_shards reg))
            (\<lambda>(item, shards). Inr (item, reg\<lparr>sr_shards := shards\<rparr>)))"

definition scalar_register_resource ::
  "metric_type \<Rightarrow> scalar_kind \<Rightarrow> resource_labels \<Rightarrow> scalar_registry \<Rightarrow>
     (scalar_ptr \<times> scalar_registry) result" where
  "scalar_register_resource kind mode labels reg =
     res_bind (validate kind) (\<lambda>_.
       let shard = shard_index (sr_hasher reg (ScalarResource kind mode labels))
       in res_bind (on_shard shard
              (scalar_shard_register kind mode (rl_name labels) (Some labels)) (sr_shards reg))
            (\<lambda>(item, shards). Inr (item, reg\<lparr>sr_shards := shards\<rparr>)))"

text \<open>\<open>for_each\<close> visits the shards one after the other, without a lock: \<open>at i\<close> is the registry when shard
  \<open>i\<close> is visited. \<open>scalar_for_each\<close> is the metadata handed to the callback when nothing happens
  meanwhile.\<close>

definition scalar_for_each_at ::
  "(nat \<Rightarrow> scalar_registry) \<Rightarrow> (nat \<Rightarrow> nat \<Rightarrow> scalar_meta \<Rightarrow> 'a result) \<Rightarrow> 'a list result" where
  "scalar_for_each_at at f = visit_shards SHARD_COUNT (\<lambda>i. sr_shards (at i)) f"

definition scalar_for_each :: "scalar_registry \<Rightarrow> scalar_meta list result" where
  "scalar_for_each reg = scalar_for_each_at (\<lambda>_. reg) (\<lambda>_ _ meta. Inr meta)"

definition scalar_len :: "scalar_registry \<Rightarrow> nat result" where
  "scalar_len reg = res_bind (map_res log_len (sr_shards reg)) (\<lambda>ns. Inr (sum_list ns))"

section \<open>Atomic access through a pointer\<close>

definition scalar_load :: "scalar_ptr \<Rightarrow> scalar_registry \<Rightarrow> u64 result" where
  "scalar_load p reg = shards_slot scalar_slot sp_region (sr_shards reg) p"

definition scalar_rmw :: "scalar_ptr \<Rightarrow> (u64 \<Rightarrow> u64) \<Rightarrow> scalar_registry \<Rightarrow> scalar_registry result" where
  "scalar_rmw p f reg =
     res_bind (shards_update scalar_slot_update sp_region p f (sr_shards reg))
       (\<lambda>shards. Inr (reg\<lparr>sr_shards := shards\<rparr>))"

definition fetch_add :: "scalar_ptr \<Rightarrow> u64 \<Rightarrow> scalar_registry \<Rightarrow> scalar_registry result" where
  "fetch_add p v = scalar_rmw p (\<lambda>c. c + v)"

definition atomic_store :: "scalar_ptr \<Rightarrow> u64 \<Rightarrow> scalar_registry \<Rightarrow> scalar_registry result" where
  "atomic_store p v = scalar_rmw p (\<lambda>_. v)"

section \<open>Counters and gauges\<close>

record counter_metric =
  cm_item :: scalar_ptr

record gauge_metric =
  gm_item :: scalar_ptr

record conn_metric =
  co_current :: gauge_metric
  co_total :: counter_metric

definition counter_new :: "metric_type \<Rightarrow> str \<Rightarrow> scalar_registry \<Rightarrow> (counter_metric \<times> scalar_registry) result" where
  "counter_new kind name reg =
     res_bind (scalar_register kind CounterKind name reg) (\<lambda>(item, reg'). Inr (\<lparr>cm_item = item\<rparr>, reg'))"

definition counter_new_resource ::
  "metric_type \<Rightarrow> resource_labels \<Rightarrow> scalar_registry \<Rightarrow> (counter_metric \<times> scalar_registry) result" where
  "counter_new_resource kind labels reg =
     res_bind (scalar_register_resource kind CounterKind labels reg)
       (\<lambda>(item, reg'). Inr (\<lparr>cm_item = item\<rparr>, reg'))"

definition counter_add :: "u64 \<Rightarrow> counter_metric \<Rightarrow> scalar_registry \<Rightarrow> scalar_registry result" where
  "counter_add v m = fetch_add (cm_item m) v"

definition counter_inc :: "counter_metric \<Rightarrow> scalar_registry \<Rightarrow> scalar_registry result" where
  "counter_inc = counter_add 1"

definition counter_get :: "counter_metric \<Rightarrow> scalar_registry \<Rightarrow> u64 result" where
  "counter_get m = scalar_load (cm_item m)"

definition gauge_new :: "metric_type \<Rightarrow> str \<Rightarrow> scalar_registry \<Rightarrow> (gauge_metric \<times> scalar_registry) result" where
  "gauge_new kind name reg =
     res_bind (scalar_register kind GaugeKind name reg) (\<lambda>(item, reg'). Inr (\<lparr>gm_item = item\<rparr>, reg'))"

definition gauge_new_resource ::
  "metric_type \<Rightarrow> resource_labels \<Rightarrow> scalar_registry \<Rightarrow> (gauge_metric \<times> scalar_registry) result" where
  "gauge_new_resource kind labels reg =
     res_bind (scalar_register_resource kind GaugeKind labels reg)
       (\<lambda>(item, reg'). Inr (\<lparr>gm_item = item\<rparr>, reg'))"

definition gauge_add :: "i64 \<Rightarrow> gauge_metric \<Rightarrow> scalar_registry \<Rightarrow> scalar_registry result" where
  "gauge_add v m = fetch_add (gm_item m) v"

definition gauge_inc :: "gauge_metric \<Rightarrow> scalar_registry \<Rightarrow> scalar_registry result" where
  "gauge_inc = gauge_add 1"

definition gauge_dec :: "gauge_metric \<Rightarrow> scalar_registry \<Rightarrow> scalar_registry result" where
  "gauge_dec = gauge_add (- 1)"

definition gauge_set :: "i64 \<Rightarrow> gauge_metric \<Rightarrow> scalar_registry \<Rightarrow> scalar_registry result" where
  "gauge_set v m = atomic_store (gm_item m) v"

definition gauge_get :: "gauge_metric \<Rightarrow> scalar_registry \<Rightarrow> i64 result" where
  "gauge_get m = scalar_load (gm_item m)"

section \<open>Connections\<close>

definition conn_new :: "metric_type \<Rightarrow> str \<Rightarrow> scalar_registry \<Rightarrow> (conn_metric \<times> scalar_registry) result" where
  "conn_new kind name reg =
     res_bind (assert_or (is_conn kind) (AssertFailed ''ConnMetric requires a resource's Conn category''))
       (\<lambda>_. res_bind (gauge_new kind name reg) (\<lambda>(current, reg1).
            res_bind (counter_new kind name reg1) (\<lambda>(tot, reg2).
            Inr (\<lparr>co_current = current, co_total = tot\<rparr>, reg2))))"

definition conn_new_resource ::
  "metric_type \<Rightarrow> resource_labels \<Rightarrow> scalar_registry \<Rightarrow> (conn_metric \<times> scalar_registry) result" where
  "conn_new_resource kind labels reg =
     res_bind (assert_or (is_conn kind) (AssertFailed ''ConnMetric requires a resource's Conn category''))
       (\<lambda>_. res_bind (gauge_new_resource kind labels reg) (\<lambda>(current, reg1).
            res_bind (counter_new_resource kind labels reg1) (\<lambda>(tot, reg2).
            Inr (\<lparr>co_current = current, co_total = tot\<rparr>, reg2))))"

definition connected :: "conn_metric \<Rightarrow> scalar_registry \<Rightarrow> scalar_registry result" where
  "connected m reg = res_bind (gauge_inc (co_current m) reg) (counter_inc (co_total m))"

definition disconnected :: "conn_metric \<Rightarrow> scalar_registry \<Rightarrow> scalar_registry result" where
  "disconnected m = gauge_dec (co_current m)"

definition conn_current :: "conn_metric \<Rightarrow> scalar_registry \<Rightarrow> i64 result" where
  "conn_current m = gauge_get (co_current m)"

definition conn_total :: "conn_metric \<Rightarrow> scalar_registry \<Rightarrow> u64 result" where
  "conn_total m = counter_get (co_total m)"

record connection_guard =
  cg_metric :: conn_metric

definition connection :: "conn_metric \<Rightarrow> scalar_registry \<Rightarrow> (connection_guard \<times> scalar_registry) result" where
  "connection m reg = res_bind (connected m reg) (\<lambda>reg'. Inr (\<lparr>cg_metric = m\<rparr>, reg'))"

definition guard_drop :: "connection_guard \<Rightarrow> scalar_registry \<Rightarrow> scalar_registry result" where
  "guard_drop g = disconnected (cg_metric g)"

section \<open>Invariant\<close>

definition scalars_inv :: "scalar_registry \<Rightarrow> bool" where
  "scalars_inv reg \<longleftrightarrow>
     shards_inv scalar_shard_inv scalar_lookup ss_region (\<lambda>k. shard_index (sr_hasher reg k)) 64 (sr_shards reg)"

definition scalars_find :: "scalar_registry \<Rightarrow> scalar_key \<Rightarrow> scalar_ptr option" where
  "scalars_find reg = shards_lookup scalar_lookup (\<lambda>k. shard_index (sr_hasher reg k)) (sr_shards reg)"

definition scalars_log :: "scalar_registry \<Rightarrow> (scalar_key \<times> scalar_ptr) list" where
  "scalars_log reg = concat (map scalar_log (sr_shards reg))"

fun scalar_key_kind :: "scalar_key \<Rightarrow> metric_type" where
  "scalar_key_kind (ScalarName kind mode name) = kind"
| "scalar_key_kind (ScalarResource kind mode labels) = kind"

fun scalars_do :: "scalar_key \<Rightarrow> scalar_registry \<Rightarrow> (scalar_ptr \<times> scalar_registry) result" where
  "scalars_do (ScalarName kind mode name) = scalar_register kind mode name"
| "scalars_do (ScalarResource kind mode labels) = scalar_register_resource kind mode labels"

interpretation scalar_sharded: sharded_registry scalar_shard_inv scalar_lookup scalar_do
  "\<lambda>k. k" "\<lambda>p. p" scalar_slot scalar_slot_update 0 scalar_log ss_region sp_region
  "\<lambda>k. shard_index (hasher k)" 64 for hasher
  by unfold_locales simp

section \<open>Concurrent updates and connection guards\<close>

datatype scalar_step = AddTo scalar_ptr u64

fun scalar_act :: "scalar_step \<Rightarrow> scalar_registry \<Rightarrow> scalar_registry result" where
  "scalar_act (AddTo p v) = fetch_add p v"

fun step_add :: "scalar_ptr \<Rightarrow> scalar_step \<Rightarrow> u64" where
  "step_add p (AddTo q v) = (if q = p then v else 0)"

fun step_ptr :: "scalar_step \<Rightarrow> scalar_ptr" where
  "step_ptr (AddTo p v) = p"

datatype conn_call = Connect | Disconnect

fun conn_steps :: "conn_metric \<Rightarrow> conn_call \<Rightarrow> scalar_step list" where
  "conn_steps m Connect = [AddTo (gm_item (co_current m)) 1, AddTo (cm_item (co_total m)) 1]"
| "conn_steps m Disconnect = [AddTo (gm_item (co_current m)) (- 1)]"

text \<open>
  A connection handle in use: guards are created by \<open>connection\<close>, each is dropped at most once (it is
  owned, and dropping consumes it), and meanwhile other scalars are registered and updated.
\<close>

record conn_sys =
  cy_reg :: scalar_registry
  cy_guards :: "connection_guard list"
  cy_opened :: nat

inductive conn_step :: "conn_metric \<Rightarrow> conn_sys \<Rightarrow> conn_sys \<Rightarrow> bool" for m where
  opens: "connection m (cy_reg s) = Inr (g, reg') \<Longrightarrow>
     conn_step m s (s\<lparr>cy_reg := reg', cy_guards := g # cy_guards s, cy_opened := Suc (cy_opened s)\<rparr>)"
| drops: "cy_guards s = gs @ g # gs' \<Longrightarrow> guard_drop g (cy_reg s) = Inr reg' \<Longrightarrow>
     conn_step m s (s\<lparr>cy_reg := reg', cy_guards := gs @ gs'\<rparr>)"
| registers: "scalars_do k (cy_reg s) = Inr (p, reg') \<Longrightarrow> conn_step m s (s\<lparr>cy_reg := reg'\<rparr>)"
| updates: "scalars_find (cy_reg s) k = Some p \<Longrightarrow> p \<noteq> gm_item (co_current m) \<Longrightarrow>
     p \<noteq> cm_item (co_total m) \<Longrightarrow> scalar_rmw p f (cy_reg s) = Inr reg' \<Longrightarrow>
     conn_step m s (s\<lparr>cy_reg := reg'\<rparr>)"

inductive conn_reach :: "conn_metric \<Rightarrow> scalar_registry \<Rightarrow> conn_sys \<Rightarrow> bool" for m reg where
  starts: "conn_reach m reg \<lparr>cy_reg = reg, cy_guards = [], cy_opened = 0\<rparr>"
| steps: "conn_reach m reg s \<Longrightarrow> conn_step m s t \<Longrightarrow> conn_reach m reg t"

section \<open>Lemmas\<close>

lemma scalars_do_eq:
  "scalars_do k reg =
     res_bind (validate (scalar_key_kind k)) (\<lambda>_.
     res_bind (on_shard (shard_index (sr_hasher reg k)) (scalar_do k) (sr_shards reg))
       (\<lambda>(p, xs). Inr (p, reg\<lparr>sr_shards := xs\<rparr>)))"
  by (cases k) (simp_all add: scalar_register_def scalar_register_resource_def Let_def)

lemma scalars_inv_new: "scalars_inv (scalar_registry_new hasher)"
proof -
  have "scalar_lookup (scalar_shard_new i) k = None" for i k
    by (cases k) (simp_all add: scalar_shard_new_def)
  moreover have "ss_region (scalar_shard_new i) = i" for i
    by (simp add: scalar_shard_new_def)
  ultimately show ?thesis
    by (simp add: scalars_inv_def scalar_registry_new_def shards_inv_def SHARD_COUNT_def
        scalar_shard_inv_new dom_def)
qed

lemma scalars_find_new [simp]: "scalars_find (scalar_registry_new hasher) k = None"
proof -
  have "scalar_lookup (scalar_shard_new i) k = None" for i
    by (cases k) (simp_all add: scalar_shard_new_def)
  then show ?thesis
    using shard_index_less [of "hasher k"]
    by (simp add: scalars_find_def scalar_registry_new_def shards_lookup_def SHARD_COUNT_def
        del: shard_index_less)
qed

text \<open>Registration under a valid kind succeeds and disturbs nothing registered before.\<close>

lemma scalars_do_total:
  assumes inv: "scalars_inv reg" and valid: "validate (scalar_key_kind k) = Inr ()"
  obtains p reg' where "scalars_do k reg = Inr (p, reg')" and "scalars_inv reg'"
    and "scalars_find reg' = (scalars_find reg)(k \<mapsto> p)"
    and "\<And>k' q. scalars_find reg k' = Some q \<Longrightarrow> scalars_find reg' k' = Some q"
    and "\<And>k' q. scalars_find reg k' = Some q \<Longrightarrow> scalar_load q reg' = scalar_load q reg"
    and "scalars_find reg k = None \<Longrightarrow> scalar_load p reg' = Inr 0"
    and "sr_hasher reg' = sr_hasher reg"
    and "length (scalars_log reg') = length (scalars_log reg) + (if k \<in> dom (scalars_find reg) then 0 else 1)"
proof -
  let ?h = "sr_hasher reg"
  have inv': "shards_inv scalar_shard_inv scalar_lookup ss_region (\<lambda>k. shard_index (?h k)) 64 (sr_shards reg)"
    using inv by (simp add: scalars_inv_def)
  obtain p xs where r: "on_shard (shard_index (?h k)) (scalar_do k) (sr_shards reg) = Inr (p, xs)"
    "shards_inv scalar_shard_inv scalar_lookup ss_region (\<lambda>k. shard_index (?h k)) 64 xs"
    "shards_lookup scalar_lookup (\<lambda>k. shard_index (?h k)) xs =
       (shards_lookup scalar_lookup (\<lambda>k. shard_index (?h k)) (sr_shards reg))(k \<mapsto> p)"
    "\<And>k' q. shards_lookup scalar_lookup (\<lambda>k. shard_index (?h k)) (sr_shards reg) k' = Some q \<Longrightarrow>
       shards_lookup scalar_lookup (\<lambda>k. shard_index (?h k)) xs k' = Some q"
    "\<And>k' q. shards_lookup scalar_lookup (\<lambda>k. shard_index (?h k)) (sr_shards reg) k' = Some q \<Longrightarrow>
       shards_slot scalar_slot sp_region xs q = shards_slot scalar_slot sp_region (sr_shards reg) q"
    "length (concat (map scalar_log xs)) = length (concat (map scalar_log (sr_shards reg))) +
       (if k \<in> dom (shards_lookup scalar_lookup (\<lambda>k. shard_index (?h k)) (sr_shards reg)) then 0 else 1)"
    by (rule scalar_sharded.all.register_total [OF inv', of k]) blast
  have zero: "shards_slot scalar_slot sp_region xs p = Inr 0"
    if "shards_lookup scalar_lookup (\<lambda>k. shard_index (?h k)) (sr_shards reg) k = None"
    using scalar_sharded.all.register_fresh_zero [OF inv' that r(1)] .
  show thesis
    by (rule that [of p "reg\<lparr>sr_shards := xs\<rparr>"])
      (use r zero valid in \<open>simp_all add: scalars_do_eq scalars_inv_def scalars_find_def scalar_load_def
        scalars_log_def del: length_concat\<close>)
qed

lemma scalars_do_fresh:
  assumes "scalars_inv reg" and "validate (scalar_key_kind k) = Inr ()" and "scalars_find reg k = None"
  shows "\<exists>p reg'. scalars_do k reg = Inr (p, reg') \<and> scalars_inv reg' \<and>
    scalars_find reg' = (scalars_find reg)(k \<mapsto> p) \<and> scalar_load p reg' = Inr 0 \<and>
    (\<forall>k' q. scalars_find reg k' = Some q \<longrightarrow> scalar_load q reg' = scalar_load q reg)"
  by (rule scalars_do_total [OF assms(1,2)]) (use assms(3) in blast)

lemma scalars_do_keeps:
  assumes "scalars_inv reg" and "scalars_do k reg = Inr (p, reg')"
  shows "scalars_inv reg' \<and> (\<forall>k' q. scalars_find reg k' = Some q \<longrightarrow>
    scalars_find reg' k' = Some q \<and> scalar_load q reg' = scalar_load q reg)"
proof -
  have "validate (scalar_key_kind k) = Inr ()"
    using assms(2) by (cases "validate (scalar_key_kind k)") (auto simp: scalars_do_eq)
  then show ?thesis
    by (rule scalars_do_total [OF assms(1)]) (use assms(2) in auto)
qed

lemma scalars_do_panics:
  "validate (scalar_key_kind k) = Inl e \<Longrightarrow> scalars_do k reg = Inl e"
  by (simp add: scalars_do_eq)

lemma scalar_rmw_total:
  assumes inv: "scalars_inv reg" and found: "scalars_find reg k = Some p"
  obtains reg' v where "scalar_rmw p f reg = Inr reg'" and "scalars_inv reg'"
    and "scalars_find reg' = scalars_find reg" and "scalars_log reg' = scalars_log reg"
    and "scalar_load p reg = Inr v" and "scalar_load p reg' = Inr (f v)"
    and "\<And>k' q. scalars_find reg k' = Some q \<Longrightarrow> k' \<noteq> k \<Longrightarrow> scalar_load q reg' = scalar_load q reg"
proof -
  let ?h = "sr_hasher reg"
  have inv': "shards_inv scalar_shard_inv scalar_lookup ss_region (\<lambda>k. shard_index (?h k)) 64 (sr_shards reg)"
    and found': "shards_lookup scalar_lookup (\<lambda>k. shard_index (?h k)) (sr_shards reg) k = Some p"
    using inv found by (simp_all add: scalars_inv_def scalars_find_def)
  show thesis
  proof (rule scalar_sharded.all.update_total [OF inv' found', of f])
    fix xs v
    assume "shards_update scalar_slot_update sp_region p f (sr_shards reg) = Inr xs"
      "shards_inv scalar_shard_inv scalar_lookup ss_region (\<lambda>k. shard_index (?h k)) 64 xs"
      "concat (map scalar_log xs) = concat (map scalar_log (sr_shards reg))"
      "shards_lookup scalar_lookup (\<lambda>k. shard_index (?h k)) xs =
         shards_lookup scalar_lookup (\<lambda>k. shard_index (?h k)) (sr_shards reg)"
      "shards_slot scalar_slot sp_region (sr_shards reg) p = Inr v"
      "shards_slot scalar_slot sp_region xs p = Inr (f v)"
      "\<And>k' g. shards_lookup scalar_lookup (\<lambda>k. shard_index (?h k)) (sr_shards reg) k' = Some g \<Longrightarrow> k' \<noteq> k \<Longrightarrow>
         shards_slot scalar_slot sp_region xs g = shards_slot scalar_slot sp_region (sr_shards reg) g"
    then show thesis
      by (intro that [of "reg\<lparr>sr_shards := xs\<rparr>" v])
        (simp_all add: scalar_rmw_def scalars_inv_def scalars_find_def scalars_log_def scalar_load_def)
  qed
qed

lemma scalars_find_inj:
  "scalars_inv reg \<Longrightarrow> scalars_find reg k = Some p \<Longrightarrow> scalars_find reg k' = Some p \<Longrightarrow> k = k'"
  unfolding scalars_inv_def scalars_find_def
  by (rule scalar_sharded.all.no_aliasing, assumption+, rule refl)

lemma scalars_find_log:
  "scalars_inv reg \<Longrightarrow> scalars_find reg k = Some p \<longleftrightarrow> (k, p) \<in> set (scalars_log reg)"
  unfolding scalars_inv_def scalars_find_def scalars_log_def
  by (rule scalar_sharded.all.lookup_Some_iff)

lemma scalar_load_ok:
  "scalars_inv reg \<Longrightarrow> scalars_find reg k = Some p \<Longrightarrow> \<exists>v. scalar_load p reg = Inr v"
  unfolding scalars_inv_def scalars_find_def scalar_load_def
  by (rule scalar_sharded.all.slot_at_lookup)

text \<open>Any sequence of atomic additions through registered pointers: nothing fails, every cell
  accumulates exactly what was added to it.\<close>

lemma run_adds:
  assumes "scalars_inv reg" and "\<And>z. z \<in> set zs \<Longrightarrow> step_ptr z \<in> ran (scalars_find reg)"
  shows "\<exists>reg'. run_steps scalar_act zs reg = Inr reg' \<and> scalars_inv reg' \<and>
    scalars_find reg' = scalars_find reg \<and>
    (\<forall>p \<in> ran (scalars_find reg). \<forall>v. scalar_load p reg = Inr v \<longrightarrow>
       scalar_load p reg' = Inr (v + (\<Sum>z\<leftarrow>zs. step_add p z)))"
  using assms
proof (induction zs arbitrary: reg)
  case Nil
  then show ?case by simp
next
  case (Cons z zs)
  obtain q w where z: "z = AddTo q w" by (cases z)
  obtain k where k: "scalars_find reg k = Some q"
    using Cons.prems(2) [of z] z by (auto simp: ran_def)
  obtain reg1 v where r1: "fetch_add q w reg = Inr reg1" "scalars_inv reg1"
    "scalars_find reg1 = scalars_find reg" "scalar_load q reg = Inr v" "scalar_load q reg1 = Inr (v + w)"
    "\<And>k' p. scalars_find reg k' = Some p \<Longrightarrow> k' \<noteq> k \<Longrightarrow> scalar_load p reg1 = scalar_load p reg"
    unfolding fetch_add_def by (rule scalar_rmw_total [OF Cons.prems(1) k, of "\<lambda>c. c + w"]) blast
  have one: "scalar_load p reg1 = Inr (u + step_add p z)"
    if p: "p \<in> ran (scalars_find reg)" and u: "scalar_load p reg = Inr u" for p u
  proof (cases "p = q")
    case False
    obtain k' where k': "scalars_find reg k' = Some p" using p by (auto simp: ran_def)
    with k False have "k' \<noteq> k" by auto
    with r1(6) [OF k'] u z False show ?thesis by simp
  qed (use u r1(4,5) z in simp)
  obtain reg' where "run_steps scalar_act zs reg1 = Inr reg'" "scalars_inv reg'"
    "scalars_find reg' = scalars_find reg"
    "\<forall>p \<in> ran (scalars_find reg). \<forall>v. scalar_load p reg1 = Inr v \<longrightarrow>
       scalar_load p reg' = Inr (v + (\<Sum>z\<leftarrow>zs. step_add p z))"
    using Cons.IH [OF r1(2)] Cons.prems(2) r1(3) by auto
  then show ?case using r1(1) one z by (auto simp: add.assoc)
qed

lemma connected_steps:
  "connected m reg = run_steps scalar_act (conn_steps m Connect) reg"
  "disconnected m reg = run_steps scalar_act (conn_steps m Disconnect) reg"
  by (simp_all add: connected_def disconnected_def gauge_inc_def gauge_dec_def gauge_add_def
      counter_inc_def counter_add_def res_bind_def split: sum.splits)

lemma connected_calls:
  "run_steps (\<lambda>c. case c of Connect \<Rightarrow> connected m | Disconnect \<Rightarrow> disconnected m) calls reg =
     run_steps scalar_act (concat (map (conn_steps m) calls)) reg"
proof (induction calls arbitrary: reg)
  case (Cons c calls)
  then show ?case
    by (cases c) (simp_all add: run_steps_append connected_steps res_bind_def split: sum.split del: conn_steps.simps)
qed simp

lemma validate_conn: "is_conn kind \<Longrightarrow> validate kind = Inr ()"
  by (cases kind rule: is_conn.cases) simp_all

text \<open>A fresh connection handle: two different cells, both zero.\<close>

lemma conn_new_fresh:
  assumes inv: "scalars_inv reg" and conn: "is_conn kind"
    and "scalars_find reg (ScalarName kind GaugeKind name) = None"
    and "scalars_find reg (ScalarName kind CounterKind name) = None"
  obtains m reg' where "conn_new kind name reg = Inr (m, reg')" and "scalars_inv reg'"
    and "scalars_find reg' (ScalarName kind GaugeKind name) = Some (gm_item (co_current m))"
    and "scalars_find reg' (ScalarName kind CounterKind name) = Some (cm_item (co_total m))"
    and "conn_current m reg' = Inr 0" and "conn_total m reg' = Inr 0"
proof -
  let ?g = "ScalarName kind GaugeKind name" and ?c = "ScalarName kind CounterKind name"
  have valid: "validate (scalar_key_kind ?g) = Inr ()" "validate (scalar_key_kind ?c) = Inr ()"
    using validate_conn [OF conn] by simp_all
  obtain p r1 where r1: "scalars_do ?g reg = Inr (p, r1)" "scalars_inv r1"
    "scalars_find r1 = (scalars_find reg)(?g \<mapsto> p)" "scalar_load p r1 = Inr 0"
    using scalars_do_fresh [OF inv valid(1) assms(3)] by blast
  have none: "scalars_find r1 ?c = None" and some: "scalars_find r1 ?g = Some p"
    using r1(3) assms(4) by simp_all
  obtain q r2 where r2: "scalars_do ?c r1 = Inr (q, r2)" "scalars_inv r2"
    "scalars_find r2 = (scalars_find r1)(?c \<mapsto> q)" "scalar_load q r2 = Inr 0"
    "scalar_load p r2 = scalar_load p r1"
    using scalars_do_fresh [OF r1(2) valid(2) none] some by blast
  show thesis
    using r1 r2 conn by (intro that [of "\<lparr>co_current = \<lparr>gm_item = p\<rparr>, co_total = \<lparr>cm_item = q\<rparr>\<rparr>" r2])
      (simp_all add: conn_new_def gauge_new_def counter_new_def conn_current_def conn_total_def
        gauge_get_def counter_get_def)
qed

lemma connected_load:
  assumes inv: "scalars_inv reg"
    and g: "scalars_find reg kg = Some (gm_item (co_current m))"
    and c: "scalars_find reg kc = Some (cm_item (co_total m))" and "kg \<noteq> kc"
    and "conn_current m reg = Inr cur" "conn_total m reg = Inr tot"
  shows "\<exists>reg'. connected m reg = Inr reg' \<and> scalars_inv reg' \<and> scalars_find reg' = scalars_find reg \<and>
      conn_current m reg' = Inr (cur + 1) \<and> conn_total m reg' = Inr (tot + 1)"
    and "\<exists>reg'. disconnected m reg = Inr reg' \<and> scalars_inv reg' \<and> scalars_find reg' = scalars_find reg \<and>
      conn_current m reg' = Inr (cur - 1) \<and> conn_total m reg' = Inr tot"
proof -
  have neq: "gm_item (co_current m) \<noteq> cm_item (co_total m)"
    using scalars_find_inj [OF inv g] c assms(4) by auto
  note load = conn_current_def conn_total_def gauge_get_def counter_get_def
  have ran: "step_ptr z \<in> ran (scalars_find reg)" if "z \<in> set (conn_steps m call)" for z call
    using that g c by (cases call) (auto simp: ran_def)
  show "\<exists>reg'. connected m reg = Inr reg' \<and> scalars_inv reg' \<and> scalars_find reg' = scalars_find reg \<and>
      conn_current m reg' = Inr (cur + 1) \<and> conn_total m reg' = Inr (tot + 1)"
    using run_adds [OF inv ran [where call = Connect]] g c assms(5,6) neq
    unfolding connected_steps load by (fastforce intro: ranI)
  show "\<exists>reg'. disconnected m reg = Inr reg' \<and> scalars_inv reg' \<and> scalars_find reg' = scalars_find reg \<and>
      conn_current m reg' = Inr (cur - 1) \<and> conn_total m reg' = Inr tot"
    using run_adds [OF inv ran [where call = Disconnect]] g c assms(5,6) neq
    unfolding connected_steps load by (fastforce intro: ranI)
qed

definition conn_inv :: "conn_metric \<Rightarrow> scalar_key \<Rightarrow> scalar_key \<Rightarrow> conn_sys \<Rightarrow> bool" where
  "conn_inv m kg kc s \<longleftrightarrow> scalars_inv (cy_reg s) \<and>
     scalars_find (cy_reg s) kg = Some (gm_item (co_current m)) \<and>
     scalars_find (cy_reg s) kc = Some (cm_item (co_total m)) \<and>
     (\<forall>g \<in> set (cy_guards s). cg_metric g = m) \<and>
     conn_current m (cy_reg s) = Inr (word_of_nat (length (cy_guards s))) \<and>
     conn_total m (cy_reg s) = Inr (word_of_nat (cy_opened s))"

lemma conn_step_inv:
  assumes "conn_step m s t" and "conn_inv m kg kc s" and neq: "kg \<noteq> kc"
  shows "conn_inv m kg kc t"
proof -
  note load = conn_current_def conn_total_def gauge_get_def counter_get_def
  have inv: "scalars_inv (cy_reg s)"
    and g: "scalars_find (cy_reg s) kg = Some (gm_item (co_current m))"
    and c: "scalars_find (cy_reg s) kc = Some (cm_item (co_total m))"
    and gs: "\<forall>g \<in> set (cy_guards s). cg_metric g = m"
    and vals: "conn_current m (cy_reg s) = Inr (word_of_nat (length (cy_guards s)))"
      "conn_total m (cy_reg s) = Inr (word_of_nat (cy_opened s))"
    using assms(2) by (simp_all add: conn_inv_def)
  note conn = connected_load [OF inv g c neq vals]
  from assms(1) show ?thesis
  proof cases
    case (opens h reg')
    then have "connected m (cy_reg s) = Inr reg'" and "h = \<lparr>cg_metric = m\<rparr>"
      by (auto simp: connection_def res_bind_Inr_iff)
    with opens conn(1) g c gs show ?thesis by (auto simp: conn_inv_def add.commute)
  next
    case (drops xs h ys reg')
    then have "cg_metric h = m" using gs by simp
    then have "disconnected m (cy_reg s) = Inr reg'" using drops by (simp add: guard_drop_def)
    with drops conn(2) g c gs show ?thesis by (auto simp: conn_inv_def)
  next
    case (registers k p reg')
    with scalars_do_keeps [OF inv registers(2)] g c gs vals show ?thesis
      by (simp add: conn_inv_def load)
  next
    case (updates k p f reg')
    have "k \<noteq> kg" "k \<noteq> kc" using updates(2-4) g c by auto
    obtain reg1 where "scalar_rmw p f (cy_reg s) = Inr reg1" "scalars_inv reg1"
      "scalars_find reg1 = scalars_find (cy_reg s)"
      "\<And>k' q. scalars_find (cy_reg s) k' = Some q \<Longrightarrow> k' \<noteq> k \<Longrightarrow> scalar_load q reg1 = scalar_load q (cy_reg s)"
      by (rule scalar_rmw_total [OF inv updates(2), of f]) blast
    with updates(1,5) g c gs vals \<open>k \<noteq> kg\<close> \<open>k \<noteq> kc\<close> show ?thesis
      by (simp add: conn_inv_def load)
  qed
qed

lemma scalars_log_card:
  "scalars_inv reg \<Longrightarrow> length (scalars_log reg) = card (dom (scalars_find reg))"
  unfolding scalars_inv_def scalars_find_def scalars_log_def
  by (subst scalar_sharded.all.dom_lookup, assumption, drule scalar_sharded.all.log_keys)
    (metis distinct_card length_map list.set_map)

lemma scalar_shards_ok:
  assumes "scalars_inv reg"
  shows "length (sr_shards reg) = 64" and "s \<in> set (sr_shards reg) \<Longrightarrow> scalar_shard_inv s"
    and "s \<in> set (sr_shards reg) \<Longrightarrow> log_inv 0 s"
proof -
  show inv: "scalar_shard_inv s" if "s \<in> set (sr_shards reg)" for s
    using that assms by (auto simp: scalars_inv_def shards_inv_def in_set_conv_nth)
  then show "log_inv 0 s" if "s \<in> set (sr_shards reg)" for s
    using that by (simp add: scalar_shard_inv_def)
  show "length (sr_shards reg) = 64" using assms by (simp add: scalars_inv_def shards_inv_def)
qed

lemma scalar_metas_log:
  assumes "scalars_inv reg"
  shows "concat (map log_metas (sr_shards reg)) = map (\<lambda>e. scalar_entry (fst e) (snd e)) (scalars_log reg)"
proof -
  have "map (\<lambda>e. scalar_entry (fst e) (snd e)) (scalar_log s) = log_metas s" if "s \<in> set (sr_shards reg)" for s
    using scalar_shards_ok(2) [OF assms that]
    by (auto simp: scalar_shard_inv_def scalar_log_def intro!: map_idI dest: sym)
  then show ?thesis by (simp add: scalars_log_def map_concat comp_def cong: map_cong)
qed

lemma scalar_for_each_at_ok:
  assumes "\<And>i. i < 64 \<Longrightarrow> scalars_inv (at i)"
  shows "scalar_for_each_at at (\<lambda>_ _ meta. Inr (g meta)) = Inr (map g (visited 64 (\<lambda>i. sr_shards (at i))))"
  unfolding scalar_for_each_at_def SHARD_COUNT_def
  by (rule visit_shards_metas [where d = 0]) (use scalar_shards_ok [OF assms] in \<open>simp_all add: nth_mem\<close>)

lemma scalar_visit_ok:
  assumes "scalars_inv reg"
  shows "scalar_len reg = Inr (length (scalars_log reg))"
    and "scalar_for_each reg = Inr (map (\<lambda>e. scalar_entry (fst e) (snd e)) (scalars_log reg))"
proof -
  have "map_res log_len (sr_shards reg) = Inr (map (\<lambda>s. length (log_metas s)) (sr_shards reg))"
    by (rule map_res_Inr) (simp add: log_len_metas [OF scalar_shards_ok(3) [OF assms]])
  then show "scalar_len reg = Inr (length (scalars_log reg))"
    by (simp add: scalar_len_def scalars_log_def length_concat scalar_log_def comp_def)
  show "scalar_for_each reg = Inr (map (\<lambda>e. scalar_entry (fst e) (snd e)) (scalars_log reg))"
    using scalar_for_each_at_ok [of "\<lambda>_. reg" "\<lambda>m. m"] assms visited_const [of "sr_shards reg"]
    by (simp add: scalar_for_each_def scalar_shards_ok(1) scalar_metas_log)
qed

text \<open>The metadata of the shards only grows.\<close>

lemma scalars_do_grows:
  assumes "scalars_inv reg" and "scalars_do k reg = Inr (p, reg')"
  shows "logs_grown (sr_shards reg) (sr_shards reg')"
proof -
  let ?i = "shard_index (sr_hasher reg k)"
  obtain s' where s': "?i < length (sr_shards reg)" "scalar_do k (sr_shards reg ! ?i) = Inr (p, s')"
    "sr_shards reg' = (sr_shards reg)[?i := s']"
    using assms(2) by (auto simp: scalars_do_eq on_shard_def index_at_def res_bind_Inr_iff split: if_splits)
  have "scalar_shard_inv (sr_shards reg ! ?i)" using assms(1) by (simp add: scalars_inv_def shards_inv_def)
  from scalar_do_grows [OF this s'(2)] s' show ?thesis by (simp add: logs_grown_update)
qed

lemma scalar_rmw_grows: "scalar_rmw p f reg = Inr reg' \<Longrightarrow> logs_grown (sr_shards reg) (sr_shards reg')"
  by (auto simp: scalar_rmw_def shards_update_def index_at_def res_bind_Inr_iff scalar_slot_update_metas
      intro!: logs_grown_update split: if_splits)

lemma conn_reach_inv:
  assumes "conn_reach m reg s" and "kg \<noteq> kc"
    and "conn_inv m kg kc \<lparr>cy_reg = reg, cy_guards = [], cy_opened = 0\<rparr>"
  shows "conn_inv m kg kc s"
  using assms(1) by induction (auto intro: assms(3) conn_step_inv [OF _ _ assms(2)])

lemma conn_new_inv:
  assumes "scalars_inv reg" and "is_conn kind"
    and "scalars_find reg (ScalarName kind GaugeKind name) = None"
    and "scalars_find reg (ScalarName kind CounterKind name) = None"
    and "conn_new kind name reg = Inr (m, reg')"
  shows "conn_inv m (ScalarName kind GaugeKind name) (ScalarName kind CounterKind name)
    \<lparr>cy_reg = reg', cy_guards = [], cy_opened = 0\<rparr>"
  by (rule conn_new_fresh [OF assms(1-4)]) (use assms(5) in \<open>simp add: conn_inv_def\<close>)

text \<open>What a list of calls contributes to the two cells of a handle.\<close>

lemma conn_steps_sums:
  assumes "gm_item (co_current m) \<noteq> cm_item (co_total m)"
  shows "(\<Sum>z\<leftarrow>concat (map (conn_steps m) calls). step_add (gm_item (co_current m)) z) =
      word_of_nat (count_list calls Connect) - word_of_nat (count_list calls Disconnect)"
    and "(\<Sum>z\<leftarrow>concat (map (conn_steps m) calls). step_add (cm_item (co_total m)) z) =
      word_of_nat (count_list calls Connect)"
proof (induction calls)
  case (Cons c calls)
  {
    case 1
    show ?case using assms Cons.IH(1) by (cases c) simp_all
  next
    case 2
    show ?case using assms Cons.IH(2) by (cases c) simp_all
  }
qed simp_all

lemma concat_map_concat:
  "concat (map (\<lambda>xs. concat (map f xs)) xss) = concat (map f (concat xss))"
  by (induction xss) simp_all

lemma sum_list_perm:
  fixes f :: "'a \<Rightarrow> 'b::comm_monoid_add"
  shows "mset xs = mset ys \<Longrightarrow> (\<Sum>x\<leftarrow>xs. f x) = (\<Sum>x\<leftarrow>ys. f x)"
  by (metis mset_map sum_mset_sum_list)

lemma validate_iff:
  "validate kind = Inr () \<longleftrightarrow> (\<forall>code. kind = Api code \<longrightarrow> 100 \<le> unat code \<and> unat code \<le> 599)"
  by (cases kind) (auto simp: valid_status_def assert_or_def word_le_nat_alt)

lemma validate_panics: "validate kind \<noteq> Inr () \<Longrightarrow> validate kind = Inl (AssertFailed ''invalid HTTP status code'')"
  by (cases kind) (auto simp: assert_or_def split: if_splits)

text \<open>A registration returns the handle of its identity, or panics on the kind.\<close>

lemma scalars_do_outcome:
  assumes "scalars_inv reg"
  shows "validate (scalar_key_kind k) = Inr () \<Longrightarrow> \<exists>p reg'. scalars_do k reg = Inr (p, reg') \<and> scalars_inv reg' \<and>
      scalars_find reg' k = Some p \<and> (\<forall>k' q. scalars_find reg k' = Some q \<longrightarrow> scalars_find reg' k' = Some q)"
    and "validate (scalar_key_kind k) \<noteq> Inr () \<Longrightarrow> scalars_do k reg = Inl (AssertFailed ''invalid HTTP status code'')"
proof -
  assume valid: "validate (scalar_key_kind k) = Inr ()"
  obtain p reg' where "scalars_do k reg = Inr (p, reg')" "scalars_inv reg'"
    "scalars_find reg' = (scalars_find reg)(k \<mapsto> p)"
    "\<And>k' q. scalars_find reg k' = Some q \<Longrightarrow> scalars_find reg' k' = Some q"
    by (rule scalars_do_total [OF assms valid]) blast
  then show "\<exists>p reg'. scalars_do k reg = Inr (p, reg') \<and> scalars_inv reg' \<and>
      scalars_find reg' k = Some p \<and> (\<forall>k' q. scalars_find reg k' = Some q \<longrightarrow> scalars_find reg' k' = Some q)"
    by (intro exI [of _ p] exI [of _ reg']) simp
next
  assume "validate (scalar_key_kind k) \<noteq> Inr ()"
  then show "scalars_do k reg = Inl (AssertFailed ''invalid HTTP status code'')"
    by (intro scalars_do_panics validate_panics)
qed

lemma scalars_do_twice:
  assumes "scalars_inv reg" and "validate (scalar_key_kind k) = Inr ()" and "validate (scalar_key_kind k') = Inr ()"
  obtains p r1 q r2 where "scalars_do k reg = Inr (p, r1)" and "scalars_do k' r1 = Inr (q, r2)" and "scalars_inv r2"
    and "scalars_find r2 k = Some p" and "scalars_find r2 k' = Some q"
proof -
  from scalars_do_outcome(1) [OF assms(1,2)] obtain p r1 where
    p: "scalars_do k reg = Inr (p, r1)" "scalars_inv r1" "scalars_find r1 k = Some p" by (elim exE conjE)
  from scalars_do_outcome(1) [OF p(2) assms(3)] obtain q r2 where
    "scalars_do k' r1 = Inr (q, r2)" "scalars_inv r2" "scalars_find r2 k' = Some q"
    "\<forall>k' q. scalars_find r1 k' = Some q \<longrightarrow> scalars_find r2 k' = Some q" by (elim exE conjE)
  with p show thesis by (intro that [of p r1 q r2]) simp_all
qed

section \<open>Properties\<close>

text \<open>C26: Starting from an empty scalar registry, any sequence of registrations with valid
  kinds succeeds, whatever the hash function does: two registrations return the same slot exactly
  when kind, storage kind and name (or full labels) agree, so a counter and a gauge never share an
  atomic; all slots start at zero; and \<open>len\<close> counts the distinct identities.\<close>

theorem scalar_registrations:
  assumes "\<forall>k \<in> set ks. validate (scalar_key_kind k) = Inr ()"
  shows "\<exists>ps reg. run_all scalars_do ks (scalar_registry_new hasher) = Inr (ps, reg) \<and>
    scalars_inv reg \<and> length ps = length ks \<and>
    (\<forall>i < length ks. \<forall>j < length ks. ps ! i = ps ! j \<longleftrightarrow> ks ! i = ks ! j) \<and>
    (\<forall>i < length ks. scalar_load (ps ! i) reg = Inr 0) \<and>
    scalar_len reg = Inr (card (set ks))"
proof -
  let ?put = "\<lambda>xs. \<lparr>sr_shards = xs, sr_hasher = hasher\<rparr>"
  let ?do = "\<lambda>k. on_shard (shard_index (hasher k)) (scalar_do k)"
  let ?xs = "map scalar_shard_new [0..<SHARD_COUNT]"
  have lift: "run_all scalars_do ks (?put ?xs) = res_bind (run_all ?do ks ?xs) (\<lambda>(hs, x). Inr (hs, ?put x))"
    by (rule run_all_lift) (simp add: scalars_do_eq assms)
  have inv0: "shards_inv scalar_shard_inv scalar_lookup ss_region (\<lambda>k. shard_index (hasher k)) 64 ?xs"
    using scalars_inv_new [of hasher] by (simp add: scalars_inv_def scalar_registry_new_def)
  have log0: "concat (map scalar_log ?xs) = []"
    by (simp add: scalar_log_def scalar_shard_new_def)
  from scalar_sharded.all.run_all_from_empty [OF inv0 log0, of ks] obtain ps ys where
    r: "run_all ?do ks ?xs = Inr (ps, ys)"
    "shards_inv scalar_shard_inv scalar_lookup ss_region (\<lambda>k. shard_index (hasher k)) 64 ys"
    "length ps = length ks"
    "\<forall>i < length ks. \<forall>j < length ks. ps ! i = ps ! j \<longleftrightarrow> ks ! i = ks ! j"
    "\<forall>i < length ks. shards_slot scalar_slot sp_region ys (ps ! i) = Inr 0"
    "length (concat (map scalar_log ys)) = card ((\<lambda>k. k) ` set ks)" by (elim exE conjE)
  have inv: "scalars_inv (?put ys)" using r(2) by (simp add: scalars_inv_def)
  show ?thesis
  proof (intro exI conjI allI impI)
    show "run_all scalars_do ks (scalar_registry_new hasher) = Inr (ps, ?put ys)"
      using lift r(1) by (simp add: scalar_registry_new_def)
    show "scalars_inv (?put ys)" by (rule inv)
    show "ps ! i = ps ! j \<longleftrightarrow> ks ! i = ks ! j" if "i < length ks" "j < length ks" for i j
      using r(4) that by blast
    show "scalar_load (ps ! i) (?put ys) = Inr 0" if "i < length ks" for i
      using r(5) that by (simp add: scalar_load_def)
    show "scalar_len (?put ys) = Inr (card (set ks))"
      using scalar_visit_ok(1) [OF inv] r(6) by (simp add: scalars_log_def del: length_concat)
  qed (rule r(3))
qed

theorem scalar_registrations_witness:
  "\<exists>ps reg. run_all scalars_do
     [ScalarName (Redis Conn) GaugeKind ''cache'', ScalarName (Redis Conn) CounterKind ''cache'',
      ScalarName (Redis Conn) GaugeKind ''cache'']
     (scalar_registry_new (\<lambda>_. 7)) = Inr (ps, reg) \<and>
   ps ! 0 = ps ! 2 \<and> ps ! 0 \<noteq> ps ! 1 \<and> scalar_len reg = Inr 2"
proof -
  let ?ks = "[ScalarName (Redis Conn) GaugeKind ''cache'', ScalarName (Redis Conn) CounterKind ''cache'',
      ScalarName (Redis Conn) GaugeKind ''cache'']"
  have "\<forall>k \<in> set ?ks. validate (scalar_key_kind k) = Inr ()" by simp
  from scalar_registrations [where ks = ?ks and hasher = "\<lambda>_. 7", OF this]
  obtain ps reg where r: "run_all scalars_do ?ks (scalar_registry_new (\<lambda>_. 7)) = Inr (ps, reg)"
    "\<forall>i < length ?ks. \<forall>j < length ?ks. ps ! i = ps ! j \<longleftrightarrow> ?ks ! i = ?ks ! j"
    and len: "scalar_len reg = Inr (card (set ?ks))" by (elim exE conjE)
  have "ps ! 0 = ps ! 2" "ps ! 0 \<noteq> ps ! 1"
    using r(2) [rule_format, of 0 2] r(2) [rule_format, of 0 1] by simp_all
  moreover have "card (set ?ks) = 2" by (simp add: card_insert_if)
  ultimately show ?thesis using r(1) len by (intro exI [of _ ps] exI [of _ reg] conjI) simp_all
qed

text \<open>C9: Connection accounting. For a connection handle on fresh cells, in every state reached by
  opening guards, dropping guards (each at most once), registering further scalars and updating
  other cells in any order, \<open>current\<close> is the number of live guards and \<open>total\<close> the number of guards
  ever opened (as 64-bit counters); opening another guard and dropping any live one never fails.\<close>

theorem connection_guards:
  assumes "scalars_inv reg0" and "is_conn kind"
    and "scalars_find reg0 (ScalarName kind GaugeKind name) = None"
    and "scalars_find reg0 (ScalarName kind CounterKind name) = None"
    and "conn_new kind name reg0 = Inr (m, reg)" and "conn_reach m reg s"
  shows "conn_current m (cy_reg s) = Inr (word_of_nat (length (cy_guards s))) \<and>
    conn_total m (cy_reg s) = Inr (word_of_nat (cy_opened s)) \<and>
    (\<exists>g reg'. connection m (cy_reg s) = Inr (g, reg')) \<and>
    (\<forall>g \<in> set (cy_guards s). \<exists>reg'. guard_drop g (cy_reg s) = Inr reg')"
proof -
  let ?g = "ScalarName kind GaugeKind name" and ?c = "ScalarName kind CounterKind name"
  have "conn_inv m ?g ?c s"
    by (rule conn_reach_inv [OF assms(6) _ conn_new_inv [OF assms(1-5)]]) simp
  then have s: "scalars_inv (cy_reg s)" "scalars_find (cy_reg s) ?g = Some (gm_item (co_current m))"
    "scalars_find (cy_reg s) ?c = Some (cm_item (co_total m))" "\<forall>g \<in> set (cy_guards s). cg_metric g = m"
    "conn_current m (cy_reg s) = Inr (word_of_nat (length (cy_guards s)))"
    "conn_total m (cy_reg s) = Inr (word_of_nat (cy_opened s))"
    by (simp_all add: conn_inv_def)
  note conn = connected_load [OF s(1,2,3) _ s(5,6)]
  have "\<exists>g reg'. connection m (cy_reg s) = Inr (g, reg')"
    using conn(1) by (auto simp: connection_def)
  moreover have "\<exists>reg'. guard_drop g (cy_reg s) = Inr reg'" if "g \<in> set (cy_guards s)" for g
    using conn(2) that s(4) by (auto simp: guard_drop_def)
  ultimately show ?thesis using s(5,6) by simp
qed

theorem connection_guards_witness:
  "\<exists>m reg g1 r1 g2 r2 r3.
     conn_new (Mysql Conn) ''db'' (scalar_registry_new (\<lambda>_. 3)) = Inr (m, reg) \<and>
     connection m reg = Inr (g1, r1) \<and> connection m r1 = Inr (g2, r2) \<and> guard_drop g1 r2 = Inr r3 \<and>
     conn_current m r3 = Inr 1 \<and> conn_total m r3 = Inr 2"
proof -
  let ?new = "scalar_registry_new (\<lambda>_. 3)"
  obtain m reg where m: "conn_new (Mysql Conn) ''db'' ?new = Inr (m, reg)"
    by (rule conn_new_fresh [OF scalars_inv_new [of "\<lambda>_. 3"], of "Mysql Conn" "''db''"]) simp_all
  note guards = connection_guards [OF scalars_inv_new _ _ _ m, simplified]
  note load = conn_reach.starts [of m reg]
  obtain g1 r1 where g1: "connection m reg = Inr (g1, r1)" using guards [OF load] by auto
  have s1: "conn_reach m reg \<lparr>cy_reg = r1, cy_guards = [g1], cy_opened = 1\<rparr>"
    using conn_reach.steps [OF load conn_step.opens, of g1 r1] g1 by simp
  obtain g2 r2 where g2: "connection m r1 = Inr (g2, r2)" using guards [OF s1] by auto
  have s2: "conn_reach m reg \<lparr>cy_reg = r2, cy_guards = [g2, g1], cy_opened = 2\<rparr>"
    using conn_reach.steps [OF s1 conn_step.opens, of g2 r2] g2 by (simp add: numeral_2_eq_2)
  obtain r3 where g3: "guard_drop g1 r2 = Inr r3" using guards [OF s2] by auto
  have s3: "conn_reach m reg \<lparr>cy_reg = r3, cy_guards = [g2], cy_opened = 2\<rparr>"
    using conn_reach.steps [OF s2 conn_step.drops [of _ "[g2]" g1 "[]"], of r3] g3 by simp
  show ?thesis using m g1 g2 g3 guards [OF s3] by auto
qed

text \<open>C25: Threads that open and close connections through copies of one handle lose nothing.
  \<open>connected\<close> and \<open>disconnected\<close> are the atomic additions of their \<open>conn_steps\<close>, one after the other, and
  these additions may interleave in any way between threads; afterwards \<open>current\<close> has moved by opens
  minus closes and \<open>total\<close> by the opens, just as if the calls had run one at a time.\<close>

theorem concurrent_connections:
  assumes "scalars_inv reg" and "scalars_find reg kg = Some (gm_item (co_current m))"
    and "scalars_find reg kc = Some (cm_item (co_total m))" and "kg \<noteq> kc"
    and "conn_current m reg = Inr cur" and "conn_total m reg = Inr tot"
    and "interleave (map (\<lambda>calls. concat (map (conn_steps m) calls)) threads) zs"
  shows "(\<forall>r. connected m r = run_steps scalar_act (conn_steps m Connect) r) \<and>
    (\<forall>r. disconnected m r = run_steps scalar_act (conn_steps m Disconnect) r) \<and>
    (\<exists>reg'. run_steps scalar_act zs reg = Inr reg' \<and>
      conn_current m reg' = Inr (cur + word_of_nat (count_list (concat threads) Connect)
        - word_of_nat (count_list (concat threads) Disconnect)) \<and>
      conn_total m reg' = Inr (tot + word_of_nat (count_list (concat threads) Connect)) \<and>
      (\<exists>reg''. run_steps (\<lambda>c. case c of Connect \<Rightarrow> connected m | Disconnect \<Rightarrow> disconnected m) (concat threads) reg =
           Inr reg'' \<and> conn_current m reg'' = conn_current m reg' \<and> conn_total m reg'' = conn_total m reg'))"
proof -
  let ?g = "gm_item (co_current m)" and ?c = "cm_item (co_total m)"
  let ?zs = "concat (map (conn_steps m) (concat threads))"
  have perm: "mset zs = mset ?zs"
    using mset_interleave [OF assms(7)] by (simp only: concat_map_concat)
  have neq: "?g \<noteq> ?c" using scalars_find_inj [OF assms(1,2)] assms(3,4) by auto
  have "step_ptr z \<in> ran (scalars_find reg)" if "z \<in> set zs" for z
  proof -
    have "z \<in> set ?zs" using that mset_eq_setD [OF perm] by simp
    then obtain call where "z \<in> set (conn_steps m call)" by auto
    then show ?thesis using assms(2,3) by (cases call) (auto simp: ran_def)
  qed
  note ran = this
  note sums = sum_list_perm [OF perm] conn_steps_sums [OF neq]
  have one: "\<exists>reg'. run_steps scalar_act ys reg = Inr reg' \<and>
      conn_current m reg' = Inr (cur + word_of_nat (count_list (concat threads) Connect)
        - word_of_nat (count_list (concat threads) Disconnect)) \<and>
      conn_total m reg' = Inr (tot + word_of_nat (count_list (concat threads) Connect))"
    if ys: "mset ys = mset zs" for ys
  proof -
    have "step_ptr z \<in> ran (scalars_find reg)" if "z \<in> set ys" for z
      using ran that mset_eq_setD [OF ys] by blast
    from run_adds [OF assms(1) this] obtain reg' where r: "run_steps scalar_act ys reg = Inr reg'"
      "\<forall>p \<in> ran (scalars_find reg). \<forall>v. scalar_load p reg = Inr v \<longrightarrow>
         scalar_load p reg' = Inr (v + (\<Sum>z\<leftarrow>ys. step_add p z))" by blast
    then show ?thesis
      using r(2) [rule_format, of ?g cur] r(2) [rule_format, of ?c tot] assms(2,3,5,6)
      by (simp add: sum_list_perm [OF ys] sums conn_current_def conn_total_def gauge_get_def counter_get_def
          ranI algebra_simps)
  qed
  from one [OF refl] one [OF perm [symmetric]] show ?thesis
    unfolding connected_calls by (auto simp: connected_steps)
qed


theorem concurrent_connections_witness:
  "\<exists>m reg reg'. conn_new (Redis Conn) ''cache'' (scalar_registry_new (\<lambda>_. 0)) = Inr (m, reg) \<and>
     run_steps scalar_act
       [AddTo (gm_item (co_current m)) 1, AddTo (gm_item (co_current m)) (- 1),
        AddTo (cm_item (co_total m)) 1] reg = Inr reg' \<and>
     conn_current m reg' = Inr 0 \<and> conn_total m reg' = Inr 1 \<and>
     connected m reg = run_steps scalar_act [AddTo (gm_item (co_current m)) 1, AddTo (cm_item (co_total m)) 1] reg"
proof -
  obtain m reg where m: "conn_new (Redis Conn) ''cache'' (scalar_registry_new (\<lambda>_. 0)) = Inr (m, reg)"
    "scalars_inv reg"
    "scalars_find reg (ScalarName (Redis Conn) GaugeKind ''cache'') = Some (gm_item (co_current m))"
    "scalars_find reg (ScalarName (Redis Conn) CounterKind ''cache'') = Some (cm_item (co_total m))"
    "conn_current m reg = Inr 0" "conn_total m reg = Inr 0"
    by (rule conn_new_fresh [OF scalars_inv_new [of "\<lambda>_. 0"], of "Redis Conn" "''cache''"]) simp_all
  have "interleave (map (\<lambda>calls. concat (map (conn_steps m) calls)) [[Connect], [Disconnect]])
    [AddTo (gm_item (co_current m)) 1, AddTo (gm_item (co_current m)) (- 1), AddTo (cm_item (co_total m)) 1]"
    by (simp, rule interleave.turn [of 0], simp, simp, rule interleave.turn [of 1], simp, simp,
        rule interleave.turn [of 0], simp, simp, simp add: interleave.finished)
  from concurrent_connections [OF m(2-4) _ m(5,6) this] m(1) show ?thesis by auto
qed

text \<open>C28: Gauges are signed and wrap at 64 bits like the atomic that stores them. Through a
  registered handle, \<open>add\<close> adds the signed amount (exactly, when the sum fits an \<open>i64\<close>), \<open>set\<close>
  replaces the value, \<open>get\<close> reads it back, none of them can fail, and no other cell changes.\<close>

theorem gauge_semantics:
  assumes "scalars_inv reg" and "scalars_find reg k = Some (gm_item m)" and "gauge_get m reg = Inr v"
  shows "(\<exists>reg'. gauge_add d m reg = Inr reg' \<and> gauge_get m reg' = Inr (v + d) \<and>
      (- (2 ^ 63) \<le> sint v + sint d \<and> sint v + sint d < 2 ^ 63 \<longrightarrow> sint (v + d) = sint v + sint d) \<and>
      (\<forall>k' p. scalars_find reg k' = Some p \<longrightarrow> k' \<noteq> k \<longrightarrow> scalar_load p reg' = scalar_load p reg)) \<and>
    (\<exists>reg'. gauge_set d m reg = Inr reg' \<and> gauge_get m reg' = Inr d \<and>
      (\<forall>k' p. scalars_find reg k' = Some p \<longrightarrow> k' \<noteq> k \<longrightarrow> scalar_load p reg' = scalar_load p reg))"
proof
  have exact: "sint (v + d) = sint v + sint d"
    if "- (2 ^ 63) \<le> sint v + sint d" "sint v + sint d < 2 ^ 63"
    using that by (simp add: sint_word_ariths signed_take_bit_int_eq_self)
  obtain r1 w where "scalar_rmw (gm_item m) (\<lambda>c. c + d) reg = Inr r1" "scalar_load (gm_item m) reg = Inr w"
    "scalar_load (gm_item m) r1 = Inr (w + d)"
    "\<And>k' q. scalars_find reg k' = Some q \<Longrightarrow> k' \<noteq> k \<Longrightarrow> scalar_load q r1 = scalar_load q reg"
    by (rule scalar_rmw_total [OF assms(1,2), of "\<lambda>c. c + d"]) blast
  with assms(3) exact show "\<exists>reg'. gauge_add d m reg = Inr reg' \<and> gauge_get m reg' = Inr (v + d) \<and>
      (- (2 ^ 63) \<le> sint v + sint d \<and> sint v + sint d < 2 ^ 63 \<longrightarrow> sint (v + d) = sint v + sint d) \<and>
      (\<forall>k' p. scalars_find reg k' = Some p \<longrightarrow> k' \<noteq> k \<longrightarrow> scalar_load p reg' = scalar_load p reg)"
    by (intro exI [of _ r1]) (simp add: gauge_add_def fetch_add_def gauge_get_def)
  obtain r2 where "scalar_rmw (gm_item m) (\<lambda>_. d) reg = Inr r2" "scalar_load (gm_item m) r2 = Inr d"
    "\<And>k' q. scalars_find reg k' = Some q \<Longrightarrow> k' \<noteq> k \<Longrightarrow> scalar_load q r2 = scalar_load q reg"
    by (rule scalar_rmw_total [OF assms(1,2), of "\<lambda>_. d"]) blast
  then show "\<exists>reg'. gauge_set d m reg = Inr reg' \<and> gauge_get m reg' = Inr d \<and>
      (\<forall>k' p. scalars_find reg k' = Some p \<longrightarrow> k' \<noteq> k \<longrightarrow> scalar_load p reg' = scalar_load p reg)"
    by (intro exI [of _ r2]) (simp add: gauge_set_def atomic_store_def gauge_get_def)
qed

theorem gauge_semantics_witness:
  "\<exists>m reg reg'. gauge_new Log ''depth'' (scalar_registry_new (\<lambda>_. 0)) = Inr (m, reg) \<and>
     gauge_add (- 2) m reg = Inr reg' \<and> map_sum id sint (gauge_get m reg') = Inr (- 2)"
proof -
  let ?k = "ScalarName Log GaugeKind ''depth''"
  obtain p reg where p: "scalars_do ?k (scalar_registry_new (\<lambda>_. 0)) = Inr (p, reg)" "scalars_inv reg"
    "scalars_find reg = (scalars_find (scalar_registry_new (\<lambda>_. 0)))(?k \<mapsto> p)" "scalar_load p reg = Inr 0"
    using scalars_do_fresh [OF scalars_inv_new [of "\<lambda>_. 0"], of ?k] by auto
  let ?m = "\<lparr>gm_item = p\<rparr>"
  have "gauge_new Log ''depth'' (scalar_registry_new (\<lambda>_. 0)) = Inr (?m, reg)"
    using p(1) by (simp add: gauge_new_def)
  moreover obtain reg' where "gauge_add (- 2) ?m reg = Inr reg'" "gauge_get ?m reg' = Inr (0 + - 2)"
    using gauge_semantics [OF p(2), of ?k ?m 0 "- 2"] p(3,4) by (auto simp: gauge_get_def)
  ultimately show ?thesis by (intro exI [of _ ?m] exI [of _ reg] exI [of _ reg']) simp
qed

text \<open>C29: Which constructors panic, and with what. On a well-formed scalar registry the four counter and
  gauge constructors, by name and by labels, return the handle of their identity when the kind is not
  an HTTP status outside 100 to 599 and panic with the message of \<open>validate\<close> otherwise; the two
  connection constructors return the handles of a gauge and a counter when the kind is a resource's
  connection category and panic with their own message otherwise.\<close>

theorem scalar_constructors:
  assumes "scalars_inv reg"
  shows "(if \<forall>code. kind = Api code \<longrightarrow> 100 \<le> unat code \<and> unat code \<le> 599 then
      (\<exists>m reg'. counter_new kind name reg = Inr (m, reg') \<and> scalars_inv reg' \<and>
         scalars_find reg' (ScalarName kind CounterKind name) = Some (cm_item m)) \<and>
      (\<exists>m reg'. counter_new_resource kind labels reg = Inr (m, reg') \<and> scalars_inv reg' \<and>
         scalars_find reg' (ScalarResource kind CounterKind labels) = Some (cm_item m)) \<and>
      (\<exists>m reg'. gauge_new kind name reg = Inr (m, reg') \<and> scalars_inv reg' \<and>
         scalars_find reg' (ScalarName kind GaugeKind name) = Some (gm_item m)) \<and>
      (\<exists>m reg'. gauge_new_resource kind labels reg = Inr (m, reg') \<and> scalars_inv reg' \<and>
         scalars_find reg' (ScalarResource kind GaugeKind labels) = Some (gm_item m))
     else
      counter_new kind name reg = Inl (AssertFailed ''invalid HTTP status code'') \<and>
      counter_new_resource kind labels reg = Inl (AssertFailed ''invalid HTTP status code'') \<and>
      gauge_new kind name reg = Inl (AssertFailed ''invalid HTTP status code'') \<and>
      gauge_new_resource kind labels reg = Inl (AssertFailed ''invalid HTTP status code'')) \<and>
    (if is_conn kind then
      (\<exists>m reg'. conn_new kind name reg = Inr (m, reg') \<and> scalars_inv reg' \<and>
         scalars_find reg' (ScalarName kind GaugeKind name) = Some (gm_item (co_current m)) \<and>
         scalars_find reg' (ScalarName kind CounterKind name) = Some (cm_item (co_total m))) \<and>
      (\<exists>m reg'. conn_new_resource kind labels reg = Inr (m, reg') \<and> scalars_inv reg' \<and>
         scalars_find reg' (ScalarResource kind GaugeKind labels) = Some (gm_item (co_current m)) \<and>
         scalars_find reg' (ScalarResource kind CounterKind labels) = Some (cm_item (co_total m)))
     else
      conn_new kind name reg = Inl (AssertFailed ''ConnMetric requires a resource's Conn category'') \<and>
      conn_new_resource kind labels reg = Inl (AssertFailed ''ConnMetric requires a resource's Conn category''))"
proof (intro conjI, goal_cases)
  note ok = scalars_do_outcome [OF assms]
  note new = counter_new_def counter_new_resource_def gauge_new_def gauge_new_resource_def
  let ?cn = "ScalarName kind CounterKind name" and ?cr = "ScalarResource kind CounterKind labels"
  let ?gn = "ScalarName kind GaugeKind name" and ?gr = "ScalarResource kind GaugeKind labels"
  case 1
  show ?case
  proof (cases "validate kind = Inr ()")
    case True
    obtain p1 r1 where "scalars_do ?cn reg = Inr (p1, r1)" "scalars_inv r1" "scalars_find r1 ?cn = Some p1"
      using ok(1) [of ?cn] True by auto
    moreover obtain p2 r2 where "scalars_do ?cr reg = Inr (p2, r2)" "scalars_inv r2" "scalars_find r2 ?cr = Some p2"
      using ok(1) [of ?cr] True by auto
    moreover obtain p3 r3 where "scalars_do ?gn reg = Inr (p3, r3)" "scalars_inv r3" "scalars_find r3 ?gn = Some p3"
      using ok(1) [of ?gn] True by auto
    moreover obtain p4 r4 where "scalars_do ?gr reg = Inr (p4, r4)" "scalars_inv r4" "scalars_find r4 ?gr = Some p4"
      using ok(1) [of ?gr] True by auto
    ultimately show ?thesis unfolding validate_iff [symmetric] using True by (simp add: new)
  next
    case False
    then show ?thesis
      unfolding validate_iff [symmetric] using ok(2) [of ?cn] ok(2) [of ?cr] ok(2) [of ?gn] ok(2) [of ?gr] by (simp add: new)
  qed
  case 2
  show ?case
  proof (cases "is_conn kind")
    case True
    note valid = validate_conn [OF True]
    obtain p1 r1 q1 s1 where "scalars_do ?gn reg = Inr (p1, r1)" "scalars_do ?cn r1 = Inr (q1, s1)" "scalars_inv s1"
      "scalars_find s1 ?gn = Some p1" "scalars_find s1 ?cn = Some q1"
      by (rule scalars_do_twice [OF assms, of ?gn ?cn]) (simp_all add: valid)
    moreover obtain p2 r2 q2 s2 where "scalars_do ?gr reg = Inr (p2, r2)" "scalars_do ?cr r2 = Inr (q2, s2)"
      "scalars_inv s2" "scalars_find s2 ?gr = Some p2" "scalars_find s2 ?cr = Some q2"
      by (rule scalars_do_twice [OF assms, of ?gr ?cr]) (simp_all add: valid)
    ultimately show ?thesis using True by (simp add: conn_new_def conn_new_resource_def new)
  qed (simp add: conn_new_def conn_new_resource_def assert_or_def)
qed

theorem scalar_constructors_witness:
  "counter_new_resource (Api 99) \<lparr>rl_name = ''x'', rl_endpoint = ''e'', rl_access = None, rl_role = None\<rparr> (scalar_registry_new (\<lambda>_. 0)) = Inl (AssertFailed ''invalid HTTP status code'') \<and>
   (\<exists>m reg'. counter_new (Api 599) ''x'' (scalar_registry_new (\<lambda>_. 0)) = Inr (m, reg')) \<and>
   conn_new (Redis Req) ''x'' (scalar_registry_new (\<lambda>_. 0)) =
     Inl (AssertFailed ''ConnMetric requires a resource's Conn category'')"
proof -
  note c = scalar_constructors [OF scalars_inv_new [of "\<lambda>_. 0"]]
  have "counter_new_resource (Api 99) \<lparr>rl_name = ''x'', rl_endpoint = ''e'', rl_access = None, rl_role = None\<rparr> (scalar_registry_new (\<lambda>_. 0)) =
      Inl (AssertFailed ''invalid HTTP status code'')"
    using c [of "Api 99" "''x''" "\<lparr>rl_name = ''x'', rl_endpoint = ''e'', rl_access = None, rl_role = None\<rparr>"] by simp
  moreover have "\<exists>m reg'. counter_new (Api 599) ''x'' (scalar_registry_new (\<lambda>_. 0)) = Inr (m, reg')"
    using c [of "Api 599" "''x''" "\<lparr>rl_name = ''x'', rl_endpoint = ''e'', rl_access = None, rl_role = None\<rparr>"] by auto
  moreover have "conn_new (Redis Req) ''x'' (scalar_registry_new (\<lambda>_. 0)) =
      Inl (AssertFailed ''ConnMetric requires a resource's Conn category'')"
    using c [of "Redis Req" "''x''" "\<lparr>rl_name = ''x'', rl_endpoint = ''e'', rl_access = None, rl_role = None\<rparr>"] by simp
  ultimately show ?thesis by simp
qed

end
