(* ===== verification/State_Registry.thy ===== *)
theory State_Registry
  imports Metrics_Prelude "HOL-Library.AList"
begin

text \<open>
  The latest process-level RPC state (\<open>src/src/state.rs\<close>): a hash map from identities to hash maps
  of fields, under one mutex. A hash map that is iterated is an association list with distinct keys,
  whose order stands for the unspecified iteration order; the snapshot sorts what it iterates, and
  the property below shows that the order cannot be observed. Keys are distinct, so the unstable
  sort of the code and the stable \<open>sort_key\<close> agree.
\<close>

section \<open>Data\<close>

datatype state_type = RpcState

fun state_metric_type :: "state_type \<Rightarrow> str" where
  "state_metric_type RpcState = ''MOTAN_CLUSTER_STAT''"

record state_identity =
  si_type :: state_type
  si_name :: str

record state_snapshot =
  st_type :: state_type
  st_name :: str
  st_fields :: "(str \<times> str) list"

type_synonym state_fields = "(str \<times> str) list"
type_synonym state_map = "(state_identity \<times> state_fields) list"

section \<open>Operations\<close>

definition state_registry_new :: state_map where
  "state_registry_new = []"

definition state_record :: "state_type \<Rightarrow> str \<Rightarrow> str \<Rightarrow> str \<Rightarrow> state_map \<Rightarrow> state_map" where
  "state_record ty name key value states =
     (let identity = \<lparr>si_type = ty, si_name = name\<rparr>;
          fields = (case map_of states identity of None \<Rightarrow> [] | Some fs \<Rightarrow> fs);
          states' = (case map_of states identity of
              None \<Rightarrow> AList.update identity [] states | Some _ \<Rightarrow> states)
      in if map_of fields key = Some value then states'
         else AList.update identity (AList.update key value fields) states')"

definition capture_state :: "state_identity \<times> state_fields \<Rightarrow> state_snapshot" where
  "capture_state e = \<lparr>st_type = si_type (fst e), st_name = si_name (fst e), st_fields = snd e\<rparr>"

definition sort_fields :: "state_snapshot \<Rightarrow> state_snapshot" where
  "sort_fields s = s\<lparr>st_fields := sort_key fst (st_fields s)\<rparr>"

definition snapshot_key :: "state_snapshot \<Rightarrow> str \<times> str" where
  "snapshot_key s = (state_metric_type (st_type s), st_name s)"

definition state_snapshots :: "state_map \<Rightarrow> state_snapshot list" where
  "state_snapshots states = map sort_fields (sort_key snapshot_key (map capture_state states))"

section \<open>Invariant and abstraction\<close>

definition states_inv :: "state_map \<Rightarrow> bool" where
  "states_inv states \<longleftrightarrow> distinct (map fst states) \<and> (\<forall>e \<in> set states. distinct (map fst (snd e)))"

text \<open>The abstract contents: which fields an identity has, and their latest values.\<close>

definition state_get :: "state_map \<Rightarrow> state_identity \<Rightarrow> str \<Rightarrow> str option" where
  "state_get states identity key = Option.bind (map_of states identity) (\<lambda>fs. map_of fs key)"

section \<open>Lemmas\<close>

lemma states_inv_new: "states_inv state_registry_new"
  by (simp add: states_inv_def state_registry_new_def)

lemma states_inv_fields:
  "states_inv states \<Longrightarrow> map_of states identity = Some fs \<Longrightarrow> distinct (map fst fs)"
  by (auto simp: states_inv_def dest: map_of_SomeD)

lemma states_inv_update:
  "states_inv states \<Longrightarrow> distinct (map fst fs) \<Longrightarrow> states_inv (AList.update identity fs states)"
proof -
  assume inv: "states_inv states" and fs: "distinct (map fst fs)"
  have d: "distinct (map fst (AList.update identity fs states))"
    using inv by (simp add: states_inv_def AList.distinct_update)
  have "distinct (map fst (snd e))" if "e \<in> set (AList.update identity fs states)" for e
  proof -
    have "map_of (AList.update identity fs states) (fst e) = Some (snd e)"
      using that d by (simp add: map_of_eq_Some_iff)
    then have "snd e = fs \<or> map_of states (fst e) = Some (snd e)"
      by (auto simp: AList.update_conv' split: if_splits)
    with fs states_inv_fields [OF inv] show ?thesis by blast
  qed
  with d show ?thesis by (simp add: states_inv_def)
qed

lemma states_inv_record: "states_inv states \<Longrightarrow> states_inv (state_record ty name key value states)"
  using states_inv_fields [of states "\<lparr>si_type = ty, si_name = name\<rparr>"]
  by (auto simp: state_record_def Let_def states_inv_update AList.distinct_update split: option.splits)

lemma state_type_single: "ty = RpcState"
  by (cases ty) simp

lemma snapshot_key_capture:
  "snapshot_key (capture_state e) = (''MOTAN_CLUSTER_STAT'', si_name (fst e))"
  by (cases "si_type (fst e)") (simp add: snapshot_key_def capture_state_def)

lemma identity_eq_iff: "i = j \<longleftrightarrow> si_name i = si_name j" for i j :: state_identity
  using state_type_single [of "si_type i"] state_type_single [of "si_type j"] by (cases i; cases j) simp

lemma snapshot_key_inj:
  assumes "states_inv states"
  shows "distinct (map snapshot_key (map capture_state states))"
proof -
  have "inj_on (\<lambda>i :: state_identity. (''MOTAN_CLUSTER_STAT'', si_name i)) (set (map fst states))"
    by (rule inj_onI) (simp add: identity_eq_iff)
  then have "distinct (map (\<lambda>i :: state_identity. (''MOTAN_CLUSTER_STAT'', si_name i)) (map fst states))"
    using assms unfolding states_inv_def by (subst distinct_map) blast
  then show ?thesis by (simp add: comp_def snapshot_key_capture)
qed

lemma sort_key_contents_unique:
  assumes "distinct (map f xs)" "distinct (map f ys)" and "set xs = set ys"
  shows "sort_key f xs = sort_key f ys"
proof (rule map_sorted_distinct_set_unique [of f])
  show "inj_on f (set (sort_key f xs) \<union> set (sort_key f ys))"
    using assms by (simp add: distinct_map)
qed (use assms in \<open>simp_all add: distinct_map\<close>)

lemma same_map_same_set:
  "distinct (map fst xs) \<Longrightarrow> distinct (map fst ys) \<Longrightarrow> map_of xs = map_of ys \<Longrightarrow> set xs = set ys"
  by (metis map_of_eq_Some_iff subrelI subset_antisym)

lemma capture_fields [simp]:
  "sort_fields (capture_state e) =
     \<lparr>st_type = si_type (fst e), st_name = si_name (fst e), st_fields = sort_key fst (snd e)\<rparr>"
  by (simp add: sort_fields_def capture_state_def)

lemma snapshot_key_sort_fields [simp]: "snapshot_key (sort_fields s) = snapshot_key s"
  by (simp add: snapshot_key_def sort_fields_def)

lemma set_state_snapshots:
  "set (state_snapshots states) = (\<lambda>e. sort_fields (capture_state e)) ` set states"
  by (simp add: state_snapshots_def image_image)

lemma state_snapshots_sorted:
  assumes "states_inv states"
  shows "sorted (map snapshot_key (state_snapshots states))"
    and "distinct (map snapshot_key (state_snapshots states))"
proof -
  have map: "map snapshot_key (state_snapshots states) =
      map snapshot_key (sort_key snapshot_key (map capture_state states))"
    by (simp add: state_snapshots_def comp_def)
  show "sorted (map snapshot_key (state_snapshots states))"
    unfolding map by simp
  have "mset (map snapshot_key (sort_key snapshot_key (map capture_state states))) =
      mset (map snapshot_key (map capture_state states))"
    by (simp only: mset_map mset_sort)
  then show "distinct (map snapshot_key (state_snapshots states))"
    unfolding map using mset_eq_imp_distinct_iff snapshot_key_inj [OF assms] by blast
qed

lemma state_snapshots_subset:
  assumes "states_inv s" "states_inv t"
    and "\<And>i. map_of s i = None \<longleftrightarrow> map_of t i = None"
    and "\<And>i k. state_get s i k = state_get t i k"
  shows "set (state_snapshots s) \<subseteq> set (state_snapshots t)"
proof
  fix x assume "x \<in> set (state_snapshots s)"
  then obtain i fs where e: "(i, fs) \<in> set s" and x: "x = sort_fields (capture_state (i, fs))"
    by (auto simp: set_state_snapshots)
  have fs: "map_of s i = Some fs" using e assms(1) by (simp add: states_inv_def)
  then obtain gs where gs: "map_of t i = Some gs" using assms(3) [of i] by (cases "map_of t i") auto
  have "map_of fs = map_of gs"
    using assms(4) [of i] fs gs by (simp add: state_get_def fun_eq_iff)
  then have "sort_key fst fs = sort_key fst gs"
    using states_inv_fields [OF assms(1) fs] states_inv_fields [OF assms(2) gs]
    by (intro sort_key_contents_unique same_map_same_set) auto
  then have "x = sort_fields (capture_state (i, gs))" by (simp add: x)
  then show "x \<in> set (state_snapshots t)"
    unfolding set_state_snapshots using map_of_SomeD [OF gs] by blast
qed

lemma state_snapshot_fields:
  assumes "states_inv states" and "x \<in> set (state_snapshots states)"
  shows "sorted (map fst (st_fields x))" and "distinct (map fst (st_fields x))"
    and "(k, v) \<in> set (st_fields x) \<longleftrightarrow>
      state_get states \<lparr>si_type = st_type x, si_name = st_name x\<rparr> k = Some v"
proof -
  from assms(2) obtain i fs where e: "(i, fs) \<in> set states" and x: "x = sort_fields (capture_state (i, fs))"
    by (auto simp: set_state_snapshots)
  have fs: "map_of states i = Some fs" using e assms(1) by (simp add: states_inv_def)
  note d = states_inv_fields [OF assms(1) fs]
  show "sorted (map fst (st_fields x))" by (simp add: x)
  have "mset (map fst (sort_key fst fs)) = mset (map fst fs)" by (simp only: mset_map mset_sort)
  then show "distinct (map fst (st_fields x))" using d mset_eq_imp_distinct_iff by (fastforce simp: x)
  show "(k, v) \<in> set (st_fields x) \<longleftrightarrow>
      state_get states \<lparr>si_type = st_type x, si_name = st_name x\<rparr> k = Some v"
    using d fs by (cases i) (simp add: x state_get_def)
qed

lemma state_get_snapshot:
  assumes "state_get states \<lparr>si_type = ty, si_name = name\<rparr> k = Some v"
  obtains x where "x \<in> set (state_snapshots states)" and "st_type x = ty" and "st_name x = name"
proof -
  from assms obtain fs where "(\<lparr>si_type = ty, si_name = name\<rparr>, fs) \<in> set states"
    by (auto simp: state_get_def bind_eq_Some_conv dest: map_of_SomeD)
  then have "sort_fields (capture_state (\<lparr>si_type = ty, si_name = name\<rparr>, fs)) \<in> set (state_snapshots states)"
    unfolding set_state_snapshots by (rule imageI)
  then show thesis by (rule that) simp_all
qed

text \<open>The identities and the fields of a snapshot are those of the registry.\<close>

lemma state_snapshot_identity:
  "(\<exists>x \<in> set (state_snapshots states). st_type x = ty \<and> st_name x = name) \<longleftrightarrow>
     map_of states \<lparr>si_type = ty, si_name = name\<rparr> \<noteq> None"
proof -
  have "(\<exists>x \<in> set (state_snapshots states). st_type x = ty \<and> st_name x = name) \<longleftrightarrow>
      (\<exists>e \<in> set states. si_type (fst e) = ty \<and> si_name (fst e) = name)"
    by (simp add: set_state_snapshots)
  also have "\<dots> \<longleftrightarrow> \<lparr>si_type = ty, si_name = name\<rparr> \<in> fst ` set states"
  proof
    assume "\<exists>e \<in> set states. si_type (fst e) = ty \<and> si_name (fst e) = name"
    then obtain e where e: "e \<in> set states" "si_type (fst e) = ty" "si_name (fst e) = name" by blast
    then have "fst e = \<lparr>si_type = ty, si_name = name\<rparr>" by (cases "fst e") simp
    with e(1) show "\<lparr>si_type = ty, si_name = name\<rparr> \<in> fst ` set states" by (metis image_eqI)
  next
    assume "\<lparr>si_type = ty, si_name = name\<rparr> \<in> fst ` set states"
    then obtain e where "e \<in> set states" "\<lparr>si_type = ty, si_name = name\<rparr> = fst e" by (elim imageE)
    then show "\<exists>e \<in> set states. si_type (fst e) = ty \<and> si_name (fst e) = name"
      by (intro bexI [of _ e]) (simp_all flip: \<open>_ = fst e\<close>)
  qed
  finally show ?thesis by (simp add: map_of_eq_None_iff)
qed

lemma state_snapshot_field:
  assumes "states_inv states"
  shows "(\<exists>x \<in> set (state_snapshots states). st_type x = ty \<and> st_name x = name \<and> (k, v) \<in> set (st_fields x)) \<longleftrightarrow>
    state_get states \<lparr>si_type = ty, si_name = name\<rparr> k = Some v"
proof
  assume get: "state_get states \<lparr>si_type = ty, si_name = name\<rparr> k = Some v"
  obtain x where x: "x \<in> set (state_snapshots states)" "st_type x = ty" "st_name x = name"
    by (rule state_get_snapshot [OF get])
  moreover have "(k, v) \<in> set (st_fields x)" using state_snapshot_fields(3) [OF assms x(1)] get x(2,3) by simp
  ultimately show "\<exists>x \<in> set (state_snapshots states). st_type x = ty \<and> st_name x = name \<and> (k, v) \<in> set (st_fields x)"
    by blast
next
  assume "\<exists>x \<in> set (state_snapshots states). st_type x = ty \<and> st_name x = name \<and> (k, v) \<in> set (st_fields x)"
  then obtain x where x: "x \<in> set (state_snapshots states)" "st_type x = ty" "st_name x = name"
    "(k, v) \<in> set (st_fields x)" by (elim bexE conjE)
  with state_snapshot_fields(3) [OF assms x(1), of k v]
  show "state_get states \<lparr>si_type = ty, si_name = name\<rparr> k = Some v" by simp
qed

lemma option_eqI_Some: "(\<And>v. x = Some v \<longleftrightarrow> y = Some v) \<Longrightarrow> x = y"
  by (cases x; cases y) auto

section \<open>Properties\<close>

text \<open>C33: Recording an RPC field stores its latest value under its identity and changes no
  other field, keeps one entry per identity and per key, and is idempotent: the early return for an
  unchanged value cannot be told from an insertion.\<close>

theorem state_record_correct:
  assumes "states_inv states"
  shows "states_inv (state_record ty name key value states) \<and>
    state_get (state_record ty name key value states) i k =
      (if i = \<lparr>si_type = ty, si_name = name\<rparr> \<and> k = key then Some value else state_get states i k) \<and>
    state_record ty name key value (state_record ty name key value states) =
      state_record ty name key value states"
proof -
  let ?i = "\<lparr>si_type = ty, si_name = name\<rparr>"
  let ?s = "state_record ty name key value states"
  have "states_inv ?s" using assms by (rule states_inv_record)
  moreover have get: "state_get ?s i k =
      (if i = ?i \<and> k = key then Some value else state_get states i k)" for i k
    by (auto simp: state_record_def state_get_def Let_def AList.update_conv' split: option.splits)
  moreover have "state_record ty name key value ?s = ?s"
    using get [of ?i key]
    by (auto simp: state_get_def Let_def state_record_def [of ty name key "value" ?s] bind_eq_Some_conv)
  ultimately show ?thesis by simp
qed

theorem state_record_correct_witness:
  "state_get (state_record RpcState ''Service'' ''nodes'' ''4'' state_registry_new)
     \<lparr>si_type = RpcState, si_name = ''Service''\<rparr> ''nodes'' = Some ''4''"
  using state_record_correct [OF states_inv_new, of RpcState "''Service''" "''nodes''" "''4''"
      "\<lparr>si_type = RpcState, si_name = ''Service''\<rparr>" "''nodes''"]
  by simp

text \<open>C34: A snapshot determines and is determined by the recorded contents: two registries give the
  same snapshot exactly when they hold the same identities with the same field values, so nothing of the
  iteration order of the hash maps shows and nothing recorded is lost.\<close>

theorem state_snapshots_canonical:
  assumes "states_inv s" "states_inv t"
  shows "state_snapshots s = state_snapshots t \<longleftrightarrow>
    (\<forall>i. map_of s i = None \<longleftrightarrow> map_of t i = None) \<and> (\<forall>i k. state_get s i k = state_get t i k)"
proof
  assume eq: "state_snapshots s = state_snapshots t"
  have "map_of s i = None \<longleftrightarrow> map_of t i = None" for i
    using state_snapshot_identity [of s "si_type i" "si_name i"] state_snapshot_identity [of t "si_type i" "si_name i"]
    by (cases i) (simp add: eq del: not_None_eq)
  moreover have "state_get s i k = state_get t i k" for i k
    using state_snapshot_field [OF assms(1), of "si_type i" "si_name i" k]
      state_snapshot_field [OF assms(2), of "si_type i" "si_name i" k]
    by (cases i) (simp add: eq option_eqI_Some)
  ultimately show "(\<forall>i. map_of s i = None \<longleftrightarrow> map_of t i = None) \<and> (\<forall>i k. state_get s i k = state_get t i k)"
    by blast
next
  assume "(\<forall>i. map_of s i = None \<longleftrightarrow> map_of t i = None) \<and> (\<forall>i k. state_get s i k = state_get t i k)"
  then have "set (state_snapshots s) = set (state_snapshots t)"
    using state_snapshots_subset [OF assms] state_snapshots_subset [OF assms(2,1)]
    by (metis subset_antisym)
  then show "state_snapshots s = state_snapshots t"
    using state_snapshots_sorted [OF assms(1)] state_snapshots_sorted [OF assms(2)]
    by (intro map_sorted_distinct_set_unique [of snapshot_key]) (auto simp: distinct_map)
qed

theorem state_snapshots_canonical_witness:
  "state_snapshots [(\<lparr>si_type = RpcState, si_name = ''b''\<rparr>, [(''y'', ''2''), (''x'', ''1'')]),
       (\<lparr>si_type = RpcState, si_name = ''a''\<rparr>, [])] =
   state_snapshots [(\<lparr>si_type = RpcState, si_name = ''a''\<rparr>, []),
       (\<lparr>si_type = RpcState, si_name = ''b''\<rparr>, [(''x'', ''1''), (''y'', ''2'')])] \<and>
   state_snapshots [(\<lparr>si_type = RpcState, si_name = ''a''\<rparr>, [])] \<noteq> state_snapshots []"
proof
  show "state_snapshots [(\<lparr>si_type = RpcState, si_name = ''b''\<rparr>, [(''y'', ''2''), (''x'', ''1'')]),
       (\<lparr>si_type = RpcState, si_name = ''a''\<rparr>, [])] =
     state_snapshots [(\<lparr>si_type = RpcState, si_name = ''a''\<rparr>, []),
       (\<lparr>si_type = RpcState, si_name = ''b''\<rparr>, [(''x'', ''1''), (''y'', ''2'')])]"
    by (subst state_snapshots_canonical) (auto simp: states_inv_def state_get_def)
  show "state_snapshots [(\<lparr>si_type = RpcState, si_name = ''a''\<rparr>, [])] \<noteq> state_snapshots []"
    by (subst state_snapshots_canonical) (auto simp: states_inv_def)
qed

text \<open>C35: A snapshot is complete and ordered: it lists exactly the recorded identities, each once, in
  the order of type and name, each with its fields in the order of their keys, and a field is in the
  snapshot with a value exactly when that value is the latest one recorded for it.\<close>

theorem state_snapshots_complete:
  assumes "states_inv states"
  shows "sorted (map snapshot_key (state_snapshots states)) \<and>
    distinct (map snapshot_key (state_snapshots states)) \<and>
    (\<forall>x \<in> set (state_snapshots states). sorted (map fst (st_fields x)) \<and> distinct (map fst (st_fields x))) \<and>
    (\<forall>ty name. (\<exists>x \<in> set (state_snapshots states). st_type x = ty \<and> st_name x = name) \<longleftrightarrow>
       \<lparr>si_type = ty, si_name = name\<rparr> \<in> dom (map_of states)) \<and>
    (\<forall>ty name k v. (\<exists>x \<in> set (state_snapshots states). st_type x = ty \<and> st_name x = name \<and> (k, v) \<in> set (st_fields x)) \<longleftrightarrow>
       state_get states \<lparr>si_type = ty, si_name = name\<rparr> k = Some v)"
  using state_snapshots_sorted [OF assms] state_snapshot_fields(1,2) [OF assms]
    state_snapshot_identity [of states] state_snapshot_field [OF assms]
  by (simp add: domIff)

theorem state_snapshots_complete_witness:
  "\<exists>x \<in> set (state_snapshots (state_record RpcState ''b'' ''k'' ''1''
        (state_record RpcState ''a'' ''k'' ''2'' state_registry_new))).
     st_name x = ''a'' \<and> (''k'', ''2'') \<in> set (st_fields x)"
proof -
  let ?states = "state_record RpcState ''b'' ''k'' ''1'' (state_record RpcState ''a'' ''k'' ''2'' state_registry_new)"
  have "states_inv ?states"
    by (simp add: state_record_def state_registry_new_def states_inv_def)
  moreover have "state_get ?states \<lparr>si_type = RpcState, si_name = ''a''\<rparr> ''k'' = Some ''2''"
    by (simp add: state_record_def state_registry_new_def state_get_def)
  ultimately show ?thesis using state_snapshots_complete [of ?states] by blast
qed

end
