(* ===== verification/Registry.thy ===== *)
theory Registry
  imports Metric_Shard Scalar_Registry State_Registry
begin

text \<open>
  The process-wide registry (\<open>Registry\<close> of \<open>src/src/registry.rs\<close>): the timing shards, the scalar
  registry and the named states, with the operations of \<open>Metric\<close> through a handle
  (\<open>src/src/metric.rs\<close>). The keyed hash that selects a shard is a field. A timing metric and the cell
  it points to are read and changed one atomic step at a time.
\<close>

section \<open>State and operations\<close>

record registry =
  rg_scalars :: scalar_registry
  rg_shards :: "shard list"
  rg_states :: state_map
  rg_shard_hasher :: "metric_key \<Rightarrow> u64"

definition registry_new :: "(scalar_key \<Rightarrow> u64) \<Rightarrow> (metric_key \<Rightarrow> u64) \<Rightarrow> registry" where
  "registry_new scalar_hasher shard_hasher =
     \<lparr>rg_scalars = scalar_registry_new scalar_hasher, rg_shards = map shard_new [0..<SHARD_COUNT],
      rg_states = state_registry_new, rg_shard_hasher = shard_hasher\<rparr>"

definition registry_shard :: "registry \<Rightarrow> str \<Rightarrow> metric_type \<Rightarrow> nat" where
  "registry_shard reg name kind = shard_index (rg_shard_hasher reg (NameKey name kind))"

definition registry_register :: "str \<Rightarrow> metric_type \<Rightarrow> registry \<Rightarrow> (metric \<times> registry) result" where
  "registry_register name kind reg =
     res_bind (on_shard (registry_shard reg name kind) (shard_register name kind) (rg_shards reg))
       (\<lambda>(m, shards). Inr (m, reg\<lparr>rg_shards := shards\<rparr>))"

definition registry_register_profile :: "profile_plan \<Rightarrow> registry \<Rightarrow> (metric \<times> registry) result" where
  "registry_register_profile plan reg =
     (let shard = shard_index (rg_shard_hasher reg (ProfileKey (pp_identity plan) (pp_policy plan)))
      in res_bind (on_shard shard (shard_register_profile plan) (rg_shards reg))
           (\<lambda>(m, shards). Inr (m, reg\<lparr>rg_shards := shards\<rparr>)))"

definition registry_register_resource ::
  "metric_type \<Rightarrow> resource_labels \<Rightarrow> registry \<Rightarrow> (metric \<times> registry) result" where
  "registry_register_resource kind labels reg =
     (let index = shard_index (rg_shard_hasher reg (ResourceKey kind labels))
      in res_bind (on_shard index (shard_register_resource kind labels) (rg_shards reg))
           (\<lambda>(m, shards). Inr (m, reg\<lparr>rg_shards := shards\<rparr>)))"

definition registry_record_state :: "state_type \<Rightarrow> str \<Rightarrow> str \<Rightarrow> str \<Rightarrow> registry \<Rightarrow> registry" where
  "registry_record_state ty name key val reg = reg\<lparr>rg_states := state_record ty name key val (rg_states reg)\<rparr>"

definition registry_state_snapshot :: "registry \<Rightarrow> state_snapshot list" where
  "registry_state_snapshot reg = state_snapshots (rg_states reg)"

text \<open>\<open>for_each_meta\<close> visits the shards one after the other, without a lock, so registrations may come in
  between: \<open>at i\<close> is the registry when shard \<open>i\<close> is visited, \<open>f\<close> the callback for entry \<open>j\<close> of shard \<open>i\<close>.
  \<open>registry_for_each_meta\<close> is the metadata handed to the callback when nothing happens meanwhile.\<close>

definition registry_for_each_meta_at ::
  "(nat \<Rightarrow> registry) \<Rightarrow> (nat \<Rightarrow> nat \<Rightarrow> metric_meta \<Rightarrow> 'a result) \<Rightarrow> 'a list result" where
  "registry_for_each_meta_at at f = visit_shards SHARD_COUNT (\<lambda>i. rg_shards (at i)) f"

definition registry_for_each_meta :: "registry \<Rightarrow> metric_meta list result" where
  "registry_for_each_meta reg = registry_for_each_meta_at (\<lambda>_. reg) (\<lambda>_ _ meta. Inr meta)"

text \<open>Reading the slot behind an address, and one atomic step on it.\<close>

definition registry_slot :: "item_ptr \<Rightarrow> registry \<Rightarrow> slot result" where
  "registry_slot p reg = shards_slot shard_slot ip_region (rg_shards reg) p"

definition registry_rmw :: "item_ptr \<Rightarrow> (slot \<Rightarrow> slot) \<Rightarrow> registry \<Rightarrow> registry result" where
  "registry_rmw p f reg =
     res_bind (shards_update shard_slot_update ip_region p f (rg_shards reg))
       (\<lambda>shards. Inr (reg\<lparr>rg_shards := shards\<rparr>))"

definition item_snapshot :: "item_ptr \<Rightarrow> registry \<Rightarrow> metric_snapshot result" where
  "item_snapshot p reg = res_bind (registry_slot p reg) (\<lambda>s. Inr (snapshot_slot s))"

text \<open>The callback of \<open>visit\<close> takes the snapshot of entry \<open>j\<close> of shard \<open>i\<close> at its own moment, \<open>snaps i j\<close>.\<close>

definition registry_visit_at ::
  "(nat \<Rightarrow> registry) \<Rightarrow> (nat \<Rightarrow> nat \<Rightarrow> registry) \<Rightarrow> (metric_meta \<times> metric_snapshot) list result" where
  "registry_visit_at at snaps =
     registry_for_each_meta_at at
       (\<lambda>i j meta. res_bind (item_snapshot (mm_item meta) (snaps i j)) (\<lambda>snap. Inr (meta, snap)))"

definition registry_visit :: "registry \<Rightarrow> (metric_meta \<times> metric_snapshot) list result" where
  "registry_visit reg = registry_visit_at (\<lambda>_. reg) (\<lambda>_ _. reg)"

definition registry_len :: "registry \<Rightarrow> nat result" where
  "registry_len reg =
     res_bind (scalar_len (rg_scalars reg)) (\<lambda>n.
     res_bind (map_res log_len (rg_shards reg)) (\<lambda>ns. Inr (n + sum_list ns)))"

section \<open>Metric handles\<close>

definition metric_step :: "metric \<Rightarrow> slot_step \<Rightarrow> registry \<Rightarrow> registry result" where
  "metric_step m z = registry_rmw (m_item m) (slot_act z)"

definition metric_record :: "duration \<Rightarrow> bool \<Rightarrow> metric \<Rightarrow> registry \<Rightarrow> registry result" where
  "metric_record elapsed success m = run_steps (metric_step m) (record_steps (m_policy m) elapsed success)"

definition metric_increment :: "metric \<Rightarrow> registry \<Rightarrow> registry result" where
  "metric_increment m = run_steps (metric_step m) increment_steps"

definition metric_snapshot_of :: "metric \<Rightarrow> registry \<Rightarrow> metric_snapshot result" where
  "metric_snapshot_of m = item_snapshot (m_item m)"

section \<open>Invariant and abstraction\<close>

fun registry_do :: "registration \<Rightarrow> registry \<Rightarrow> (metric \<times> registry) result" where
  "registry_do (RegName name kind) = registry_register name kind"
| "registry_do (RegProfile plan) = registry_register_profile plan"
| "registry_do (RegResource kind labels) = registry_register_resource kind labels"

definition timing_inv :: "registry \<Rightarrow> bool" where
  "timing_inv reg \<longleftrightarrow>
     shards_inv shard_inv shard_lookup sh_region (\<lambda>k. shard_index (rg_shard_hasher reg k)) 64 (rg_shards reg)"

definition registry_inv :: "registry \<Rightarrow> bool" where
  "registry_inv reg \<longleftrightarrow> timing_inv reg \<and> scalars_inv (rg_scalars reg) \<and> states_inv (rg_states reg)"

definition registry_find :: "registry \<Rightarrow> metric_key \<Rightarrow> metric option" where
  "registry_find reg = shards_lookup shard_lookup (\<lambda>k. shard_index (rg_shard_hasher reg k)) (rg_shards reg)"

definition registry_log :: "registry \<Rightarrow> (metric_key \<times> metric) list" where
  "registry_log reg = concat (map shard_log (rg_shards reg))"

text \<open>The abstract registry: the counters of every registered identity.\<close>

definition registry_abs :: "registry \<Rightarrow> metric_key \<Rightarrow> slot option" where
  "registry_abs reg = slot_map (\<lambda>reg. registry_find reg) m_item (\<lambda>reg p. registry_slot p reg) reg"

interpretation timing: sharded_registry shard_inv shard_lookup shard_do reg_key m_item shard_slot
  shard_slot_update slot_default shard_log sh_region ip_region
  "\<lambda>k. shard_index (hasher k)" 64 for hasher
  by unfold_locales simp

definition registry_metas :: "registry \<Rightarrow> metric_meta list" where
  "registry_metas reg = concat (map log_metas (rg_shards reg))"

section \<open>Threads\<close>

text \<open>A thread is a sequence of calls, each through a handle; its atomic steps in program order.\<close>

definition metric_thread :: "(metric \<times> slot_call) list \<Rightarrow> (metric \<times> slot_step) list" where
  "metric_thread calls =
     concat (map (\<lambda>(m, call). map (Pair m) (call_steps (m_policy m) call)) calls)"

definition calls_on :: "metric \<Rightarrow> (metric \<times> slot_call) list \<Rightarrow> slot_call list" where
  "calls_on m calls = map snd (filter (\<lambda>e. fst e = m) calls)"

section \<open>The registry satisfies the contract\<close>

lemma registry_do_eq:
  "registry_do r reg =
     res_bind (on_shard (shard_index (rg_shard_hasher reg (reg_key r))) (shard_do r) (rg_shards reg))
       (\<lambda>(m, xs). Inr (m, reg\<lparr>rg_shards := xs\<rparr>))"
  by (cases r) (simp_all add: registry_register_def registry_shard_def registry_register_profile_def
      registry_register_resource_def Let_def)

lemmas registry_lift = timing_inv_def registry_find_def registry_log_def registry_slot_def

interpretation registry: keyed_registry timing_inv registry_find registry_do reg_key m_item
  "\<lambda>reg p. registry_slot p reg" registry_rmw slot_default registry_log
proof
  fix reg assume inv: "timing_inv reg"
  note inv' = inv [unfolded timing_inv_def]
  show "distinct (map fst (registry_log reg))" "distinct (map (\<lambda>e. m_item (snd e)) (registry_log reg))"
    unfolding registry_log_def using timing.all.log_keys [OF inv'] timing.all.log_addrs [OF inv'] .
  show "registry_find reg k = map_of (registry_log reg) k" for k
    unfolding registry_log_def registry_find_def by (rule timing.all.lookup_log [OF inv'])
  show "registry_do r reg = Inr (h, reg)" if "registry_find reg (reg_key r) = Some h" for r h
    using timing.all.register_known [OF inv', of r h] that by (simp add: registry_do_eq registry_find_def)
  show "\<exists>v. registry_slot (m_item (snd e)) reg = Inr v" if "e \<in> set (registry_log reg)" for e
    using timing.all.slot_ok [OF inv', of e] that unfolding registry_lift by blast
  show "\<exists>h reg'. registry_do r reg = Inr (h, reg') \<and> timing_inv reg' \<and>
      mset (registry_log reg') = add_mset (reg_key r, h) (mset (registry_log reg)) \<and>
      registry_slot (m_item h) reg' = Inr slot_default \<and>
      (\<forall>e \<in> set (registry_log reg). registry_slot (m_item (snd e)) reg' = registry_slot (m_item (snd e)) reg)"
    if "registry_find reg (reg_key r) = None" for r
  proof -
    from timing.all.register_fresh [OF inv' that [unfolded registry_find_def]] obtain h xs where
      "on_shard (shard_index (rg_shard_hasher reg (reg_key r))) (shard_do r) (rg_shards reg) = Inr (h, xs)"
      "shards_inv shard_inv shard_lookup sh_region (\<lambda>k. shard_index (rg_shard_hasher reg k)) 64 xs"
      "mset (concat (map shard_log xs)) = add_mset (reg_key r, h) (mset (concat (map shard_log (rg_shards reg))))"
      "shards_slot shard_slot ip_region xs (m_item h) = Inr slot_default"
      "\<forall>e \<in> set (concat (map shard_log (rg_shards reg))).
         shards_slot shard_slot ip_region xs (m_item (snd e)) =
         shards_slot shard_slot ip_region (rg_shards reg) (m_item (snd e))" by (elim exE conjE)
    then show ?thesis
      by (intro exI [of _ h] exI [of _ "reg\<lparr>rg_shards := xs\<rparr>"] conjI)
        (simp_all add: registry_do_eq registry_lift del: set_concat mset_concat)
  qed
  show "\<exists>reg'. registry_rmw (m_item (snd e)) f reg = Inr reg' \<and> timing_inv reg' \<and>
      registry_log reg' = registry_log reg \<and>
      (\<forall>e' \<in> set (registry_log reg). registry_slot (m_item (snd e')) reg' =
         (if e' = e then map_sum id f (registry_slot (m_item (snd e')) reg)
          else registry_slot (m_item (snd e')) reg))"
    if "e \<in> set (registry_log reg)" for e f
  proof -
    from timing.all.update_slot [OF inv' that [unfolded registry_log_def], of f] obtain xs where
      "shards_update shard_slot_update ip_region (m_item (snd e)) f (rg_shards reg) = Inr xs"
      "shards_inv shard_inv shard_lookup sh_region (\<lambda>k. shard_index (rg_shard_hasher reg k)) 64 xs"
      "concat (map shard_log xs) = concat (map shard_log (rg_shards reg))"
      "\<forall>e' \<in> set (concat (map shard_log (rg_shards reg))).
         shards_slot shard_slot ip_region xs (m_item (snd e')) =
         (if e' = e then map_sum id f (shards_slot shard_slot ip_region (rg_shards reg) (m_item (snd e')))
          else shards_slot shard_slot ip_region (rg_shards reg) (m_item (snd e')))" by (elim exE conjE)
    then show ?thesis
      by (intro exI [of _ "reg\<lparr>rg_shards := xs\<rparr>"] conjI)
        (simp_all add: registry_rmw_def registry_lift del: set_concat)
  qed
qed

lemma timing_inv_new: "timing_inv (registry_new hs ht)"
proof -
  have "raw_lookup (shard_new i) k = None" for i k
    by (cases k) (simp_all add: shard_new_def existing_def existing_profile_def)
  then have "shard_lookup (shard_new i) k = None" for i k by (simp add: shard_lookup_def)
  moreover have "sh_region (shard_new i) = i" for i by (simp add: shard_new_def)
  ultimately show ?thesis
    by (simp add: timing_inv_def registry_new_def shards_inv_def SHARD_COUNT_def shard_inv_new dom_def)
qed

lemma registry_log_new [simp]: "registry_log (registry_new hs ht) = []"
  by (simp add: registry_log_def registry_new_def shard_log_def shard_new_def)

lemma registry_inv_new: "registry_inv (registry_new hs ht)"
  using timing_inv_new [of hs ht] scalars_inv_new [of hs]
  by (simp add: registry_inv_def registry_new_def states_inv_new)

text \<open>What timing operations leave alone.\<close>

lemma registry_do_frame:
  assumes "registry_do r reg = Inr (m, reg')"
  shows "rg_scalars reg' = rg_scalars reg \<and> rg_states reg' = rg_states reg \<and>
    rg_shard_hasher reg' = rg_shard_hasher reg"
  using assms by (auto simp: registry_do_eq res_bind_Inr_iff)

lemma registry_rmw_frame:
  assumes "registry_rmw p f reg = Inr reg'"
  shows "rg_scalars reg' = rg_scalars reg \<and> rg_states reg' = rg_states reg \<and>
    rg_shard_hasher reg' = rg_shard_hasher reg"
  using assms by (auto simp: registry_rmw_def res_bind_Inr_iff)

section \<open>Lemmas\<close>

lemma registry_abs_eq:
  "registry_abs reg = slot_map registry_find m_item (\<lambda>reg p. registry_slot p reg) reg"
  by (simp add: registry_abs_def)

lemma registry_inv_do:
  assumes inv: "registry_inv reg"
  obtains m reg' where "registry_do r reg = Inr (m, reg')" and "registry_inv reg'"
    and "registry_find reg' = (registry_find reg)(reg_key r \<mapsto> m)"
    and "\<And>k h. registry_find reg k = Some h \<Longrightarrow> registry_find reg' k = Some h"
    and "registry_abs reg' = (registry_abs reg)(reg_key r \<mapsto>
           (case registry_abs reg (reg_key r) of None \<Rightarrow> slot_default | Some s \<Rightarrow> s))"
    and "rg_scalars reg' = rg_scalars reg" and "rg_states reg' = rg_states reg"
proof -
  have t: "timing_inv reg" using inv by (simp add: registry_inv_def)
  obtain m reg' where r: "registry_do r reg = Inr (m, reg')" "timing_inv reg'"
    "registry_find reg' = (registry_find reg)(reg_key r \<mapsto> m)"
    "\<And>k h. registry_find reg k = Some h \<Longrightarrow> registry_find reg' k = Some h"
    by (rule registry.register_total [OF t, of r]) blast
  note frame = registry_do_frame [OF r(1)]
  show thesis
  proof (rule that [OF r(1) _ r(3,4)])
    show "registry_inv reg'" using inv r(2) frame by (simp add: registry_inv_def)
    show "registry_abs reg' = (registry_abs reg)(reg_key r \<mapsto>
           (case registry_abs reg (reg_key r) of None \<Rightarrow> slot_default | Some s \<Rightarrow> s))"
      unfolding registry_abs_eq by (rule registry.slot_map_register [OF t r(1)])
  qed (use frame in simp_all)
qed

lemma run_steps_map: "run_steps f (map g zs) s = run_steps (\<lambda>z. f (g z)) zs s"
proof (induction zs arbitrary: s)
  case (Cons z zs)
  have "run_steps f (map g zs) = run_steps (\<lambda>z. f (g z)) zs" by (rule ext) (rule Cons.IH)
  then show ?case by simp
qed simp

lemma run_steps_rmw_frame:
  assumes "run_steps (\<lambda>(h, f). registry_rmw (m_item h) f) zs reg = Inr reg'"
  shows "rg_scalars reg' = rg_scalars reg \<and> rg_states reg' = rg_states reg"
  using assms
proof (induction zs arbitrary: reg)
  case (Cons z zs)
  then obtain reg1 where "registry_rmw (m_item (fst z)) (snd z) reg = Inr reg1"
    "run_steps (\<lambda>(h, f). registry_rmw (m_item h) f) zs reg1 = Inr reg'"
    by (auto simp: res_bind_Inr_iff split: prod.splits)
  with Cons.IH registry_rmw_frame show ?case by metis
qed simp

lemma fold_own_steps:
  "fold (\<lambda>(g, f). if g = m then f else id) (map (\<lambda>(m, z). (m, slot_act z)) zs) =
     fold slot_act (map snd (filter (\<lambda>e. fst e = m) zs))"
  by (induction zs) auto

text \<open>Any sequence of atomic steps through registered handles.\<close>

lemma run_metric_steps:
  assumes inv: "registry_inv reg" and reg: "fst ` set zs \<subseteq> ran (registry_find reg)"
  shows "\<exists>reg'. run_steps (\<lambda>(m, z). metric_step m z) zs reg = Inr reg' \<and> registry_inv reg' \<and>
    registry_find reg' = registry_find reg \<and> registry_log reg' = registry_log reg \<and>
    rg_scalars reg' = rg_scalars reg \<and> rg_states reg' = rg_states reg \<and>
    (\<forall>k m. registry_find reg k = Some m \<longrightarrow> registry_abs reg' k =
       map_option (fold slot_act (map snd (filter (\<lambda>e. fst e = m) zs))) (registry_abs reg k))"
proof -
  let ?zs = "map (\<lambda>(m, z). (m, slot_act z)) zs"
  have t: "timing_inv reg" using inv by (simp add: registry_inv_def)
  have ran: "fst ` set ?zs \<subseteq> ran (registry_find reg)" using reg by (auto simp: image_image split_beta)
  have steps: "run_steps (\<lambda>(h, f). registry_rmw (m_item h) f) ?zs reg =
      run_steps (\<lambda>(m, z). metric_step m z) zs reg"
    unfolding run_steps_map by (simp add: metric_step_def split_def)
  from registry.run_updates [OF t ran] obtain reg' where r:
    "run_steps (\<lambda>(h, f). registry_rmw (m_item h) f) ?zs reg = Inr reg'" "timing_inv reg'"
    "registry_log reg' = registry_log reg" "registry_find reg' = registry_find reg"
    "\<forall>k h. registry_find reg k = Some h \<longrightarrow> slot_map registry_find m_item (\<lambda>reg p. registry_slot p reg) reg' k =
       map_option (fold (\<lambda>(g, f). if g = h then f else id) ?zs)
         (slot_map registry_find m_item (\<lambda>reg p. registry_slot p reg) reg k)" by (elim exE conjE)
  note frame = run_steps_rmw_frame [OF r(1)]
  show ?thesis
  proof (intro exI [of _ reg'] conjI allI impI)
    show "run_steps (\<lambda>(m, z). metric_step m z) zs reg = Inr reg'" using r(1) steps by simp
    show "registry_inv reg'" using inv r(2) frame by (simp add: registry_inv_def)
    show "registry_abs reg' k = map_option (fold slot_act (map snd (filter (\<lambda>e. fst e = m) zs)))
       (registry_abs reg k)" if "registry_find reg k = Some m" for k m
      unfolding registry_abs_eq fold_own_steps [symmetric] by (rule r(5) [rule_format, OF that])
  qed (use r(3,4) frame in simp_all)
qed

lemma registry_abs_find:
  assumes "registry_inv reg" and "registry_find reg k = Some m"
  obtains s where "registry_abs reg k = Some s" and "registry_slot (m_item m) reg = Inr s"
proof -
  have t: "timing_inv reg" using assms(1) by (simp add: registry_inv_def)
  obtain s where s: "registry_slot (m_item m) reg = Inr s"
    using registry.slot_at_lookup [OF t assms(2)] by blast
  then show thesis
    using assms(2) by (intro that) (simp_all add: registry_abs_eq slot_map_def)
qed

lemma registry_find_policy: "registry_find reg k = Some m \<Longrightarrow> m_policy m = key_policy k"
  by (auto simp: registry_find_def shards_lookup_def shard_lookup_def from_item_def)

lemma run_registry_do:
  assumes "run_all registry_do rs reg = Inr (ms, reg')" and "registry_inv reg"
  shows "registry_inv reg' \<and> rg_scalars reg' = rg_scalars reg"
  using assms
proof (induction rs arbitrary: ms reg)
  case (Cons r rs)
  then obtain m reg1 ms' where r1: "registry_do r reg = Inr (m, reg1)"
    "run_all registry_do rs reg1 = Inr (ms', reg')"
    by (auto simp: res_bind_Inr_iff)
  have "registry_inv reg1" "rg_scalars reg1 = rg_scalars reg"
    by (rule registry_inv_do [OF Cons.prems(2), of r], use r1(1) in simp)+
  with Cons.IH [OF r1(2)] show ?case by simp
qed simp

lemma run_one_metric:
  assumes inv: "registry_inv reg" and k: "registry_find reg k = Some m"
  shows "\<exists>reg'. run_steps (metric_step m) zs reg = Inr reg' \<and> registry_inv reg' \<and>
    registry_find reg' = registry_find reg \<and>
    registry_abs reg' = (registry_abs reg)(k := map_option (fold slot_act zs) (registry_abs reg k))"
proof -
  have t: "timing_inv reg" using inv by (simp add: registry_inv_def)
  have map: "run_steps (metric_step m) zs reg =
      run_steps (\<lambda>(m, z). metric_step m z) (map (Pair m) zs) reg"
    by (simp add: run_steps_map)
  have ran: "fst ` set (map (Pair m) zs) \<subseteq> ran (registry_find reg)" using k by (auto simp: ran_def)
  have own: "map snd (filter (\<lambda>e. fst e = h) (map (Pair m) zs)) = (if h = m then zs else [])" for h
    by (induction zs) auto
  from run_metric_steps [OF inv ran] obtain reg' where
    r: "run_steps (\<lambda>(m, z). metric_step m z) (map (Pair m) zs) reg = Inr reg'" "registry_inv reg'"
    "registry_find reg' = registry_find reg" and
    ab: "\<forall>k' h. registry_find reg k' = Some h \<longrightarrow> registry_abs reg' k' =
       map_option (fold slot_act (map snd (filter (\<lambda>e. fst e = h) (map (Pair m) zs)))) (registry_abs reg k')"
    by (elim exE conjE)
  have "registry_abs reg' k' = ((registry_abs reg)(k := map_option (fold slot_act zs) (registry_abs reg k))) k'"
    for k'
  proof (cases "registry_find reg k'")
    case None
    then have "k' \<noteq> k" using k by auto
    with None r(3) show ?thesis by (simp add: registry_abs_eq slot_map_def)
  next
    case (Some h)
    have "h = m \<longleftrightarrow> k' = k" using registry.no_aliasing [OF t Some k] k Some by auto
    with ab [rule_format, OF Some] show ?thesis by (simp add: own option.map_id)
  qed
  then show ?thesis using r map by auto
qed

text \<open>What a visit reports.\<close>

lemma registry_log_metas:
  "registry_log reg =
     map (\<lambda>m. (profile_key (mm_profile m), from_item (mm_item m) (key_policy (profile_key (mm_profile m)))))
       (registry_metas reg)"
  by (simp add: registry_log_def registry_metas_def shard_log_def [abs_def] Let_def map_concat comp_def)

lemma timing_log_inv:
  "timing_inv reg \<Longrightarrow> s \<in> set (rg_shards reg) \<Longrightarrow> log_inv slot_default s"
  by (auto simp: timing_inv_def shards_inv_def shard_inv_def in_set_conv_nth)

lemma timing_shards_ok:
  assumes "timing_inv reg"
  shows "length (rg_shards reg) = 64" and "i < 64 \<Longrightarrow> log_inv slot_default (rg_shards reg ! i)"
    and "i < 64 \<Longrightarrow> shard_inv (rg_shards reg ! i)"
  using assms by (auto simp: timing_inv_def shards_inv_def shard_inv_def)

lemma registry_for_each_meta_at_ok:
  assumes "\<And>i. i < 64 \<Longrightarrow> timing_inv (at i)"
    and "\<And>i j m. i < 64 \<Longrightarrow> m \<in> set (log_metas (rg_shards (at i) ! i)) \<Longrightarrow> f i j m = Inr (g m)"
  shows "registry_for_each_meta_at at f = Inr (map g (visited 64 (\<lambda>i. rg_shards (at i))))"
  unfolding registry_for_each_meta_at_def SHARD_COUNT_def
  by (rule visit_shards_metas [where d = slot_default]) (use timing_shards_ok [OF assms(1)] assms(2) in simp_all)

lemma visited_registry:
  "timing_inv reg \<Longrightarrow> visited 64 (\<lambda>_. rg_shards reg) = registry_metas reg"
  using visited_const [of "rg_shards reg"] by (simp add: timing_shards_ok(1) registry_metas_def)

lemma registry_for_each_meta_ok:
  "timing_inv reg \<Longrightarrow> registry_for_each_meta reg = Inr (registry_metas reg)"
  using registry_for_each_meta_at_ok [of "\<lambda>_. reg" "\<lambda>_ _ meta. Inr meta" "\<lambda>m. m"]
  by (simp add: registry_for_each_meta_def visited_registry)

lemma registry_len_ok:
  assumes "registry_inv reg"
  shows "registry_len reg = Inr (length (scalars_log (rg_scalars reg)) + length (registry_metas reg))"
proof -
  have t: "timing_inv reg" using assms by (simp add: registry_inv_def)
  have "map_res log_len (rg_shards reg) = Inr (map (\<lambda>s. length (log_metas s)) (rg_shards reg))"
    by (rule map_res_Inr) (simp add: log_len_metas [OF timing_log_inv [OF t]])
  then show ?thesis
    using assms scalar_visit_ok(1) [of "rg_scalars reg"]
    by (simp add: registry_inv_def registry_len_def registry_metas_def length_concat comp_def)
qed

lemma registry_meta_find:
  assumes "registry_inv reg" and "m \<in> set (registry_metas reg)"
  obtains s where "registry_find reg (profile_key (mm_profile m)) =
      Some (from_item (mm_item m) (key_policy (profile_key (mm_profile m))))"
    and "registry_abs reg (profile_key (mm_profile m)) = Some s" and "registry_slot (mm_item m) reg = Inr s"
proof -
  have t: "timing_inv reg" using assms(1) by (simp add: registry_inv_def)
  have f: "registry_find reg (profile_key (mm_profile m)) =
      Some (from_item (mm_item m) (key_policy (profile_key (mm_profile m))))"
    using assms(2) by (simp add: registry.lookup_Some_iff [OF t] registry_log_metas image_iff) blast
  show thesis
    by (rule registry_abs_find [OF assms(1) f]) (use f that in \<open>simp add: from_item_def\<close>)
qed

lemma registry_find_meta:
  assumes "registry_inv reg" and "registry_find reg k = Some h"
  obtains m where "m \<in> set (registry_metas reg)" and "profile_key (mm_profile m) = k"
    and "h = from_item (mm_item m) (key_policy k)"
proof -
  have t: "timing_inv reg" using assms(1) by (simp add: registry_inv_def)
  have "(k, h) \<in> set (registry_log reg)" using assms(2) registry.lookup_Some_iff [OF t] by simp
  then show thesis using that by (auto simp: registry_log_metas)
qed

lemma registry_visit_ok:
  assumes "registry_inv reg"
  shows "registry_visit reg = Inr (map (\<lambda>m. (m, snapshot_slot (the (registry_abs reg (profile_key (mm_profile m))))))
    (registry_metas reg))"
proof -
  have t: "timing_inv reg" using assms by (simp add: registry_inv_def)
  have "item_snapshot (mm_item m) reg =
      Inr (snapshot_slot (the (registry_abs reg (profile_key (mm_profile m)))))"
    if "m \<in> set (registry_metas reg)" for m
    by (rule registry_meta_find [OF assms that]) (simp add: item_snapshot_def)
  moreover have "m \<in> set (registry_metas reg)" if "i < 64" "m \<in> set (log_metas (rg_shards reg ! i))" for i m
    using that timing_shards_ok(1) [OF t] by (auto simp: registry_metas_def)
  ultimately show ?thesis
    unfolding registry_visit_def registry_visit_at_def
    by (subst registry_for_each_meta_at_ok
        [where g = "\<lambda>m. (m, snapshot_slot (the (registry_abs reg (profile_key (mm_profile m)))))"])
      (simp_all add: t visited_registry)
qed

text \<open>The metadata of the shards only grows.\<close>

lemma registry_do_grows:
  assumes "timing_inv reg" and "registry_do r reg = Inr (m, reg')"
  shows "logs_grown (rg_shards reg) (rg_shards reg')"
proof -
  let ?i = "shard_index (rg_shard_hasher reg (reg_key r))"
  obtain s' where s': "?i < length (rg_shards reg)" "shard_do r (rg_shards reg ! ?i) = Inr (m, s')"
    "rg_shards reg' = (rg_shards reg)[?i := s']"
    using assms(2) by (auto simp: registry_do_eq on_shard_def index_at_def res_bind_Inr_iff split: if_splits)
  from shard_do_grows [OF timing_shards_ok(3) [OF assms(1)] s'(2)] s' show ?thesis by (simp add: logs_grown_update)
qed

lemma registry_rmw_grows: "registry_rmw p f reg = Inr reg' \<Longrightarrow> logs_grown (rg_shards reg) (rg_shards reg')"
  by (auto simp: registry_rmw_def shards_update_def index_at_def res_bind_Inr_iff shard_slot_update_metas
      intro!: logs_grown_update split: if_splits)

lemma registry_keys_distinct:
  "registry_inv reg \<Longrightarrow> distinct (map (\<lambda>m. profile_key (mm_profile m)) (registry_metas reg))"
  using registry.log_keys [of reg] by (simp add: registry_inv_def registry_log_metas comp_def)

lemma map_snd_steps_on:
  "map snd (filter (\<lambda>e. fst e = m) (metric_thread calls)) = concat (map (call_steps (m_policy m)) (calls_on m calls))"
proof (induction calls)
  case (Cons e calls)
  have "map snd (filter (\<lambda>e. fst e = m) (map (Pair h) zs)) = (if h = m then zs else [])" for h and zs :: "slot_step list"
    by (induction zs) auto
  with Cons show ?case by (cases e) (simp add: metric_thread_def calls_on_def)
qed (simp add: metric_thread_def calls_on_def)

lemma metric_thread_concat: "concat (map metric_thread threads) = metric_thread (concat threads)"
  by (induction threads) (simp_all add: metric_thread_def)

lemma interleave_on_metric:
  assumes "interleave (map metric_thread threads) zs"
  shows "added c (map snd (filter (\<lambda>e. fst e = m) zs)) =
    amounts (m_policy m) c (calls_on m (concat threads))"
proof -
  have "mset zs = mset (metric_thread (concat threads))"
    using mset_interleave [OF assms] by (simp only: metric_thread_concat)
  then have "mset (map snd (filter (\<lambda>e. fst e = m) zs)) =
      mset (map snd (filter (\<lambda>e. fst e = m) (metric_thread (concat threads))))" by simp
  then have "added c (map snd (filter (\<lambda>e. fst e = m) zs)) =
      added c (thread_steps (m_policy m) (calls_on m (concat threads)))"
    unfolding thread_steps_def map_snd_steps_on by (rule added_mset)
  then show ?thesis by (simp add: added_thread)
qed

text \<open>The first registration in an empty registry.\<close>

lemma registry_abs_new [simp]: "registry_abs (registry_new hs ht) k = None"
  using registry.lookup_log [OF timing_inv_new] by (simp add: registry_abs_eq slot_map_def)

lemma registry_find_new [simp]: "registry_find (registry_new hs ht) k = None"
  using registry.lookup_log [OF timing_inv_new] by simp

lemma registry_first:
  obtains m reg where "registry_do r (registry_new hs ht) = Inr (m, reg)" and "registry_inv reg"
    and "registry_find reg = [reg_key r \<mapsto> m]" and "registry_abs reg = [reg_key r \<mapsto> slot_default]"
proof (rule registry_inv_do [OF registry_inv_new [of hs ht], of r])
  fix m reg assume "registry_do r (registry_new hs ht) = Inr (m, reg)" "registry_inv reg"
    "registry_find reg = (registry_find (registry_new hs ht))(reg_key r \<mapsto> m)"
    "registry_abs reg = (registry_abs (registry_new hs ht))(reg_key r \<mapsto>
       (case registry_abs (registry_new hs ht) (reg_key r) of None \<Rightarrow> slot_default | Some s \<Rightarrow> s))"
  then show thesis by (intro that) (auto simp: fun_eq_iff)
qed

text \<open>Every interleaving of recording threads adds up.\<close>

lemma recording_counts:
  assumes "registry_inv reg" and "interleave (map metric_thread threads) zs"
    and "\<forall>e \<in> set (concat threads). fst e \<in> ran (registry_find reg)"
  shows "\<exists>reg'. run_steps (\<lambda>(m, z). metric_step m z) zs reg = Inr reg' \<and> registry_inv reg' \<and>
    registry_find reg' = registry_find reg \<and>
    (\<forall>k m s. registry_find reg k = Some m \<longrightarrow> registry_abs reg k = Some s \<longrightarrow>
      (\<exists>s'. registry_abs reg' k = Some s' \<and>
        (\<forall>c. counter_read c s' = counter_read c s +
           word_of_nat (amounts (key_policy k) c (calls_on m (concat threads))))))"
proof -
  have "mset zs = mset (metric_thread (concat threads))"
    using mset_interleave [OF assms(2)] by (simp only: metric_thread_concat)
  then have "set zs = set (metric_thread (concat threads))" by (rule mset_eq_setD)
  then have ran: "fst ` set zs \<subseteq> ran (registry_find reg)"
    using assms(3) by (fastforce simp: metric_thread_def)
  from run_metric_steps [OF assms(1) ran] obtain reg' where
    r: "run_steps (\<lambda>(m, z). metric_step m z) zs reg = Inr reg'" "registry_inv reg'"
    "registry_find reg' = registry_find reg" and
    ab: "\<forall>k m. registry_find reg k = Some m \<longrightarrow> registry_abs reg' k =
       map_option (fold slot_act (map snd (filter (\<lambda>e. fst e = m) zs))) (registry_abs reg k)"
    by (elim exE conjE)
  have "\<exists>s'. registry_abs reg' k = Some s' \<and> (\<forall>c. counter_read c s' = counter_read c s +
      word_of_nat (amounts (key_policy k) c (calls_on m (concat threads))))"
    if "registry_find reg k = Some m" "registry_abs reg k = Some s" for k m s
    using ab [rule_format, OF that(1)] that(2) registry_find_policy [OF that(1)]
    by (simp add: counter_read_fold interleave_on_metric [OF assms(2)])
  with r show ?thesis by (intro exI [of _ reg'] conjI allI impI)
qed

section \<open>Properties\<close>

text \<open>C1: The registry implements a map from metric identities to counters. Registering any
  identity (by kind and name, by kind and labels, or by a profile plan) never fails, hands out the
  handle the identity has from then on, adds a zeroed slot only when the identity is new, and
  disturbs no other identity, scalar or state. Through a registered handle, \<open>record\<close> and
  \<open>increment\<close> never fail and change the counters of that identity only, and \<open>snapshot\<close> reads them.\<close>

theorem registry_refines_map:
  assumes "registry_inv reg"
  shows "(\<exists>m reg'. registry_do r reg = Inr (m, reg') \<and> registry_inv reg' \<and>
      registry_find reg' = (registry_find reg)(reg_key r \<mapsto> m) \<and>
      (registry_find reg (reg_key r) \<noteq> None \<longrightarrow> registry_find reg (reg_key r) = Some m) \<and>
      registry_abs reg' = (registry_abs reg)(reg_key r \<mapsto>
        (case registry_abs reg (reg_key r) of None \<Rightarrow> slot_default | Some s \<Rightarrow> s)) \<and>
      rg_scalars reg' = rg_scalars reg \<and> rg_states reg' = rg_states reg) \<and>
    (\<forall>k m. registry_find reg k = Some m \<longrightarrow>
      (\<exists>s. registry_abs reg k = Some s \<and> metric_snapshot_of m reg = Inr (snapshot_slot s) \<and>
        (\<exists>reg'. metric_record d success m reg = Inr reg' \<and> registry_inv reg' \<and>
           registry_find reg' = registry_find reg \<and>
           registry_abs reg' = (registry_abs reg)(k \<mapsto> record_slot (key_policy k) d success s)) \<and>
        (\<exists>reg'. metric_increment m reg = Inr reg' \<and> registry_inv reg' \<and>
           registry_find reg' = registry_find reg \<and>
           registry_abs reg' = (registry_abs reg)(k \<mapsto> increment_slot s))))"
proof (intro conjI allI impI)
  obtain m reg' where r: "registry_do r reg = Inr (m, reg')" "registry_inv reg'"
    "registry_find reg' = (registry_find reg)(reg_key r \<mapsto> m)"
    "\<And>k h. registry_find reg k = Some h \<Longrightarrow> registry_find reg' k = Some h"
    "registry_abs reg' = (registry_abs reg)(reg_key r \<mapsto>
        (case registry_abs reg (reg_key r) of None \<Rightarrow> slot_default | Some s \<Rightarrow> s))"
    "rg_scalars reg' = rg_scalars reg" "rg_states reg' = rg_states reg"
    by (rule registry_inv_do [OF assms, of r]) blast
  have "registry_find reg (reg_key r) \<noteq> None \<longrightarrow> registry_find reg (reg_key r) = Some m"
    using r(3) r(4) [of "reg_key r"] by auto
  with r show "\<exists>m reg'. registry_do r reg = Inr (m, reg') \<and> registry_inv reg' \<and>
      registry_find reg' = (registry_find reg)(reg_key r \<mapsto> m) \<and>
      (registry_find reg (reg_key r) \<noteq> None \<longrightarrow> registry_find reg (reg_key r) = Some m) \<and>
      registry_abs reg' = (registry_abs reg)(reg_key r \<mapsto>
        (case registry_abs reg (reg_key r) of None \<Rightarrow> slot_default | Some s \<Rightarrow> s)) \<and>
      rg_scalars reg' = rg_scalars reg \<and> rg_states reg' = rg_states reg"
    by (intro exI [of _ m] exI [of _ reg'] conjI)
next
  fix k m assume k: "registry_find reg k = Some m"
  obtain s where s: "registry_abs reg k = Some s" "registry_slot (m_item m) reg = Inr s"
    by (rule registry_abs_find [OF assms k])
  note run = run_one_metric [OF assms k]
  show "\<exists>s. registry_abs reg k = Some s \<and> metric_snapshot_of m reg = Inr (snapshot_slot s) \<and>
      (\<exists>reg'. metric_record d success m reg = Inr reg' \<and> registry_inv reg' \<and>
         registry_find reg' = registry_find reg \<and>
         registry_abs reg' = (registry_abs reg)(k \<mapsto> record_slot (key_policy k) d success s)) \<and>
      (\<exists>reg'. metric_increment m reg = Inr reg' \<and> registry_inv reg' \<and>
         registry_find reg' = registry_find reg \<and>
         registry_abs reg' = (registry_abs reg)(k \<mapsto> increment_slot s))"
    using s registry_find_policy [OF k] run [of "record_steps (m_policy m) d success"] run [of increment_steps]
    by (intro exI [of _ s])
      (simp add: metric_snapshot_of_def item_snapshot_def metric_record_def metric_increment_def
        record_slot_def increment_slot_def)
qed

theorem registry_refines_map_witness:
  "\<exists>m reg m' reg' reg2. registry_do (RegName ''cache'' (Redis Req)) (registry_new (\<lambda>_. 0) (\<lambda>_. 9)) = Inr (m, reg) \<and>
     registry_do (RegName ''cache'' (Mysql Req)) reg = Inr (m', reg') \<and>
     metric_record \<lparr>d_secs = 0, d_nanos = 60000000\<rparr> False m reg' = Inr reg2 \<and>
     map_option (counter_read Slow) (registry_abs reg2 (NameKey ''cache'' (Redis Req))) = Some 1 \<and>
     registry_abs reg2 (NameKey ''cache'' (Mysql Req)) = Some slot_default"
proof -
  let ?k = "NameKey ''cache'' (Redis Req)" and ?k' = "NameKey ''cache'' (Mysql Req)"
  let ?r = "RegName ''cache'' (Redis Req)" and ?r' = "RegName ''cache'' (Mysql Req)"
  let ?d = "\<lparr>d_secs = 0, d_nanos = 60000000\<rparr>"
  let ?new = "registry_new (\<lambda>_. 0) (\<lambda>_. 9)"
  obtain m reg where m: "registry_do ?r ?new = Inr (m, reg)" "registry_inv reg"
    "registry_find reg = (registry_find ?new)(?k \<mapsto> m)" "registry_abs reg = (registry_abs ?new)(?k \<mapsto> slot_default)"
    using registry_refines_map [OF registry_inv_new, of ?r "\<lambda>_. 0" "\<lambda>_. 9", THEN conjunct1] by auto
  obtain m' reg' where m': "registry_do ?r' reg = Inr (m', reg')" "registry_inv reg'"
    "registry_find reg' = (registry_find reg)(?k' \<mapsto> m')"
    "registry_abs reg' = (registry_abs reg)(?k' \<mapsto> slot_default)"
    using registry_refines_map [OF m(2), of ?r', THEN conjunct1] m(3,4) by auto
  have k: "registry_find reg' ?k = Some m" "registry_abs reg' ?k = Some slot_default"
    using m'(3,4) m(3,4) by simp_all
  obtain reg2 where r2: "metric_record ?d False m reg' = Inr reg2"
    "registry_abs reg2 = (registry_abs reg')(?k \<mapsto> record_slot PolicyResource ?d False slot_default)"
    using registry_refines_map [OF m'(2), THEN conjunct2, rule_format, OF k(1), of ?d False] k(2) by auto
  have "counter_read Slow (record_slot PolicyResource ?d False slot_default) = 1"
    by (simp add: record_slot_def record_steps_def elapsed_micros_def as_micros_def Let_def
        word_le_nat_alt slot_default_def)
  then show ?thesis
    using m(1) m'(1,4) r2 by (intro exI [of _ m] exI [of _ reg] exI [of _ m'] exI [of _ reg'] exI [of _ reg2]) simp
qed

text \<open>C10: Whatever the shard hash does, any sequence of registrations (so any schedule of
  concurrent ones, since each runs under its shard's mutex) from an empty registry succeeds; two of
  them share a slot exactly when their identities agree, every slot starts at zero, and \<open>len\<close> counts
  the distinct identities.\<close>

theorem registrations_from_empty:
  "\<exists>ms reg. run_all registry_do rs (registry_new hs ht) = Inr (ms, reg) \<and> length ms = length rs \<and>
    (\<forall>i < length rs. \<forall>j < length rs. m_item (ms ! i) = m_item (ms ! j) \<longleftrightarrow> reg_key (rs ! i) = reg_key (rs ! j)) \<and>
    (\<forall>i < length rs. metric_snapshot_of (ms ! i) reg = Inr (snapshot_slot slot_default)) \<and>
    registry_len reg = Inr (card (reg_key ` set rs))"
proof -
  from registry.run_all_from_empty [OF timing_inv_new registry_log_new, of rs hs ht] obtain ms reg where
    r: "run_all registry_do rs (registry_new hs ht) = Inr (ms, reg)" "length ms = length rs"
    "\<forall>i < length rs. \<forall>j < length rs. m_item (ms ! i) = m_item (ms ! j) \<longleftrightarrow> reg_key (rs ! i) = reg_key (rs ! j)"
    "\<forall>i < length rs. registry_slot (m_item (ms ! i)) reg = Inr slot_default"
    "length (registry_log reg) = card (reg_key ` set rs)" by (elim exE conjE)
  have "registry_len reg = Inr (card (reg_key ` set rs))"
    using registry_len_ok [of reg] run_registry_do [OF r(1) registry_inv_new] r(5)
    by (simp add: registry_log_metas registry_new_def scalars_log_def scalar_registry_new_def
        scalar_log_def scalar_shard_new_def)
  then show ?thesis using r(1-4)
    by (intro exI [of _ ms] exI [of _ reg]) (simp add: metric_snapshot_of_def item_snapshot_def)
qed

theorem registrations_from_empty_witness:
  "\<exists>ms reg. run_all registry_do [RegName ''q'' (Redis Req), RegName ''q'' Log, RegName ''q'' (Redis Req)]
       (registry_new (\<lambda>_. 0) (\<lambda>_. 7)) = Inr (ms, reg) \<and>
     m_item (ms ! 0) = m_item (ms ! 2) \<and> m_item (ms ! 0) \<noteq> m_item (ms ! 1) \<and> registry_len reg = Inr 2"
proof -
  let ?rs = "[RegName ''q'' (Redis Req), RegName ''q'' Log, RegName ''q'' (Redis Req)]"
  from registrations_from_empty [of ?rs "\<lambda>_. 0" "\<lambda>_. 7"] obtain ms reg where
    r: "run_all registry_do ?rs (registry_new (\<lambda>_. 0) (\<lambda>_. 7)) = Inr (ms, reg)"
    and eq: "\<forall>i < length ?rs. \<forall>j < length ?rs.
      m_item (ms ! i) = m_item (ms ! j) \<longleftrightarrow> reg_key (?rs ! i) = reg_key (?rs ! j)"
    and len: "registry_len reg = Inr (card (reg_key ` set ?rs))" by (elim exE conjE)
  have "m_item (ms ! 0) = m_item (ms ! 2)" "m_item (ms ! 0) \<noteq> m_item (ms ! 1)"
    using eq [rule_format, of 0 2] eq [rule_format, of 0 1] by simp_all
  moreover have "card (reg_key ` set ?rs) = 2" by (simp add: card_insert_if)
  ultimately show ?thesis using r len by (intro exI [of _ ms] exI [of _ reg] conjI) simp_all
qed

text \<open>C5: Threads recording through any registered handles, in any interleaving of their
  atomic steps, lose no update and never touch another metric: afterwards every counter of every
  registered identity has grown (modulo two to the 64) by exactly what the calls through its own
  handle contribute.\<close>

theorem concurrent_recording:
  assumes "registry_inv reg" and "interleave (map metric_thread threads) zs"
    and "\<forall>e \<in> set (concat threads). fst e \<in> ran (registry_find reg)"
  shows "\<exists>reg'. run_steps (\<lambda>(m, z). metric_step m z) zs reg = Inr reg' \<and> registry_inv reg' \<and>
    (\<forall>k m s. registry_find reg k = Some m \<longrightarrow> registry_abs reg k = Some s \<longrightarrow>
      (\<exists>s'. registry_abs reg' k = Some s' \<and>
        (\<forall>c. counter_read c s' = counter_read c s +
           word_of_nat (amounts (key_policy k) c (calls_on m (concat threads))))))"
  using recording_counts [OF assms] by (elim exE conjE) blast

theorem concurrent_recording_witness:
  "\<exists>m reg reg'. registry_do (RegName ''q'' (Redis Req)) (registry_new (\<lambda>_. 0) (\<lambda>_. 5)) = Inr (m, reg) \<and>
     run_steps (\<lambda>(m, z). metric_step m z) [(m, FetchAdd Total 1), (m, FetchAdd Total 1)] reg = Inr reg' \<and>
     map_option (counter_read Total) (registry_abs reg' (NameKey ''q'' (Redis Req))) = Some 2"
proof -
  let ?k = "NameKey ''q'' (Redis Req)" and ?r = "RegName ''q'' (Redis Req)"
  let ?new = "registry_new (\<lambda>_. 0) (\<lambda>_. 5)"
  obtain m reg where m: "registry_do ?r ?new = Inr (m, reg)" "registry_inv reg"
    "registry_find reg = [reg_key ?r \<mapsto> m]" "registry_abs reg = [reg_key ?r \<mapsto> slot_default]"
    by (rule registry_first)
  let ?calls = "[[(m, CallIncrement)], [(m, CallIncrement)]]"
  have il: "interleave (map metric_thread ?calls) [(m, FetchAdd Total 1), (m, FetchAdd Total 1)]"
    using interleave_concat [of "map metric_thread ?calls"]
    by (simp add: metric_thread_def increment_steps_def)
  have f: "registry_find reg ?k = Some m" "registry_abs reg ?k = Some slot_default" using m(3,4) by simp_all
  then have "m \<in> ran (registry_find reg)" by (rule_tac ranI)
  then have "\<forall>e \<in> set (concat ?calls). fst e \<in> ran (registry_find reg)" by simp
  from concurrent_recording [OF m(2) il this] obtain reg' where
    r: "run_steps (\<lambda>(m, z). metric_step m z) [(m, FetchAdd Total 1), (m, FetchAdd Total 1)] reg = Inr reg'"
    and ab: "\<forall>k h s. registry_find reg k = Some h \<longrightarrow> registry_abs reg k = Some s \<longrightarrow>
      (\<exists>s'. registry_abs reg' k = Some s' \<and> (\<forall>c. counter_read c s' = counter_read c s +
           word_of_nat (amounts (key_policy k) c (calls_on h (concat ?calls)))))" by (elim exE conjE)
  obtain s' where "registry_abs reg' ?k = Some s'" "counter_read Total s' = counter_read Total slot_default +
      word_of_nat (amounts (key_policy ?k) Total (calls_on m (concat ?calls)))"
    using ab [rule_format, OF f] by blast
  then show ?thesis
    using m(1) r by (intro exI [of _ m] exI [of _ reg] exI [of _ reg'])
      (simp add: calls_on_def amounts_def slot_default_def)
qed

text \<open>C13: A visit of the registry succeeds and reports every registered identity exactly once,
  with the snapshot of its own counters; \<open>len\<close> is the number of timing identities plus the number of
  scalar identities.\<close>

theorem registry_visit_exact:
  assumes "registry_inv reg"
  shows "\<exists>vs. registry_visit reg = Inr vs \<and> distinct (map (\<lambda>v. profile_key (mm_profile (fst v))) vs) \<and>
    (\<forall>k snap. (\<exists>v \<in> set vs. profile_key (mm_profile (fst v)) = k \<and> snd v = snap) \<longleftrightarrow>
       (\<exists>s. registry_abs reg k = Some s \<and> snap = snapshot_slot s)) \<and>
    registry_len reg = Inr (card (dom (scalars_find (rg_scalars reg))) + length vs)"
proof (intro exI conjI allI)
  let ?vs = "map (\<lambda>m. (m, snapshot_slot (the (registry_abs reg (profile_key (mm_profile m)))))) (registry_metas reg)"
  show "registry_visit reg = Inr ?vs" by (rule registry_visit_ok [OF assms])
  show "distinct (map (\<lambda>v. profile_key (mm_profile (fst v))) ?vs)"
    using registry_keys_distinct [OF assms] by (simp add: comp_def)
  show "(\<exists>v \<in> set ?vs. profile_key (mm_profile (fst v)) = k \<and> snd v = snap) \<longleftrightarrow>
      (\<exists>s. registry_abs reg k = Some s \<and> snap = snapshot_slot s)" for k snap
  proof
    assume "\<exists>v \<in> set ?vs. profile_key (mm_profile (fst v)) = k \<and> snd v = snap"
    then obtain m where m: "m \<in> set (registry_metas reg)" "profile_key (mm_profile m) = k"
      "snap = snapshot_slot (the (registry_abs reg k))" by auto
    show "\<exists>s. registry_abs reg k = Some s \<and> snap = snapshot_slot s"
      by (rule registry_meta_find [OF assms m(1)]) (use m in simp)
  next
    assume "\<exists>s. registry_abs reg k = Some s \<and> snap = snapshot_slot s"
    then obtain s where s: "registry_abs reg k = Some s" "snap = snapshot_slot s" by blast
    then obtain h where h: "registry_find reg k = Some h"
      by (auto simp: registry_abs_eq slot_map_def split: option.splits)
    show "\<exists>v \<in> set ?vs. profile_key (mm_profile (fst v)) = k \<and> snd v = snap"
      by (rule registry_find_meta [OF assms h]) (use s in auto)
  qed
  have "length (scalars_log (rg_scalars reg)) = card (dom (scalars_find (rg_scalars reg)))"
    using scalars_log_card [of "rg_scalars reg"] assms by (simp add: registry_inv_def)
  then show "registry_len reg = Inr (card (dom (scalars_find (rg_scalars reg))) + length ?vs)"
    by (simp add: registry_len_ok [OF assms])
qed

theorem registry_visit_exact_witness:
  "\<exists>m reg vs. registry_do (RegName ''app'' Log) (registry_new (\<lambda>_. 0) (\<lambda>_. 0)) = Inr (m, reg) \<and>
     registry_visit reg = Inr vs \<and>
     (\<exists>v \<in> set vs. profile_key (mm_profile (fst v)) = NameKey ''app'' Log \<and> snd v = snapshot_slot slot_default)"
proof -
  obtain m reg where m: "registry_do (RegName ''app'' Log) (registry_new (\<lambda>_. 0) (\<lambda>_. 0)) = Inr (m, reg)"
    "registry_inv reg" "registry_abs reg = [reg_key (RegName ''app'' Log) \<mapsto> slot_default]"
    by (rule registry_first)
  from registry_visit_exact [OF m(2)] obtain vs where vs: "registry_visit reg = Inr vs"
    "\<forall>k snap. (\<exists>v \<in> set vs. profile_key (mm_profile (fst v)) = k \<and> snd v = snap) \<longleftrightarrow>
       (\<exists>s. registry_abs reg k = Some s \<and> snap = snapshot_slot s)" by (elim exE conjE)
  have "\<exists>s. registry_abs reg (NameKey ''app'' Log) = Some s \<and> snapshot_slot slot_default = snapshot_slot s"
    using m(3) by simp
  with vs m(1) show ?thesis by blast
qed

text \<open>C30: An identity keeps the export plan of its first registration. Registering a profile
  whose identity and policy are already known returns the known handle and changes nothing, whatever
  outputs the new plan lists.\<close>

theorem first_plan_wins:
  assumes "registry_inv reg" and "registry_register_profile plan reg = Inr (m, reg')"
    and "pp_identity plan' = pp_identity plan" and "pp_policy plan' = pp_policy plan"
  shows "registry_register_profile plan' reg' = Inr (m, reg') \<and>
    (registry_find reg (ProfileKey (pp_identity plan) (pp_policy plan)) = None \<longrightarrow>
      (\<exists>meta \<in> set (registry_metas reg'). mm_item meta = m_item m \<and> mm_profile meta = Fanout plan))"
proof
  have t: "timing_inv reg" using assms(1) by (simp add: registry_inv_def)
  have run: "registry_do (RegProfile plan) reg = Inr (m, reg')" using assms(2) by simp
  show "registry_register_profile plan' reg' = Inr (m, reg')"
    using registry.register_idempotent [OF t run, of "RegProfile plan'"] assms(3,4) by simp
  let ?i = "shard_index (rg_shard_hasher reg (ProfileKey (pp_identity plan) (pp_policy plan)))"
  show "registry_find reg (ProfileKey (pp_identity plan) (pp_policy plan)) = None \<longrightarrow>
      (\<exists>meta \<in> set (registry_metas reg'). mm_item meta = m_item m \<and> mm_profile meta = Fanout plan)"
  proof
    assume none: "registry_find reg (ProfileKey (pp_identity plan) (pp_policy plan)) = None"
    obtain s' where s': "?i < length (rg_shards reg)" "shard_register_profile plan (rg_shards reg ! ?i) = Inr (m, s')"
      "rg_shards reg' = (rg_shards reg)[?i := s']"
      using assms(2) by (auto simp: registry_register_profile_def Let_def on_shard_def res_bind_Inr_iff
          index_at_def split: if_splits)
    have inv: "shard_inv (rg_shards reg ! ?i)"
      using t by (simp add: timing_inv_def shards_inv_def)
    have none': "raw_lookup (rg_shards reg ! ?i) (profile_key (Fanout plan)) = None"
      using none by (simp add: registry_find_def shards_lookup_def shard_lookup_def)
    obtain item s1 where s1: "allocate (Fanout plan) (pp_policy plan) (rg_shards reg ! ?i) =
        Inr ((from_item item (pp_policy plan), item), s1)"
      "log_metas s1 = log_metas (rg_shards reg ! ?i) @ [\<lparr>mm_item = item, mm_profile = Fanout plan\<rparr>]"
      by (rule allocate_ok [OF inv none', of "pp_policy plan"]) blast
    with s'(2) none' have "log_metas s' = log_metas s1" "m_item m = item"
      by (auto simp: shard_register_profile_def insert_profile_def Let_def from_item_def)
    moreover have "s' \<in> set (rg_shards reg')" using s'(1,3) by (simp add: set_update_memI)
    ultimately show "\<exists>meta \<in> set (registry_metas reg'). mm_item meta = m_item m \<and> mm_profile meta = Fanout plan"
      using s1(2) by (force simp: registry_metas_def)
  qed
qed

theorem first_plan_wins_witness:
  "\<exists>m reg. registry_register_profile (profile_plan_new ''id'' PolicyAccess FormatResource ''RPC'' ''svc'')
       (registry_new (\<lambda>_. 0) (\<lambda>_. 0)) = Inr (m, reg) \<and>
     registry_register_profile (profile_plan_new ''id'' PolicyAccess FormatResource ''HTTP'' ''other'') reg = Inr (m, reg)"
proof -
  let ?plan = "profile_plan_new ''id'' PolicyAccess FormatResource ''RPC'' ''svc''"
  obtain m reg where "registry_do (RegProfile ?plan) (registry_new (\<lambda>_. 0) (\<lambda>_. 0)) = Inr (m, reg)"
    by (rule registry_inv_do [OF registry_inv_new, of "RegProfile ?plan"]) blast
  then show ?thesis
    using first_plan_wins [OF registry_inv_new, of ?plan "\<lambda>_. 0" "\<lambda>_. 0" m reg
        "profile_plan_new ''id'' PolicyAccess FormatResource ''HTTP'' ''other''"]
    by (auto simp: profile_plan_new_def)
qed

end
