(* ===== verification/Prometheus_Source.thy ===== *)
theory Prometheus_Source
  imports Registry
begin

text \<open>
  What a Prometheus reader captures when it is created (\<open>PrometheusReader::from_registry\<close> and the
  types above it in \<open>src/src/prometheus.rs\<close>): one source per exported view of a slot, sorted by view,
  kind and slot address, without duplicates. The addresses of slots come from the allocator, so they
  are parameters (\<open>tmem\<close> for timing slots, \<open>smem\<close> for scalar cells); all the code relies on is that
  different slots have different addresses.
\<close>

section \<open>Families and sources\<close>

definition FAMILIES :: "(str \<times> counter \<times> bool) list" where
  "FAMILIES =
     [(''brz_req_total'', Total, False),
      (''brz_err_total'', Failure, False),
      (''brz_slow_total'', Slow, False),
      (''brz_req_duration_secs_total'', Elapsed, True),
      (''brz_err_duration_secs_total'', FailureElapsed, True),
      (''brz_slow_duration_secs_total'', SlowElapsed, True),
      (''brz_conn_total'', Total, False),
      (''brz_count_total'', Total, False),
      (''brz_conn'', Total, False),
      (''brz_value'', Total, False)]"

datatype source_kind =
    SkFull
  | SkApiSummary
  | SkApi u16
  | SkTimeout
  | SkConnCounter
  | SkCount
  | SkConnGauge
  | SkGauge

fun supports :: "source_kind \<Rightarrow> nat \<Rightarrow> bool" where
  "supports SkFull family \<longleftrightarrow> family < 6"
| "supports SkApiSummary family \<longleftrightarrow> 1 \<le> family \<and> family < 6"
| "supports (SkApi _) family \<longleftrightarrow> family = 0"
| "supports SkTimeout family \<longleftrightarrow> family = 0"
| "supports SkConnCounter family \<longleftrightarrow> family = 6"
| "supports SkCount family \<longleftrightarrow> family = 7"
| "supports SkConnGauge family \<longleftrightarrow> family = 8"
| "supports SkGauge family \<longleftrightarrow> family = 9"

datatype source_item = TimingItem item_ptr | CounterItem scalar_ptr | GaugeItem scalar_ptr

record source =
  so_output :: profile_output
  so_kind :: source_kind
  so_item :: source_item

section \<open>The derived order\<close>

text \<open>Variants in declaration order, then their contents; pointers by address.\<close>

fun kind_key :: "source_kind \<Rightarrow> nat \<times> nat" where
  "kind_key SkFull = (0, 0)"
| "kind_key SkApiSummary = (1, 0)"
| "kind_key (SkApi code) = (2, unat code)"
| "kind_key SkTimeout = (3, 0)"
| "kind_key SkConnCounter = (4, 0)"
| "kind_key SkCount = (5, 0)"
| "kind_key SkConnGauge = (6, 0)"
| "kind_key SkGauge = (7, 0)"

lemma kind_key_inject [simp]: "kind_key a = kind_key b \<longleftrightarrow> a = b"
  by (cases a; cases b) (simp_all add: word_unat_eq_iff)

instantiation source_kind :: linorder
begin

definition less_eq_source_kind :: "source_kind \<Rightarrow> source_kind \<Rightarrow> bool" where
  "less_eq_source_kind a b \<longleftrightarrow> kind_key a \<le> kind_key b"

definition less_source_kind :: "source_kind \<Rightarrow> source_kind \<Rightarrow> bool" where
  "less_source_kind a b \<longleftrightarrow> kind_key a < kind_key b"

instance
  by standard
    (auto simp: less_eq_source_kind_def less_source_kind_def less_le_not_le
      simp del: less_eq_prod_simp less_prod_simp intro: order_trans dest: order_antisym)

end

fun item_key :: "(item_ptr \<Rightarrow> nat) \<Rightarrow> (scalar_ptr \<Rightarrow> nat) \<Rightarrow> source_item \<Rightarrow> nat \<times> nat" where
  "item_key tmem smem (TimingItem p) = (0, tmem p)"
| "item_key tmem smem (CounterItem p) = (1, smem p)"
| "item_key tmem smem (GaugeItem p) = (2, smem p)"

definition source_key ::
  "(item_ptr \<Rightarrow> nat) \<Rightarrow> (scalar_ptr \<Rightarrow> nat) \<Rightarrow> source \<Rightarrow> profile_output \<times> source_kind \<times> nat \<times> nat" where
  "source_key tmem smem s = (so_output s, so_kind s, item_key tmem smem (so_item s))"

section \<open>Views of a registered metric\<close>

definition single_view :: "str \<Rightarrow> metric_type \<Rightarrow> profile_output \<times> source_kind" where
  "single_view name kind =
     (let (ty, source_kind) =
        (case kind of
           Api code \<Rightarrow> (''API'', SkApi code)
         | ApiTimeout \<Rightarrow> (''API'', SkTimeout)
         | ApiAll \<Rightarrow> (''API'', SkApiSummary)
         | _ \<Rightarrow> (fst (output_of kind), SkFull))
      in (\<lparr>po_type = ty, po_name = name, po_resource = None\<rparr>, source_kind))"

definition api_type :: "metric_type \<Rightarrow> str" where
  "api_type kind =
     (case kind of Api _ \<Rightarrow> ''API'' | ApiTimeout \<Rightarrow> ''API'' | _ \<Rightarrow> fst (output_of kind))"

definition resource_view :: "resource_labels \<Rightarrow> metric_type \<Rightarrow> profile_output \<times> source_kind" where
  "resource_view labels kind =
     (\<lparr>po_type = api_type kind, po_name = rl_name labels, po_resource = Some labels\<rparr>,
      (case kind of
         ApiAll \<Rightarrow> SkApiSummary
       | Api code \<Rightarrow> SkApi code
       | ApiTimeout \<Rightarrow> SkTimeout
       | _ \<Rightarrow> SkFull))"

definition output_view :: "profile_output \<Rightarrow> profile_output \<times> source_kind" where
  "output_view out = (out, if po_type out = ''API'' then SkApiSummary else SkFull)"

fun views :: "profile_meta \<Rightarrow> (profile_output \<times> source_kind) list" where
  "views (Single name kind) = [single_view name kind]"
| "views (Resource labels kind) = [resource_view labels kind]"
| "views (Fanout plan) =
     map output_view (pp_outputs plan) @
     (case pp_aggregate plan of Some out \<Rightarrow> [output_view out] | None \<Rightarrow> [])"

definition timing_sources :: "metric_meta \<Rightarrow> source list" where
  "timing_sources meta =
     map (\<lambda>(out, kind). \<lparr>so_output = out, so_kind = kind, so_item = TimingItem (mm_item meta)\<rparr>)
       (views (mm_profile meta))"

fun scalar_source_kind :: "scalar_kind \<Rightarrow> metric_type \<Rightarrow> source_kind" where
  "scalar_source_kind CounterKind kind =
     (case kind of
        Api code \<Rightarrow> SkApi code
      | ApiTimeout \<Rightarrow> SkTimeout
      | _ \<Rightarrow> if is_conn kind then SkConnCounter else SkCount)"
| "scalar_source_kind GaugeKind kind = (if is_conn kind then SkConnGauge else SkGauge)"

definition scalar_source :: "scalar_meta \<Rightarrow> source" where
  "scalar_source meta =
     \<lparr>so_output = \<lparr>po_type = api_type (sm_kind meta), po_name = sm_name meta, po_resource = sm_resource meta\<rparr>,
      so_kind = scalar_source_kind (sm_mode meta) (sm_kind meta),
      so_item = (case sm_mode meta of CounterKind \<Rightarrow> CounterItem (sm_item meta)
                 | GaugeKind \<Rightarrow> GaugeItem (sm_item meta))\<rparr>"

section \<open>Capturing the sources\<close>

text \<open>The timing shards are visited first and the scalar shards after them, each at its own moment;
  \<open>collect_sources\<close> is what is collected when nothing happens meanwhile.\<close>

definition collect_sources_at :: "(nat \<Rightarrow> registry) \<Rightarrow> source list result" where
  "collect_sources_at regs =
     res_bind (registry_for_each_meta_at regs (\<lambda>_ _ meta. Inr (timing_sources meta))) (\<lambda>timings.
     res_bind (scalar_for_each_at (\<lambda>i. rg_scalars (regs (SHARD_COUNT + i))) (\<lambda>_ _ meta. Inr (scalar_source meta)))
       (\<lambda>scalars. Inr (concat timings @ scalars)))"

definition collect_sources :: "registry \<Rightarrow> source list result" where
  "collect_sources reg = collect_sources_at (\<lambda>_. reg)"

definition sorted_sources :: "(item_ptr \<Rightarrow> nat) \<Rightarrow> (scalar_ptr \<Rightarrow> nat) \<Rightarrow> source list \<Rightarrow> source list" where
  "sorted_sources tmem smem sources = remdups_adj (sort_key (source_key tmem smem) sources)"

end
