(* ===== verification/Rust_F64.thy ===== *)
theory Rust_F64
  imports Metrics_Prelude Complex_Main
begin

text \<open>
  The two operations of Rust's \<open>f64\<close> that the exporter uses on state values: \<open>str::parse\<close> (the decimal
  nearest binary64, ties to even, overflow to infinity) and \<open>Display\<close> (the shortest decimal that reads
  back as the same number, nearest to it, without an exponent). A finite number is a sign, a mantissa
  and a binary exponent; all arithmetic is exact on natural numbers.
\<close>

section \<open>Numbers\<close>

datatype f64 = F64Finite bool nat int | F64Inf bool | F64NaN

fun f64_ok :: "f64 \<Rightarrow> bool" where
  "f64_ok (F64Finite neg m e) \<longleftrightarrow>
     m < 2 ^ 53 \<and> - 1074 \<le> e \<and> e \<le> 971 \<and> (2 ^ 52 \<le> m \<or> e = - 1074)"
| "f64_ok _ \<longleftrightarrow> True"

fun is_finite :: "f64 \<Rightarrow> bool" where
  "is_finite (F64Finite neg m e) \<longleftrightarrow> True"
| "is_finite _ \<longleftrightarrow> False"

section \<open>Rounding\<close>

fun bit_len :: "nat \<Rightarrow> nat" where
  "bit_len n = (if n = 0 then 0 else Suc (bit_len (n div 2)))"

declare bit_len.simps [simp del]

definition div_half_even :: "nat \<Rightarrow> nat \<Rightarrow> nat" where
  "div_half_even a b =
     (let q = a div b; r = a mod b
      in if 2 * r < b then q else if b < 2 * r then Suc q else if even q then q else Suc q)"

text \<open>The mantissa and the exponent of the binary64 nearest to \<open>n / d\<close>, exponent unbounded above.\<close>

definition round_ratio :: "nat \<Rightarrow> nat \<Rightarrow> nat \<times> int" where
  "round_ratio n d =
     (if n = 0 then (0, - 1074)
      else let e0 = int (bit_len n) - int (bit_len d) - 53;
               big = (2 ^ 53 * (d * 2 ^ nat e0) \<le> n * 2 ^ nat (- e0));
               e = max (- 1074) (if big then e0 + 1 else e0);
               q = div_half_even (n * 2 ^ nat (- e)) (d * 2 ^ nat e)
           in if q = 2 ^ 53 then (2 ^ 52, e + 1) else (q, e))"

definition f64_of_ratio :: "bool \<Rightarrow> nat \<Rightarrow> nat \<Rightarrow> f64" where
  "f64_of_ratio neg n d =
     (let (m, e) = round_ratio n d in if 971 < e then F64Inf neg else F64Finite neg m e)"

text \<open>The number \<open>q\<close> times ten to the \<open>p\<close>.\<close>

definition f64_of_decimal :: "bool \<Rightarrow> nat \<Rightarrow> int \<Rightarrow> f64" where
  "f64_of_decimal neg q p =
     (if 0 \<le> p then f64_of_ratio neg (q * 10 ^ nat p) 1 else f64_of_ratio neg q (10 ^ nat (- p)))"

section \<open>Parsing\<close>

definition ascii_lower :: "char \<Rightarrow> char" where
  "ascii_lower c =
     (let n = of_char c :: nat in if 65 \<le> n \<and> n \<le> 90 then char_of (n + 32) else c)"

fun strip_sign :: "str \<Rightarrow> bool \<times> str" where
  "strip_sign (c # s) =
     (if c = CHR ''-'' then (True, s) else if c = CHR ''+'' then (False, s) else (False, c # s))"
| "strip_sign [] = (False, [])"

definition parse_exponent :: "str \<Rightarrow> int option" where
  "parse_exponent s =
     (let (neg, ds) = strip_sign s
      in if ds = [] \<or> \<not> list_all is_digit ds then None
         else Some (if neg then - int (read_nat ds) else int (read_nat ds)))"

definition parse_tail :: "str \<Rightarrow> int option" where
  "parse_tail s =
     (case s of [] \<Rightarrow> Some 0
      | c # s' \<Rightarrow> if c = CHR ''e'' \<or> c = CHR ''E'' then parse_exponent s' else None)"

definition parse_fraction :: "str \<Rightarrow> str \<times> str" where
  "parse_fraction s =
     (case s of [] \<Rightarrow> ([], [])
      | c # s' \<Rightarrow> if c = CHR ''.'' then (takeWhile is_digit s', dropWhile is_digit s') else ([], c # s'))"

definition parse_number :: "str \<Rightarrow> (nat \<times> int) option" where
  "parse_number s =
     (let ip = takeWhile is_digit s; (fp, rest) = parse_fraction (dropWhile is_digit s)
      in if ip = [] \<and> fp = [] then None
         else map_option (\<lambda>x. (read_nat (ip @ fp), x - int (length fp))) (parse_tail rest))"

definition parse_f64 :: "str \<Rightarrow> f64 option" where
  "parse_f64 s =
     (let (neg, body) = strip_sign s; name = map ascii_lower body
      in case parse_number body of
           Some (q, p) \<Rightarrow> Some (f64_of_decimal neg q p)
         | None \<Rightarrow>
             if name = ''inf'' \<or> name = ''infinity'' then Some (F64Inf neg)
             else if name = ''nan'' then Some F64NaN
             else None)"

section \<open>Display\<close>

text \<open>
  The shortest decimal, digit by digit from the left: at position \<open>p\<close> the two neighbours of the
  number with \<open>p\<close> as last digit; the first position where one of them reads back as the number wins,
  the nearer one when both do, the upper one on a tie.
\<close>

definition digits_at :: "nat \<Rightarrow> int \<Rightarrow> int \<Rightarrow> nat option" where
  "digits_at m e p =
     (let a = m * 2 ^ nat e * 10 ^ nat (- p);
          b = 2 ^ nat (- e) * 10 ^ nat p;
          q = a div b; r = a mod b;
          down = (f64_of_decimal False q p = F64Finite False m e);
          up = (f64_of_decimal False (Suc q) p = F64Finite False m e)
      in if down \<and> up then Some (if 2 * r < b then q else Suc q)
         else if down then Some q
         else if up then Some (Suc q)
         else None)"

function shortest_from :: "nat \<Rightarrow> int \<Rightarrow> int \<Rightarrow> (nat \<times> int) option" where
  "shortest_from m e p =
     (case digits_at m e p of
        Some q \<Rightarrow> Some (q, p)
      | None \<Rightarrow> if p \<le> - 1074 then None else shortest_from m e (p - 1))"
  by pat_completeness auto
termination
  by (relation "measure (\<lambda>(m, e, p). nat (p + 1074))") auto

declare shortest_from.simps [simp del]

definition shortest :: "nat \<Rightarrow> int \<Rightarrow> (nat \<times> int) option" where
  "shortest m e =
     (let whole = m * 2 ^ nat e div 2 ^ nat (- e)
      in shortest_from m e (if whole = 0 then 0 else int (length (show_nat whole))))"

definition show_decimal :: "nat \<Rightarrow> int \<Rightarrow> str" where
  "show_decimal q p =
     (let ds = show_nat q; point = int (length ds) + p
      in if point \<le> 0 then ''0.'' @ replicate (nat (- point)) (CHR ''0'') @ ds
         else if p < 0 then take (nat point) ds @ ''.'' @ drop (nat point) ds
         else ds @ replicate (nat p) (CHR ''0''))"

fun show_f64 :: "f64 \<Rightarrow> str" where
  "show_f64 (F64Finite neg m e) =
     (if neg then ''-'' else '''') @
     (if m = 0 then ''0''
      else case shortest m e of Some (q, p) \<Rightarrow> show_decimal q p | None \<Rightarrow> '''')"
| "show_f64 (F64Inf neg) = (if neg then ''-inf'' else ''inf'')"
| "show_f64 F64NaN = ''NaN''"

section \<open>Lemmas: rounding\<close>

lemma bit_len_bounds: "0 < n \<Longrightarrow> 2 ^ (bit_len n - 1) \<le> n \<and> n < 2 ^ bit_len n \<and> 0 < bit_len n"
proof (induction n rule: bit_len.induct)
  case (1 n)
  show ?case
  proof (cases "n div 2 = 0")
    case True
    with 1 have "n = 1" by simp
    then show ?thesis by (simp add: bit_len.simps)
  next
    case False
    with 1 have IH: "2 ^ (bit_len (n div 2) - 1) \<le> n div 2" "n div 2 < 2 ^ bit_len (n div 2)"
      "0 < bit_len (n div 2)" by auto
    then obtain k where "bit_len (n div 2) = Suc k" by (metis gr0_implies_Suc)
    with IH 1 show ?thesis by (simp add: bit_len.simps [of n]) linarith
  qed
qed

lemma bit_len_powr:
  assumes "0 < n"
  shows "2 powr (real (bit_len n) - 1) \<le> real n" and "real n < 2 powr real (bit_len n)"
proof -
  note b = bit_len_bounds [OF assms]
  have "real (2 ^ (bit_len n - 1)) \<le> real n" by (rule of_nat_mono) (rule b [THEN conjunct1])
  moreover have "real (bit_len n) - 1 = real (bit_len n - 1)" using b by (simp add: of_nat_diff)
  ultimately show "2 powr (real (bit_len n) - 1) \<le> real n"
    by (simp only: powr_realpow of_nat_power of_nat_numeral zero_less_numeral)
  have "real n < real (2 ^ bit_len n)"
    by (rule of_nat_less_iff [THEN iffD2]) (rule b [THEN conjunct2, THEN conjunct1])
  then show "real n < 2 powr real (bit_len n)"
    by (simp only: powr_realpow of_nat_power of_nat_numeral zero_less_numeral)
qed

text \<open>The scaled quotient that is rounded, as a real number.\<close>

lemma scaled_ratio:
  assumes "0 < d"
  shows "real (n * 2 ^ nat (- e)) / real (d * 2 ^ nat e) = real n / real d * 2 powr real_of_int (- e)"
proof (cases "0 \<le> e")
  case True
  then have "2 powr real_of_int e = 2 ^ nat e" by (simp add: powr_real_of_int)
  with True show ?thesis by (simp add: powr_minus_divide)
next
  case False
  then have "2 powr real_of_int (- e) = 2 ^ nat (- e)" by (subst powr_real_of_int) simp_all
  with False show ?thesis by simp
qed

lemma powr_shift:
  "c \<le> r * 2 powr real_of_int (- e) \<longleftrightarrow> c * 2 powr real_of_int e \<le> (r :: real)"
  "r * 2 powr real_of_int (- e) < c \<longleftrightarrow> r < c * 2 powr real_of_int e"
  "r * 2 powr real_of_int (- e) = c \<longleftrightarrow> r = c * 2 powr real_of_int e"
  by (simp_all add: powr_minus_divide pos_le_divide_eq pos_divide_less_eq divide_eq_eq)

lemma two_powr_shift: "2 powr real_of_int (e + numeral k) = 2 ^ numeral k * 2 powr real_of_int e"
  by (simp add: powr_add mult.commute)

definition round_exp :: "nat \<Rightarrow> nat \<Rightarrow> int" where
  "round_exp n d =
     (let e0 = int (bit_len n) - int (bit_len d) - 53
      in if 2 ^ 53 * (d * 2 ^ nat e0) \<le> n * 2 ^ nat (- e0) then e0 + 1 else e0)"

lemma round_exp_bounds:
  assumes "0 < n" and "0 < d"
  shows "2 ^ 52 \<le> real n / real d * 2 powr real_of_int (- round_exp n d)"
    and "real n / real d * 2 powr real_of_int (- round_exp n d) < 2 ^ 53"
proof -
  define bn bd where b: "bn = int (bit_len n)" "bd = int (bit_len d)"
  define e0 where "e0 = bn - bd - 53"
  let ?r = "real n / real d"
  have n: "2 powr (bn - 1) \<le> real n" "real n < 2 powr bn"
    using bit_len_powr [OF assms(1)] by (simp_all add: b(1))
  have d: "2 powr (bd - 1) \<le> real d" "real d < 2 powr bd"
    using bit_len_powr [OF assms(2)] by (simp_all add: b(2))
  have split: "2 powr (bn - 1) = 2 powr (e0 + 52) * 2 powr bd" "2 powr bn = 2 powr (e0 + 54) * 2 powr (bd - 1)"
    by (simp_all add: e0_def powr_add [symmetric])
  have "2 powr (e0 + 52) * real d \<le> 2 powr (e0 + 52) * 2 powr bd"
    using d(2) by (intro mult_left_mono) simp_all
  then have "2 powr (e0 + 52) * real d \<le> real n" using n(1) by (simp only: split)
  then have lo: "2 powr (e0 + 52) \<le> ?r" using assms(2) by (simp add: pos_le_divide_eq)
  have "2 powr (e0 + 54) * 2 powr (bd - 1) \<le> 2 powr (e0 + 54) * real d"
    using d(1) by (intro mult_left_mono) simp_all
  then have "real n < 2 powr (e0 + 54) * real d" using n(2) by (simp only: split)
  then have hi: "?r < 2 powr (e0 + 54)" using assms(2) by (simp add: pos_divide_less_eq)
  have big: "2 ^ 53 * (d * 2 ^ nat e0) \<le> n * 2 ^ nat (- e0) \<longleftrightarrow> 2 powr (e0 + 53) \<le> ?r"
  proof -
    have "2 ^ 53 * (d * 2 ^ nat e0) \<le> n * 2 ^ nat (- e0) \<longleftrightarrow>
        real (2 ^ 53 * (d * 2 ^ nat e0)) \<le> real (n * 2 ^ nat (- e0))" by (simp only: of_nat_le_iff)
    also have "\<dots> \<longleftrightarrow> 2 ^ 53 \<le> real (n * 2 ^ nat (- e0)) / real (d * 2 ^ nat e0)"
      using assms(2) by (simp add: pos_le_divide_eq mult.assoc)
    also have "\<dots> \<longleftrightarrow> 2 powr (e0 + 53) \<le> ?r"
      unfolding scaled_ratio [OF assms(2)] powr_shift two_powr_shift ..
    finally show ?thesis .
  qed
  have E: "round_exp n d = (if 2 powr (e0 + 53) \<le> ?r then e0 + 1 else e0)"
    unfolding round_exp_def Let_def b [symmetric] e0_def [symmetric] big ..
  show "2 ^ 52 \<le> ?r * 2 powr real_of_int (- round_exp n d)"
  proof (cases "2 powr (e0 + 53) \<le> ?r")
    case True
    then have "2 powr (e0 + 53) * 2 powr real_of_int (- (e0 + 1)) \<le> ?r * 2 powr real_of_int (- (e0 + 1))"
      by (intro mult_right_mono) simp_all
    with True show ?thesis by (simp add: E powr_add [symmetric])
  next
    case False
    have "2 powr (e0 + 52) * 2 powr real_of_int (- e0) \<le> ?r * 2 powr real_of_int (- e0)"
      using lo by (intro mult_right_mono) simp_all
    with False show ?thesis by (simp add: E powr_add [symmetric])
  qed
  show "?r * 2 powr real_of_int (- round_exp n d) < 2 ^ 53"
  proof (cases "2 powr (e0 + 53) \<le> ?r")
    case True
    have "?r * 2 powr real_of_int (- (e0 + 1)) < 2 powr (e0 + 54) * 2 powr real_of_int (- (e0 + 1))"
      using hi by (intro mult_strict_right_mono) simp_all
    with True show ?thesis by (simp add: E powr_add [symmetric])
  next
    case False
    then have "?r * 2 powr real_of_int (- e0) < 2 powr (e0 + 53) * 2 powr real_of_int (- e0)"
      by (intro mult_strict_right_mono) simp_all
    with False show ?thesis by (simp add: E powr_add [symmetric])
  qed
qed

lemma round_ratio_eq:
  "round_ratio n d =
     (if n = 0 then (0, - 1074)
      else let e = max (- 1074) (round_exp n d);
               q = div_half_even (n * 2 ^ nat (- e)) (d * 2 ^ nat e)
           in if q = 2 ^ 53 then (2 ^ 52, e + 1) else (q, e))"
  unfolding round_ratio_def round_exp_def Let_def ..

lemma div_half_even_bounds:
  assumes "0 < b"
  shows "\<bar>real (div_half_even a b) - real a / real b\<bar> \<le> 1 / 2"
proof -
  define q r where "q = a div b" and "r = a mod b"
  have "real a = real q * real b + real r"
    unfolding q_def r_def by (metis div_mult_mod_eq of_nat_add of_nat_mult)
  then have "real a / real b = real q + real r / real b" using assms by (simp add: field_simps)
  moreover have "real r / real b < 1" "0 \<le> real r / real b" using assms by (simp_all add: r_def)
  moreover have "2 * r < b \<Longrightarrow> real r / real b < 1 / 2" "b < 2 * r \<Longrightarrow> 1 / 2 < real r / real b"
    "2 * r = b \<Longrightarrow> real r / real b = 1 / 2"
    using assms by (simp_all add: field_simps)
  ultimately have "real a / real b = real q + x" "0 \<le> x" "x < 1" "2 * r < b \<Longrightarrow> x < 1 / 2"
      "b < 2 * r \<Longrightarrow> 1 / 2 < x" "2 * r = b \<Longrightarrow> x = 1 / 2" if "x = real r / real b" for x
    using that by simp_all
  from this [OF refl] show ?thesis
    unfolding div_half_even_def Let_def q_def [symmetric] r_def [symmetric]
    by (cases "2 * r" b rule: linorder_cases) (auto simp: abs_le_iff)
qed

lemma div_half_even_exact [simp]: "0 < b \<Longrightarrow> div_half_even (m * b) b = m"
  by (simp add: div_half_even_def)

lemma round_exp_unique:
  assumes "0 < n" "0 < d" and "2 ^ 52 \<le> real n / real d * 2 powr real_of_int (- e)"
    and "real n / real d * 2 powr real_of_int (- e) < 2 ^ 53"
  shows "round_exp n d = e"
proof -
  let ?r = "real n / real d"
  have aux: "e' \<le> f" if "2 ^ 52 \<le> ?r * 2 powr real_of_int (- e')" "?r * 2 powr real_of_int (- f) < 2 ^ 53" for e' f
  proof -
    have "2 powr (e' + 52) < 2 powr (f + 53)"
      unfolding two_powr_shift using that unfolding powr_shift by linarith
    then have "e' + 52 < f + 53" by (simp only: powr_less_cancel_iff of_int_less_iff)
    then show ?thesis by linarith
  qed
  note b = round_exp_bounds [OF assms(1,2)]
  show ?thesis using aux [OF assms(3) b(2)] aux [OF b(1) assms(4)] by simp
qed

text \<open>A number that binary64 can represent is rounded to itself.\<close>

lemma round_ratio_exact:
  assumes ok: "f64_ok (F64Finite neg m e)" and d: "0 < d"
    and eq: "n * 2 ^ nat (- e) = m * (d * 2 ^ nat e)"
  shows "round_ratio n d = (m, e)"
proof (cases "m = 0")
  case True
  with eq ok show ?thesis by (simp add: round_ratio_def)
next
  case False
  then have n: "0 < n" using eq d by (cases n) auto
  have "real (n * 2 ^ nat (- e)) / real (d * 2 ^ nat e) = real m"
    unfolding eq using d by simp
  then have r: "real n / real d * 2 powr real_of_int (- e) = real m"
    by (simp only: scaled_ratio [OF d])
  have m: "real m < 2 ^ 53" using ok by (simp add: of_nat_less_numeral_power_cancel_iff)
  have "max (- 1074) (round_exp n d) = e"
  proof (cases "2 ^ 52 \<le> m")
    case True
    then have "2 ^ 52 \<le> real m" by (simp add: numeral_power_le_of_nat_cancel_iff)
    with r m have "round_exp n d = e" by (intro round_exp_unique [OF n d]) simp_all
    with ok show ?thesis by simp
  next
    case False
    then have e: "e = - 1074" and small: "real m < 2 ^ 52"
      using ok by (auto simp: of_nat_less_numeral_power_cancel_iff)
    have "real m * 2 powr real_of_int e < 2 ^ 52 * 2 powr real_of_int e"
      using small by (intro mult_strict_right_mono) simp_all
    then have "2 powr (round_exp n d + 52) < 2 powr (e + 52)"
      unfolding two_powr_shift
      using round_exp_bounds(1) [OF n d] r unfolding powr_shift by linarith
    then have "round_exp n d + 52 < e + 52" by (simp only: powr_less_cancel_iff of_int_less_iff)
    with e show ?thesis by simp
  qed
  moreover have "m \<noteq> 2 ^ 53" using ok by simp
  ultimately show ?thesis using n d eq by (simp add: round_ratio_eq Let_def)
qed

text \<open>Rounding yields a canonical mantissa within half a unit of the number.\<close>

lemma round_ratio_canonical:
  assumes d: "0 < d" and "round_ratio n d = (m, e)"
  shows "m < 2 ^ 53 \<and> - 1074 \<le> e \<and> (2 ^ 52 \<le> m \<or> e = - 1074)"
proof (cases "n = 0")
  case True
  with assms show ?thesis by (auto simp: round_ratio_def)
next
  case False
  define f where "f = max (- 1074) (round_exp n d)"
  define q where "q = div_half_even (n * 2 ^ nat (- f)) (d * 2 ^ nat f)"
  define x where "x = real n / real d * 2 powr real_of_int (- f)"
  have n: "0 < n" using False by simp
  have me: "(m, e) = (if q = 2 ^ 53 then (2 ^ 52, f + 1) else (q, f))"
    unfolding assms(2) [symmetric] round_ratio_eq Let_def f_def [symmetric] q_def [symmetric]
    using False by simp
  have near: "\<bar>real q - x\<bar> \<le> 1 / 2"
    unfolding q_def x_def scaled_ratio [OF d, symmetric] using d by (intro div_half_even_bounds) simp
  note b = round_exp_bounds [OF n d]
  have f: "- 1074 \<le> f" "round_exp n d \<le> f" by (simp_all add: f_def)
  have "2 powr real_of_int (- f) \<le> 2 powr real_of_int (- round_exp n d)" using f(2) by simp
  then have "x \<le> real n / real d * 2 powr real_of_int (- round_exp n d)"
    unfolding x_def by (intro mult_left_mono) simp_all
  with b(2) have hi: "x < 2 ^ 53" by linarith
  have "real q < 2 ^ 53 + 1" using near hi by linarith
  then have "real q < real (2 ^ 53 + 1)" by simp
  then have q: "q \<le> 2 ^ 53" unfolding of_nat_less_iff by simp
  have lo: "2 ^ 52 \<le> q \<or> f = - 1074"
  proof (cases "f = round_exp n d")
    case True
    then have "2 ^ 52 \<le> x" using b(1) by (simp only: x_def)
    moreover have "x < real q + 1" using near [unfolded abs_le_iff] by linarith
    ultimately have "real (2 ^ 52) < real (q + 1)" by (simp only: of_nat_add of_nat_1 of_nat_power of_nat_numeral)
    then have "2 ^ 52 < q + 1" unfolding of_nat_less_iff .
    then show ?thesis by simp
  qed (simp add: f_def)
  show ?thesis using me q lo f(1) by (cases "q = 2 ^ 53") auto
qed

lemma f64_of_ratio_ok: "0 < d \<Longrightarrow> f64_ok (f64_of_ratio neg n d)"
  using round_ratio_canonical [of d n] by (auto simp: f64_of_ratio_def split: prod.splits)

lemma f64_of_decimal_ok: "f64_ok (f64_of_decimal neg q p)"
  by (simp add: f64_of_decimal_def f64_of_ratio_ok)

lemma parse_f64_ok: "parse_f64 s = Some v \<Longrightarrow> f64_ok v"
  by (auto simp: parse_f64_def Let_def f64_of_decimal_ok split: prod.splits option.splits if_splits)

section \<open>Lemmas: printing and reading back\<close>

lemma f64_of_decimal_sign:
  "f64_of_decimal False q p = F64Finite False m e \<Longrightarrow> f64_of_decimal neg q p = F64Finite neg m e"
  by (auto simp: f64_of_decimal_def f64_of_ratio_def split: prod.splits if_splits)

lemma digits_at_sound: "digits_at m e p = Some q \<Longrightarrow> f64_of_decimal False q p = F64Finite False m e"
  by (auto simp: digits_at_def Let_def split: if_splits)

lemma shortest_from_sound:
  "shortest_from m e p = Some (q, p') \<Longrightarrow> f64_of_decimal False q p' = F64Finite False m e"
proof (induction m e p rule: shortest_from.induct)
  case (1 m e p)
  from 1(2) show ?case
    by (subst (asm) shortest_from.simps) (auto simp: digits_at_sound intro: 1(1) split: option.splits if_splits)
qed

lemma shortest_from_reaches:
  assumes "digits_at m e p' \<noteq> None" and "- 1074 \<le> p'" and "p' \<le> p"
  shows "shortest_from m e p \<noteq> None"
  using assms
proof (induction m e p rule: shortest_from.induct)
  case (1 m e p)
  show ?case
  proof (cases "digits_at m e p")
    case None
    with 1 have "p' \<noteq> p" by auto
    with 1 None show ?thesis by (subst shortest_from.simps) auto
  next
    case (Some q)
    then show ?thesis by (subst shortest_from.simps) simp
  qed
qed

text \<open>At the last binary digit the decimal expansion is exact, so the search always succeeds.\<close>

lemma digits_at_exact:
  assumes "f64_ok (F64Finite neg m e)"
  shows "digits_at m e (min 0 e) \<noteq> None"
proof (cases "0 \<le> e")
  case True
  have "f64_of_decimal False (m * 2 ^ nat e) 0 = F64Finite False m e"
    using round_ratio_exact [OF assms, of 1 "m * 2 ^ nat e"] assms True
    by (simp add: f64_of_decimal_def f64_of_ratio_def)
  with True show ?thesis by (simp add: digits_at_def Let_def)
next
  case False
  define k where "k = nat (- e)"
  have k: "nat (- e) = k" "nat e = 0" using False by (simp_all add: k_def)
  have ten: "(10 :: nat) ^ k = 5 ^ k * 2 ^ k" by (simp add: power_mult_distrib [symmetric])
  have "m * 10 ^ k div 2 ^ k = m * 5 ^ k" by (simp add: ten mult.assoc [symmetric])
  moreover have "f64_of_decimal False (m * 5 ^ k) e = F64Finite False m e"
    using round_ratio_exact [OF assms, of "10 ^ k" "m * 5 ^ k"] assms False
    by (simp add: f64_of_decimal_def f64_of_ratio_def k ten)
  ultimately show ?thesis using False by (simp add: digits_at_def Let_def k min_def)
qed

lemma shortest_some:
  assumes "f64_ok (F64Finite neg m e)"
  obtains q p where "shortest m e = Some (q, p)" and "f64_of_decimal neg' q p = F64Finite neg' m e"
proof -
  have "shortest_from m e p \<noteq> None" if "0 \<le> p" for p
    using assms that by (intro shortest_from_reaches [OF digits_at_exact [OF assms]]) auto
  then have "shortest m e \<noteq> None" by (simp add: shortest_def Let_def)
  then obtain q p where qp: "shortest m e = Some (q, p)" by auto
  then have "f64_of_decimal False q p = F64Finite False m e"
    unfolding shortest_def Let_def by (rule shortest_from_sound)
  then show thesis by (rule that [OF qp f64_of_decimal_sign])
qed

lemma is_digit_chars [simp]: "is_digit (CHR ''0'')" "\<not> is_digit (CHR ''.'')" "\<not> is_digit (CHR ''-'')"
  "\<not> is_digit (CHR ''+'')" "\<not> is_digit (CHR ''e'')" "\<not> is_digit (CHR ''E'')"
  by (simp_all add: is_digit_def)

lemma read_nat_append_zeros: "read_nat (xs @ replicate k (CHR ''0'')) = read_nat xs * 10 ^ k"
proof (induction k)
  case (Suc k)
  have "read_nat (xs @ replicate (Suc k) (CHR ''0'')) = 10 * read_nat (xs @ replicate k (CHR ''0''))"
    unfolding replicate_Suc replicate_append_same [symmetric] append_assoc [symmetric] read_nat_snoc
    by (simp add: digit_value_def)
  with Suc show ?case by simp
qed simp

text \<open>A decimal point between digits, or digits alone.\<close>

lemma parse_digits_point:
  assumes "\<forall>c \<in> set ip. is_digit c" "\<forall>c \<in> set fp. is_digit c" "ip \<noteq> []"
  shows "parse_number (ip @ CHR ''.'' # fp) = Some (read_nat (ip @ fp), - int (length fp))"
    and "parse_number ip = Some (read_nat ip, 0)"
proof -
  have t: "takeWhile is_digit (ip @ CHR ''.'' # fp) = ip" "dropWhile is_digit (ip @ CHR ''.'' # fp) = CHR ''.'' # fp"
    using assms(1) by (simp_all add: takeWhile_append2 dropWhile_append2)
  have f: "takeWhile is_digit fp = fp" "dropWhile is_digit fp = []"
    "takeWhile is_digit ip = ip" "dropWhile is_digit ip = []"
    using assms(1,2) by simp_all
  show "parse_number (ip @ CHR ''.'' # fp) = Some (read_nat (ip @ fp), - int (length fp))"
    by (simp add: parse_number_def t f parse_fraction_def parse_tail_def assms(3))
  show "parse_number ip = Some (read_nat ip, 0)"
    by (simp add: parse_number_def f parse_fraction_def parse_tail_def assms(3))
qed

lemma parse_show_decimal:
  "\<exists>q' p'. parse_number (show_decimal q p) = Some (q', p') \<and> f64_of_decimal neg q' p' = f64_of_decimal neg q p"
proof -
  define ds where "ds = show_nat q"
  define point where "point = int (length ds) + p"
  have ds: "\<forall>c \<in> set ds. is_digit c" "ds \<noteq> []" "read_nat ds = q"
    using show_nat_digits by (auto simp: ds_def)
  consider (small) "point \<le> 0" | (mid) "0 < point" "p < 0" | (whole) "0 \<le> p"
    by linarith
  then show ?thesis
  proof cases
    case small
    let ?fp = "replicate (nat (- point)) (CHR ''0'') @ ds"
    have "show_decimal q p = ''0'' @ CHR ''.'' # ?fp"
      using small by (simp add: show_decimal_def Let_def ds_def point_def)
    moreover have "- int (length ?fp) = p" using small by (simp add: point_def)
    moreover have "read_nat (''0'' @ ?fp) = q"
      using read_nat_zeros [of "Suc (nat (- point))" ds] ds(3) by simp
    moreover have "\<forall>c \<in> set ?fp. is_digit c" using ds(1) by auto
    ultimately have "parse_number (show_decimal q p) = Some (q, p)"
      using parse_digits_point(1) [of "''0''" ?fp] by simp
    then show ?thesis by blast
  next
    case mid
    let ?k = "nat point"
    have k: "?k < length ds" "0 < ?k" using mid by (simp_all add: point_def)
    have "show_decimal q p = take ?k ds @ CHR ''.'' # drop ?k ds"
      using mid by (simp add: show_decimal_def Let_def ds_def point_def)
    moreover have "- int (length (drop ?k ds)) = p" using mid k by (simp add: point_def)
    moreover have "take ?k ds \<noteq> []" using k ds(2) by simp
    moreover have "\<forall>c \<in> set (take ?k ds). is_digit c" "\<forall>c \<in> set (drop ?k ds). is_digit c"
      using ds(1) by (auto dest: in_set_takeD in_set_dropD)
    ultimately show ?thesis
      using parse_digits_point(1) [of "take ?k ds" "drop ?k ds"] ds(3) by simp
  next
    case whole
    have "\<not> int (length ds) + p \<le> 0" using whole ds(2) by (simp add: not_le add_pos_nonneg)
    then have "show_decimal q p = ds @ replicate (nat p) (CHR ''0'')"
      using whole by (simp add: show_decimal_def Let_def ds_def)
    moreover have "\<forall>c \<in> set (ds @ replicate (nat p) (CHR ''0'')). is_digit c" using ds(1) by auto
    ultimately have "parse_number (show_decimal q p) = Some (q * 10 ^ nat p, 0)"
      using parse_digits_point(2) [of "ds @ replicate (nat p) (CHR ''0'')" "[]"] ds
      by (simp add: read_nat_append_zeros)
    then show ?thesis using whole by (simp add: f64_of_decimal_def)
  qed
qed

lemma show_decimal_chars: "c \<in> set (show_decimal q p) \<Longrightarrow> is_digit c \<or> c = CHR ''.''"
  by (auto simp: show_decimal_def Let_def show_nat_digits
      dest: in_set_takeD in_set_dropD split: if_splits)

lemma show_decimal_first: "show_decimal q p = c # s \<Longrightarrow> is_digit c"
proof -
  assume a: "show_decimal q p = c # s"
  obtain d ds where ds: "show_nat q = d # ds" by (cases "show_nat q") auto
  have "is_digit d" using show_nat_digits [of d q] ds by simp
  with a ds show ?thesis
    by (cases "nat (int (length (show_nat q)) + p)")
      (auto simp: show_decimal_def Let_def split: if_splits)
qed

lemma parse_signed:
  assumes "parse_number s = Some (q, p)" and "s = c # t" and "is_digit c"
  shows "parse_f64 ((if neg then ''-'' else '''') @ s) = Some (f64_of_decimal neg q p)"
proof -
  have "c \<noteq> CHR ''-''" "c \<noteq> CHR ''+''" using assms(3) by (auto simp: is_digit_def)
  with assms show ?thesis by (cases neg) (simp_all add: parse_f64_def Let_def)
qed

lemma show_f64_digits:
  assumes "f64_ok (F64Finite neg m e)"
  obtains c ds q p where "show_f64 (F64Finite neg m e) = (if neg then ''-'' else '''') @ c # ds"
    and "\<And>c'. c' \<in> set (c # ds) \<Longrightarrow> is_digit c' \<or> c' = CHR ''.''" and "is_digit c"
    and "parse_number (c # ds) = Some (q, p)" and "f64_of_decimal neg q p = F64Finite neg m e"
proof (cases "m = 0")
  case True
  have "parse_number ''0'' = Some (0, 0)"
    using parse_digits_point(2) [of "''0''" "[]"] by (simp add: read_nat_def digit_value_def)
  moreover have "f64_of_decimal neg 0 0 = F64Finite neg m e"
    using assms True by (simp add: f64_of_decimal_def f64_of_ratio_def round_ratio_def)
  ultimately show thesis using True by (intro that [of "CHR ''0''" "[]" 0 0]) simp_all
next
  case False
  obtain q p where qp: "shortest m e = Some (q, p)" "f64_of_decimal neg q p = F64Finite neg m e"
    by (rule shortest_some [OF assms])
  obtain q' p' where p': "parse_number (show_decimal q p) = Some (q', p')"
    "f64_of_decimal neg q' p' = F64Finite neg m e"
    using parse_show_decimal [of q p neg] qp(2) by auto
  obtain c ds where c: "show_decimal q p = c # ds"
    using p'(1) by (cases "show_decimal q p") (auto simp: parse_number_def parse_fraction_def)
  have "show_f64 (F64Finite neg m e) = (if neg then ''-'' else '''') @ c # ds"
    using False qp(1) c by simp
  moreover have "is_digit c' \<or> c' = CHR ''.''" if "c' \<in> set (c # ds)" for c'
    using show_decimal_chars [of c' q p] that by (simp only: c)
  ultimately show thesis
    using show_decimal_first [OF c] p' that [of c ds q' p'] by (simp only: c)
qed

section \<open>Printing and parsing back\<close>

text \<open>Every string that parses as a finite \<open>f64\<close> is printed as an optional minus sign and digits with a
  decimal point at most, and the printed number parses to the very same \<open>f64\<close>: the shortest-digits search
  always finds a decimal, for subnormals and the largest numbers too.\<close>

lemma f64_roundtrip:
  assumes "parse_f64 s = Some v" and "is_finite v"
  shows "parse_f64 (show_f64 v) = Some v \<and>
    (\<exists>neg ds. show_f64 v = (if neg then ''-'' else '''') @ ds \<and> ds \<noteq> [] \<and>
       (\<forall>c \<in> set ds. is_digit c \<or> c = CHR ''.''))"
proof -
  obtain neg m e where v: "v = F64Finite neg m e" using assms(2) by (cases v) auto
  have ok: "f64_ok (F64Finite neg m e)" using parse_f64_ok [OF assms(1)] by (simp only: v)
  obtain c ds q p where ds: "show_f64 v = (if neg then ''-'' else '''') @ c # ds"
    "\<And>c'. c' \<in> set (c # ds) \<Longrightarrow> is_digit c' \<or> c' = CHR ''.''" "is_digit c"
    "parse_number (c # ds) = Some (q, p)" "f64_of_decimal neg q p = v"
    unfolding v by (rule show_f64_digits [OF ok]) blast
  have "parse_f64 (show_f64 v) = Some v"
    unfolding ds(1) using parse_signed [OF ds(4) refl ds(3), of neg] ds(5) by simp
  then show ?thesis using ds(1,2) by blast
qed

end
