(* ===== verification/Prometheus_Reader.thy ===== *)
theory Prometheus_Reader
  imports Prometheus_Source Rust_F64
begin

text \<open>
  The streaming reader (\<open>PrometheusReader\<close> of \<open>src/src/prometheus.rs\<close>): \<open>next_sample\<close> encodes one
  line at a time into a buffer, \<open>Read::read\<close> and the tokio \<open>poll_read\<close> copy the buffer out. Metrics
  are recorded and registered while a reader is in use, so a load sees the registry as it is at that
  moment: \<open>env f i\<close> is the registry when source \<open>i\<close> is loaded for family \<open>f\<close>, a load that happens
  once in the single pass of a reader.
\<close>

section \<open>State\<close>

record reader =
  pr_sources :: "source list"
  pr_states :: "state_snapshot list"
  pr_family :: nat
  pr_source :: nat
  pr_header :: bool
  pr_state :: nat
  pr_state_field :: nat
  pr_buffer :: str
  pr_offset :: nat

text \<open>Creating a reader takes a while: \<open>regs i\<close> is the registry when timing shard \<open>i\<close> is visited, then come
  the scalar shards, and the states are copied last. \<open>from_registry\<close> is the reader created when nothing
  happens meanwhile.\<close>

definition from_registry_at ::
  "(item_ptr \<Rightarrow> nat) \<Rightarrow> (scalar_ptr \<Rightarrow> nat) \<Rightarrow> (nat \<Rightarrow> registry) \<Rightarrow> reader result" where
  "from_registry_at tmem smem regs =
     res_bind (collect_sources_at regs) (\<lambda>sources.
       Inr \<lparr>pr_sources = sorted_sources tmem smem sources,
            pr_states = registry_state_snapshot (regs (2 * SHARD_COUNT)),
            pr_family = 0, pr_source = 0, pr_header = False, pr_state = 0, pr_state_field = 0,
            pr_buffer = [], pr_offset = 0\<rparr>)"

definition from_registry :: "(item_ptr \<Rightarrow> nat) \<Rightarrow> (scalar_ptr \<Rightarrow> nat) \<Rightarrow> registry \<Rightarrow> reader result" where
  "from_registry tmem smem reg = from_registry_at tmem smem (\<lambda>_. reg)"

section \<open>Encoding\<close>

fun escape_byte :: "char \<Rightarrow> str" where
  "escape_byte c =
     (if c = backslash then [backslash, backslash]
      else if c = quote then [backslash, quote]
      else if c = newline then [backslash, CHR ''n'']
      else [c])"

definition label :: "str \<Rightarrow> str" where
  "label s = concat (map escape_byte s)"

fun resource_text :: "resource_labels option \<Rightarrow> str" where
  "resource_text None = []"
| "resource_text (Some r) =
     [quote] @ '',endpoint='' @ [quote] @ label (rl_endpoint r) @
     (case rl_access r of Some a \<Rightarrow> [quote] @ '',access='' @ [quote] @ label (access_label a) | None \<Rightarrow> []) @
     (case rl_role r of Some x \<Rightarrow> [quote] @ '',role='' @ [quote] @ label (role_label x) | None \<Rightarrow> [])"

fun status_text :: "source_kind \<Rightarrow> str" where
  "status_text (SkApi code) = [quote] @ '',status_code='' @ [quote] @ show_nat (unat code)"
| "status_text SkTimeout = [quote] @ '',status_code='' @ [quote] @ ''timeout''"
| "status_text _ = []"

definition hundredths :: "u64 \<Rightarrow> u64" where
  "hundredths v = v div 10000 + (if 5000 \<le> v mod 10000 then 1 else 0)"

definition seconds_text :: "u64 \<Rightarrow> str" where
  "seconds_text v =
     (let h = hundredths v in show_u64 (h div 100) @ ''.'' @ show_pad2 (unat (h mod 100)))"

definition value_text :: "nat \<Rightarrow> bool \<Rightarrow> u64 \<Rightarrow> i64 \<Rightarrow> str" where
  "value_text family seconds v gauge =
     (if 8 \<le> family then show_i64 gauge else if seconds then seconds_text v else show_u64 v)"

definition series_text :: "str \<Rightarrow> profile_output \<Rightarrow> source_kind \<Rightarrow> str" where
  "series_text name out kind =
     name @ ''{type='' @ [quote] @ label (po_type out) @
     [quote] @ '',name='' @ [quote] @ label (po_name out) @
     resource_text (po_resource out) @ status_text kind @ [quote] @ ''} ''"

definition type_line :: "nat \<Rightarrow> str" where
  "type_line family =
     ''# TYPE '' @ fst (FAMILIES ! family) @ '' '' @ (if 8 \<le> family then ''gauge'' else ''counter'') @ [newline]"

definition state_header :: str where
  "state_header = ''# TYPE brz_rpc_state gauge'' @ [newline]"

definition state_line :: "state_snapshot \<Rightarrow> str \<Rightarrow> f64 \<Rightarrow> str" where
  "state_line st field v =
     ''brz_rpc_state{type='' @ [quote] @ label (state_metric_type (st_type st)) @
     [quote] @ '',name='' @ [quote] @ label (st_name st) @
     [quote] @ '',field='' @ [quote] @ label field @ [quote] @ ''} '' @ show_f64 v @ [newline]"

section \<open>Loading\<close>

fun accumulate :: "counter \<Rightarrow> registry \<Rightarrow> source_item \<Rightarrow> u64 \<times> i64 \<Rightarrow> (u64 \<times> i64) result" where
  "accumulate c reg (TimingItem p) (v, gauge) =
     res_bind (registry_slot p reg) (\<lambda>s. Inr (saturating_add v (counter_read c s), gauge))"
| "accumulate c reg (CounterItem p) (v, gauge) =
     res_bind (scalar_load p (rg_scalars reg)) (\<lambda>w. Inr (saturating_add v w, gauge))"
| "accumulate c reg (GaugeItem p) (v, gauge) =
     res_bind (scalar_load p (rg_scalars reg)) (\<lambda>w. Inr (v, saturating_add_i64 gauge w))"

text \<open>The inner loop over the sources with one output and kind, from index \<open>i\<close>.\<close>

function sum_group ::
  "(nat \<Rightarrow> registry) \<Rightarrow> counter \<Rightarrow> profile_output \<Rightarrow> source_kind \<Rightarrow> source list \<Rightarrow> nat \<Rightarrow> u64 \<times> i64 \<Rightarrow>
     (nat \<times> u64 \<times> i64) result" where
  "sum_group env c out kind sources i acc =
     (if i < length sources \<and> so_output (sources ! i) = out \<and> so_kind (sources ! i) = kind
      then (case accumulate c (env i) (so_item (sources ! i)) acc of
              Inl e \<Rightarrow> Inl e
            | Inr acc' \<Rightarrow> sum_group env c out kind sources (Suc i) acc')
      else Inr (i, acc))"
  by pat_completeness auto
termination
  by (relation "measure (\<lambda>(env, c, out, kind, sources, i, acc). length sources - i)") auto

declare sum_group.simps [simp del]

function skip_unsupported :: "nat \<Rightarrow> source list \<Rightarrow> nat \<Rightarrow> nat" where
  "skip_unsupported family sources i =
     (if i < length sources \<and> \<not> supports (so_kind (sources ! i)) family
      then skip_unsupported family sources (Suc i) else i)"
  by pat_completeness auto
termination
  by (relation "measure (\<lambda>(family, sources, i). length sources - i)") auto

declare skip_unsupported.simps [simp del]

section \<open>One line at a time\<close>

text \<open>The loop over the state fields, after the families.\<close>

function next_state :: "reader \<Rightarrow> (bool \<times> reader) result" where
  "next_state r =
     (if pr_state r < length (pr_states r)
      then let st = pr_states r ! pr_state r
           in if pr_state_field r = length (st_fields st)
              then next_state (r\<lparr>pr_state := Suc (pr_state r), pr_state_field := 0\<rparr>)
              else if length (st_fields st) < pr_state_field r then Inl IndexOutOfBounds
              else let (field, val) = st_fields st ! pr_state_field r;
                       r' = r\<lparr>pr_state_field := Suc (pr_state_field r)\<rparr>
                   in case parse_f64 val of
                        None \<Rightarrow> next_state r'
                      | Some v \<Rightarrow>
                          if \<not> is_finite v then next_state r'
                          else Inr (True, r'\<lparr>pr_buffer := pr_buffer r' @ state_line st field v\<rparr>)
      else Inr (False, r))"
  by pat_completeness auto
termination
proof (relation "measures [\<lambda>r. length (pr_states r) - pr_state r,
    \<lambda>r. length (st_fields (pr_states r ! pr_state r)) - pr_state_field r]", goal_cases)
  case (3 r st x field val r')
  then show ?case by (auto simp: Let_def)
qed (auto simp: Let_def)

declare next_state.simps [simp del]

function next_family :: "(nat \<Rightarrow> nat \<Rightarrow> registry) \<Rightarrow> reader \<Rightarrow> (bool \<times> reader) result" where
  "next_family env r =
     (if pr_family r < length FAMILIES
      then let (name, c, seconds) = FAMILIES ! pr_family r
           in if \<not> pr_header r
              then Inr (True, r\<lparr>pr_header := True, pr_buffer := pr_buffer r @ type_line (pr_family r)\<rparr>)
              else let first = skip_unsupported (pr_family r) (pr_sources r) (pr_source r)
                   in if first < length (pr_sources r)
                      then let out = so_output (pr_sources r ! first);
                               kind = so_kind (pr_sources r ! first)
                           in case sum_group (env (pr_family r)) c out kind (pr_sources r) first (0, 0) of
                                Inl e \<Rightarrow> Inl e
                              | Inr (next, v, gauge) \<Rightarrow>
                                  Inr (True, r\<lparr>pr_source := next, pr_buffer := pr_buffer r @
                                    series_text name out kind @
                                    value_text (pr_family r) seconds v gauge @ [newline]\<rparr>)
                      else next_family env
                        (r\<lparr>pr_family := Suc (pr_family r), pr_source := 0, pr_header := False\<rparr>)
      else if \<not> pr_header r
           then Inr (True, r\<lparr>pr_header := True, pr_buffer := pr_buffer r @ state_header\<rparr>)
           else next_state r)"
  by pat_completeness auto
termination
  by (relation "measure (\<lambda>(env, r). length FAMILIES - pr_family r)") auto

declare next_family.simps [simp del]

definition next_sample :: "(nat \<Rightarrow> nat \<Rightarrow> registry) \<Rightarrow> reader \<Rightarrow> (bool \<times> reader) result" where
  "next_sample env r = next_family env (r\<lparr>pr_buffer := [], pr_offset := 0\<rparr>)"

section \<open>Progress\<close>

text \<open>What a reader has left: every line moves it on, which bounds the number of lines and ends the
  copying loops.\<close>

definition work :: "(reader \<Rightarrow> nat) list" where
  "work = [\<lambda>r. length FAMILIES - pr_family r, \<lambda>r. if pr_header r then 0 else 1,
     \<lambda>r. length (pr_sources r) - pr_source r, \<lambda>r. length (pr_states r) - pr_state r,
     \<lambda>r. length (st_fields (pr_states r ! pr_state r)) - pr_state_field r]"

lemma measures_head: "f y < f z \<Longrightarrow> (x, y) \<in> measures (f # fs) \<Longrightarrow> (x, z) \<in> measures (f # fs)"
  by auto

lemma sum_group_le: "sum_group env c out kind sources i acc = Inr (j, v, g) \<Longrightarrow> i \<le> j"
proof (induction env c out kind sources i acc rule: sum_group.induct)
  case (1 env c out kind sources i acc)
  show ?case
  proof (cases "i < length sources \<and> so_output (sources ! i) = out \<and> so_kind (sources ! i) = kind")
    case True
    with 1(2) obtain acc' where a: "accumulate c (env i) (so_item (sources ! i)) acc = Inr acc'"
      "sum_group env c out kind sources (Suc i) acc' = Inr (j, v, g)"
      by (subst (asm) sum_group.simps) (auto split: sum.splits)
    from 1(1) [OF True a] show ?thesis by simp
  next
    case False
    with 1(2) show ?thesis by (subst (asm) sum_group.simps) auto
  qed
qed

lemma sum_group_less:
  assumes "sum_group env c (so_output (sources ! i)) (so_kind (sources ! i)) sources i acc = Inr (j, v, g)"
    and "i < length sources"
  shows "i < j"
  using assms by (subst (asm) sum_group.simps) (auto split: sum.splits dest: sum_group_le)

lemma skip_unsupported_le: "i \<le> skip_unsupported family sources i"
proof (induction family sources i rule: skip_unsupported.induct)
  case (1 family sources i)
  then show ?case by (subst skip_unsupported.simps) auto
qed

text \<open>The four moves of the state loop, and induction along them.\<close>

definition exported :: "str \<Rightarrow> f64 option" where
  "exported val = (case parse_f64 val of None \<Rightarrow> None | Some v \<Rightarrow> if is_finite v then Some v else None)"

lemma next_state_done: "\<not> pr_state r < length (pr_states r) \<Longrightarrow> next_state r = Inr (False, r)"
  by (subst next_state.simps) simp

lemma next_state_wrap:
  "pr_state r < length (pr_states r) \<Longrightarrow> pr_state_field r = length (st_fields (pr_states r ! pr_state r)) \<Longrightarrow>
     next_state r = next_state (r\<lparr>pr_state := Suc (pr_state r), pr_state_field := 0\<rparr>)"
  by (subst next_state.simps) simp

lemma next_state_field:
  assumes "pr_state r < length (pr_states r)"
    and "pr_state_field r < length (st_fields (pr_states r ! pr_state r))"
    and "st_fields (pr_states r ! pr_state r) ! pr_state_field r = (field, val)"
  shows "next_state r =
    (case exported val of
       None \<Rightarrow> next_state (r\<lparr>pr_state_field := Suc (pr_state_field r)\<rparr>)
     | Some v \<Rightarrow> Inr (True, r\<lparr>pr_state_field := Suc (pr_state_field r),
         pr_buffer := pr_buffer r @ state_line (pr_states r ! pr_state r) field v\<rparr>))"
  using assms by (subst next_state.simps) (simp add: Let_def exported_def split: option.split)

lemma next_state_beyond:
  "pr_state r < length (pr_states r) \<Longrightarrow> length (st_fields (pr_states r ! pr_state r)) < pr_state_field r \<Longrightarrow>
     next_state r = Inl IndexOutOfBounds"
  by (subst next_state.simps) simp

lemma next_state_induct [case_names finished wrap field beyond]:
  assumes "\<And>r. \<not> pr_state r < length (pr_states r) \<Longrightarrow> P r"
    and "\<And>r. pr_state r < length (pr_states r) \<Longrightarrow>
      pr_state_field r = length (st_fields (pr_states r ! pr_state r)) \<Longrightarrow>
      P (r\<lparr>pr_state := Suc (pr_state r), pr_state_field := 0\<rparr>) \<Longrightarrow> P r"
    and "\<And>r. pr_state r < length (pr_states r) \<Longrightarrow>
      pr_state_field r < length (st_fields (pr_states r ! pr_state r)) \<Longrightarrow>
      P (r\<lparr>pr_state_field := Suc (pr_state_field r)\<rparr>) \<Longrightarrow> P r"
    and "\<And>r. pr_state r < length (pr_states r) \<Longrightarrow>
      length (st_fields (pr_states r ! pr_state r)) < pr_state_field r \<Longrightarrow> P r"
  shows "P (r :: reader)"
proof (induction r rule: wf_induct [OF wf_measures [of "[\<lambda>r. length (pr_states r) - pr_state r,
    \<lambda>r. length (st_fields (pr_states r ! pr_state r)) - pr_state_field r]"]])
  case (1 r)
  show ?case
  proof (cases "pr_state r < length (pr_states r)")
    case s: True
    consider "pr_state_field r = length (st_fields (pr_states r ! pr_state r))"
      | "pr_state_field r < length (st_fields (pr_states r ! pr_state r))"
      | "length (st_fields (pr_states r ! pr_state r)) < pr_state_field r" by linarith
    then show ?thesis
    proof cases
      case 1
      have "length (pr_states r) - Suc (pr_state r) < length (pr_states r) - pr_state r" using s by linarith
      then show ?thesis by (intro assms(2) [OF s 1] "1.IH" [rule_format]) simp
    next
      case 2
      show ?thesis by (rule assms(3) [OF s 2], rule "1.IH" [rule_format]) (use s 2 in simp)
    qed (rule assms(4) [OF s])
  qed (rule assms(1))
qed

lemma next_state_progress:
  "next_state r = Inr (True, r') \<Longrightarrow> (r', r) \<in> measures work \<and> pr_buffer r' \<noteq> [] \<and> pr_offset r' = pr_offset r"
proof (induction r rule: next_state_induct)
  case (finished r)
  then show ?case by (simp add: next_state_done)
next
  case (wrap r)
  then show ?case by (simp add: next_state_wrap) (auto simp: work_def)
next
  case (field r)
  obtain fld val where fv: "st_fields (pr_states r ! pr_state r) ! pr_state_field r = (fld, val)"
    by (cases "st_fields (pr_states r ! pr_state r) ! pr_state_field r") auto
  show ?case
  proof (cases "exported val")
    case None
    with field have "(r', r\<lparr>pr_state_field := Suc (pr_state_field r)\<rparr>) \<in> measures work \<and>
        pr_buffer r' \<noteq> [] \<and> pr_offset r' = pr_offset r"
      by (simp add: next_state_field [OF field(1,2) fv])
    moreover have "length (st_fields (pr_states r ! pr_state r)) - Suc (pr_state_field r) <
        length (st_fields (pr_states r ! pr_state r)) - pr_state_field r" using field(2) by linarith
    ultimately show ?thesis by (auto simp: work_def)
  next
    case (Some v)
    have "r' = r\<lparr>pr_state_field := Suc (pr_state_field r),
        pr_buffer := pr_buffer r @ state_line (pr_states r ! pr_state r) fld v\<rparr>"
      using field.prems unfolding next_state_field [OF field(1,2) fv] Some by simp
    moreover have "length (st_fields (pr_states r ! pr_state r)) - Suc (pr_state_field r) <
        length (st_fields (pr_states r ! pr_state r)) - pr_state_field r" using field(2) by linarith
    ultimately show ?thesis by (simp add: work_def state_line_def)
  qed
next
  case (beyond r)
  then show ?case by (simp add: next_state_beyond)
qed

lemma FAMILIES_nth: "f < length FAMILIES \<Longrightarrow> \<exists>name c seconds. FAMILIES ! f = (name, c, seconds)"
  by (cases "FAMILIES ! f") auto

text \<open>The moves of the family loop.\<close>

lemma next_family_header:
  "pr_family r < length FAMILIES \<Longrightarrow> \<not> pr_header r \<Longrightarrow>
     next_family env r = Inr (True, r\<lparr>pr_header := True, pr_buffer := pr_buffer r @ type_line (pr_family r)\<rparr>)"
  by (subst next_family.simps) (simp split: prod.split)

lemma next_family_sample:
  assumes "pr_family r < length FAMILIES" and "pr_header r"
    and "FAMILIES ! pr_family r = (name, c, seconds)"
    and "first = skip_unsupported (pr_family r) (pr_sources r) (pr_source r)"
    and "first < length (pr_sources r)"
    and "out = so_output (pr_sources r ! first)" and "kind = so_kind (pr_sources r ! first)"
  shows "next_family env r =
    (case sum_group (env (pr_family r)) c out kind (pr_sources r) first (0, 0) of
       Inl e \<Rightarrow> Inl e
     | Inr (next, v, gauge) \<Rightarrow>
         Inr (True, r\<lparr>pr_source := next, pr_buffer := pr_buffer r @ series_text name out kind @
           value_text (pr_family r) seconds v gauge @ [newline]\<rparr>))"
  unfolding assms(6,7) unfolding assms(4) using assms(1-3) assms(5) [unfolded assms(4)]
  by (subst next_family.simps) (simp add: Let_def)

lemma next_family_next:
  assumes "pr_family r < length FAMILIES" and "pr_header r"
    and "\<not> skip_unsupported (pr_family r) (pr_sources r) (pr_source r) < length (pr_sources r)"
  shows "next_family env r =
    next_family env (r\<lparr>pr_family := Suc (pr_family r), pr_source := 0, pr_header := False\<rparr>)"
  using assms by (subst next_family.simps) (simp add: Let_def split: prod.split)

lemma next_family_states:
  "\<not> pr_family r < length FAMILIES \<Longrightarrow> next_family env r =
    (if \<not> pr_header r then Inr (True, r\<lparr>pr_header := True, pr_buffer := pr_buffer r @ state_header\<rparr>)
     else next_state r)"
  by (subst next_family.simps) simp

lemma next_family_progress:
  "next_family env r = Inr (True, r') \<Longrightarrow>
     (r', r) \<in> measures work \<and> pr_buffer r' \<noteq> [] \<and> pr_offset r' = pr_offset r"
proof (induction "length FAMILIES - pr_family r" arbitrary: r rule: less_induct)
  case less
  let ?first = "skip_unsupported (pr_family r) (pr_sources r) (pr_source r)"
  consider (header) "pr_family r < length FAMILIES" "\<not> pr_header r"
    | (sample) "pr_family r < length FAMILIES" "pr_header r" "?first < length (pr_sources r)"
    | (skip) "pr_family r < length FAMILIES" "pr_header r" "\<not> ?first < length (pr_sources r)"
    | (states) "\<not> pr_family r < length FAMILIES" by blast
  then show ?case
  proof cases
    case header
    with less.prems show ?thesis by (auto simp: next_family_header work_def type_line_def)
  next
    case sample
    obtain name c seconds where fam: "FAMILIES ! pr_family r = (name, c, seconds)"
      using FAMILIES_nth [OF sample(1)] by blast
    obtain j v g where s: "sum_group (env (pr_family r)) c (so_output (pr_sources r ! ?first))
        (so_kind (pr_sources r ! ?first)) (pr_sources r) ?first (0, 0) = Inr (j, v, g)"
      "r' = r\<lparr>pr_source := j, pr_buffer := pr_buffer r @
         series_text name (so_output (pr_sources r ! ?first)) (so_kind (pr_sources r ! ?first)) @
         value_text (pr_family r) seconds v g @ [newline]\<rparr>"
      using less.prems next_family_sample [OF sample(1,2) fam refl sample(3) refl refl, of env]
      by (auto split: sum.splits)
    have "pr_source r \<le> ?first" "?first < j"
      using skip_unsupported_le sum_group_less [OF s(1) sample(3)] by auto
    then have "length (pr_sources r) - j < length (pr_sources r) - pr_source r" using sample(3) by linarith
    then show ?thesis by (simp add: s(2) work_def)
  next
    case skip
    let ?r = "r\<lparr>pr_family := Suc (pr_family r), pr_source := 0, pr_header := False\<rparr>"
    have less: "length FAMILIES - pr_family ?r < length FAMILIES - pr_family r" using skip(1) by simp
    from less.hyps [OF this] less.prems next_family_next [OF skip, of env]
    have "(r', ?r) \<in> measures work \<and> pr_buffer r' \<noteq> [] \<and> pr_offset r' = pr_offset r" by simp
    with less show ?thesis unfolding work_def by (blast intro: measures_head)
  next
    case states
    show ?thesis
    proof (cases "pr_header r")
      case True
      with less.prems states have "next_state r = Inr (True, r')" by (simp add: next_family_states)
      then show ?thesis by (rule next_state_progress)
    next
      case False
      with less.prems states show ?thesis by (auto simp: next_family_states work_def state_header_def)
    qed
  qed
qed

lemma next_sample_progress:
  "next_sample env r = Inr (True, r') \<Longrightarrow> (r', r) \<in> measures work \<and> pr_buffer r' \<noteq> [] \<and> pr_offset r' = 0"
  using next_family_progress [of env "r\<lparr>pr_buffer := [], pr_offset := 0\<rparr>" r']
  by (simp add: next_sample_def work_def)

section \<open>Reading\<close>

definition refill :: "(nat \<Rightarrow> nat \<Rightarrow> registry) \<Rightarrow> reader \<Rightarrow> (bool \<times> reader) result" where
  "refill env r =
     (if pr_offset r = length (pr_buffer r) then next_sample env r
      else if length (pr_buffer r) < pr_offset r then Inl IndexOutOfBounds
      else Inr (True, r))"

text \<open>The bytes copied by one round of a copying loop with room for \<open>n\<close> bytes.\<close>

definition copy_len :: "nat \<Rightarrow> reader \<Rightarrow> nat" where
  "copy_len n r = min n (length (pr_buffer r) - pr_offset r)"

definition copy_bytes :: "nat \<Rightarrow> reader \<Rightarrow> str" where
  "copy_bytes n r = take n (drop (pr_offset r) (pr_buffer r))"

lemma refill_progress:
  assumes "refill env r = Inr (True, r1)" and "0 < n"
  shows "(r1\<lparr>pr_offset := pr_offset r1 + copy_len n r1\<rparr>, r)
    \<in> measures (work @ [\<lambda>r. length (pr_buffer r) - pr_offset r])"
proof (cases "pr_offset r = length (pr_buffer r)")
  case True
  with assms(1) have "next_sample env r = Inr (True, r1)" by (simp add: refill_def)
  from next_sample_progress [OF this] show ?thesis by (auto simp: work_def)
next
  case False
  with assms show ?thesis by (auto simp: refill_def work_def copy_len_def split: if_splits)
qed

text \<open>\<open>Read::read\<close> into a slice of \<open>n\<close> bytes: \<open>out\<close> is the filled part.\<close>

function read_loop :: "(nat \<Rightarrow> nat \<Rightarrow> registry) \<Rightarrow> nat \<Rightarrow> str \<Rightarrow> reader \<Rightarrow> (str \<times> reader) result" where
  "read_loop env n out r =
     (if length out < n
      then case refill env r of
             Inl e \<Rightarrow> Inl e
           | Inr (ok, r1) \<Rightarrow>
               if \<not> ok then Inr (out, r1)
               else let k = copy_len (n - length out) r1
                    in read_loop env n (out @ copy_bytes k r1) (r1\<lparr>pr_offset := pr_offset r1 + k\<rparr>)
      else Inr (out, r))"
  by pat_completeness auto
termination
proof (relation "inv_image (measures (work @ [\<lambda>r. length (pr_buffer r) - pr_offset r])) (\<lambda>(env, n, out, r). r)", goal_cases)
  case 1
  show ?case by (rule wf_inv_image) (rule wf_measures)
next
  case (2 env n out r x ok r1 k)
  then show ?case using refill_progress [of env r r1 "n - length out"] by simp
qed

declare read_loop.simps [simp del]

definition reader_read :: "(nat \<Rightarrow> nat \<Rightarrow> registry) \<Rightarrow> nat \<Rightarrow> reader \<Rightarrow> (str \<times> reader) result" where
  "reader_read env n r = read_loop env n [] r"

text \<open>
  \<open>poll_read\<close> into a tokio \<open>ReadBuf\<close>, of which only \<open>remaining\<close> and \<open>put_slice\<close> are used: they are
  parameters.
\<close>

function poll_read ::
  "('b \<Rightarrow> nat) \<Rightarrow> (str \<Rightarrow> 'b \<Rightarrow> 'b) \<Rightarrow> (nat \<Rightarrow> nat \<Rightarrow> registry) \<Rightarrow> 'b \<Rightarrow> reader \<Rightarrow> ('b \<times> reader) result" where
  "poll_read remaining put_slice env buf r =
     (if 0 < remaining buf
      then case refill env r of
             Inl e \<Rightarrow> Inl e
           | Inr (ok, r1) \<Rightarrow>
               if \<not> ok then Inr (buf, r1)
               else let k = copy_len (remaining buf) r1
                    in poll_read remaining put_slice env (put_slice (copy_bytes k r1) buf)
                         (r1\<lparr>pr_offset := pr_offset r1 + k\<rparr>)
      else Inr (buf, r))"
  by pat_completeness auto
termination
proof (relation "inv_image (measures (work @ [\<lambda>r. length (pr_buffer r) - pr_offset r]))
    (\<lambda>(remaining, put_slice, env, buf, r). r)", goal_cases)
  case 1
  show ?case by (rule wf_inv_image) (rule wf_measures)
next
  case (2 remaining put_slice env buf r x ok r1 k)
  then show ?case using refill_progress [of env r r1 "remaining buf"] by simp
qed

declare poll_read.simps [simp del]

end
