(* ===== verification/Prometheus_Text.thy ===== *)
theory Prometheus_Text
  imports Prometheus_Reader
begin

text \<open>
  The exposition as a text: the lines a reader still has to emit, defined without the reader's
  cursors and buffers (runs of sources with one view, families in order, then the state fields), and
  the proof that \<open>next_sample\<close> emits them one by one and that \<open>Read::read\<close> and \<open>poll_read\<close> stream
  their concatenation.
\<close>

section \<open>Reference text\<close>

fun load_item :: "counter \<Rightarrow> registry \<Rightarrow> source_item \<Rightarrow> u64 result" where
  "load_item c reg (TimingItem p) = res_bind (registry_slot p reg) (\<lambda>s. Inr (counter_read c s))"
| "load_item c reg (CounterItem p) = scalar_load p (rg_scalars reg)"
| "load_item c reg (GaugeItem p) = scalar_load p (rg_scalars reg)"

definition loaded :: "counter \<Rightarrow> registry \<Rightarrow> source_item \<Rightarrow> u64" where
  "loaded c reg item = (case load_item c reg item of Inl _ \<Rightarrow> 0 | Inr v \<Rightarrow> v)"

fun add_item :: "source_item \<Rightarrow> u64 \<Rightarrow> u64 \<times> i64 \<Rightarrow> u64 \<times> i64" where
  "add_item (TimingItem p) w (v, gauge) = (saturating_add v w, gauge)"
| "add_item (CounterItem p) w (v, gauge) = (saturating_add v w, gauge)"
| "add_item (GaugeItem p) w (v, gauge) = (v, saturating_add_i64 gauge w)"

text \<open>A group is a run of sources with one view, each with its index.\<close>

definition group_key :: "nat \<times> source \<Rightarrow> profile_output \<times> source_kind" where
  "group_key e = (so_output (snd e), so_kind (snd e))"

definition groups_from :: "source list \<Rightarrow> nat \<Rightarrow> (nat \<times> source) list list" where
  "groups_from sources i = runs group_key (drop i (enumerate 0 sources))"

definition group_total :: "(nat \<Rightarrow> registry) \<Rightarrow> counter \<Rightarrow> (nat \<times> source) list \<Rightarrow> u64 \<times> i64 \<Rightarrow> u64 \<times> i64" where
  "group_total env c = fold (\<lambda>(i, s). add_item (so_item s) (loaded c (env i) (so_item s)))"

definition sample_line :: "(nat \<Rightarrow> nat \<Rightarrow> registry) \<Rightarrow> nat \<Rightarrow> (nat \<times> source) list \<Rightarrow> str" where
  "sample_line env f g =
     (let (name, c, seconds) = FAMILIES ! f;
          (out, kind) = group_key (hd g);
          (v, gauge) = group_total (env f) c g (0, 0)
      in series_text name out kind @ value_text f seconds v gauge @ [newline])"

definition supported :: "nat \<Rightarrow> (nat \<times> source) list \<Rightarrow> bool" where
  "supported f g \<longleftrightarrow> supports (snd (group_key (hd g))) f"

definition family_lines :: "(nat \<Rightarrow> nat \<Rightarrow> registry) \<Rightarrow> source list \<Rightarrow> nat \<Rightarrow> nat \<Rightarrow> str list" where
  "family_lines env sources f i = map (sample_line env f) (filter (supported f) (groups_from sources i))"

definition field_lines :: "state_snapshot \<Rightarrow> (str \<times> str) list \<Rightarrow> str list" where
  "field_lines st fs =
     concat (map (\<lambda>(field, val). case exported val of None \<Rightarrow> [] | Some v \<Rightarrow> [state_line st field v]) fs)"

definition state_lines :: "state_snapshot list \<Rightarrow> str list" where
  "state_lines sts = concat (map (\<lambda>st. field_lines st (st_fields st)) sts)"

text \<open>The lines of a whole scrape.\<close>

definition scrape_lines :: "(nat \<Rightarrow> nat \<Rightarrow> registry) \<Rightarrow> source list \<Rightarrow> state_snapshot list \<Rightarrow> str list" where
  "scrape_lines env sources sts =
     concat (map (\<lambda>f. type_line f # family_lines env sources f 0) [0..<length FAMILIES]) @
     state_header # state_lines sts"

text \<open>The lines that are left in a given reader.\<close>

definition rest_states :: "reader \<Rightarrow> str list" where
  "rest_states r =
     (if pr_state r < length (pr_states r)
      then field_lines (pr_states r ! pr_state r)
             (drop (pr_state_field r) (st_fields (pr_states r ! pr_state r))) @
           state_lines (drop (Suc (pr_state r)) (pr_states r))
      else [])"

definition rest_lines :: "(nat \<Rightarrow> nat \<Rightarrow> registry) \<Rightarrow> reader \<Rightarrow> str list" where
  "rest_lines env r =
     (if pr_family r < length FAMILIES
      then (if pr_header r then [] else [type_line (pr_family r)]) @
           family_lines env (pr_sources r) (pr_family r) (pr_source r) @
           concat (map (\<lambda>f. type_line f # family_lines env (pr_sources r) f 0)
             [Suc (pr_family r)..<length FAMILIES]) @
           state_header # rest_states r
      else (if pr_header r then [] else [state_header]) @ rest_states r)"

definition content :: "(nat \<Rightarrow> nat \<Rightarrow> registry) \<Rightarrow> reader \<Rightarrow> str" where
  "content env r = drop (pr_offset r) (pr_buffer r) @ concat (rest_lines env r)"

section \<open>Well-formed readers\<close>

definition loads_ok :: "(nat \<Rightarrow> nat \<Rightarrow> registry) \<Rightarrow> source list \<Rightarrow> bool" where
  "loads_ok env sources \<longleftrightarrow>
     (\<forall>f < length FAMILIES. \<forall>i < length sources.
        \<exists>v. load_item (fst (snd (FAMILIES ! f))) (env f i) (so_item (sources ! i)) = Inr v)"

definition reader_ok :: "(nat \<Rightarrow> nat \<Rightarrow> registry) \<Rightarrow> reader \<Rightarrow> bool" where
  "reader_ok env r \<longleftrightarrow> loads_ok env (pr_sources r) \<and>
     (\<not> pr_header r \<longrightarrow> pr_source r = 0) \<and>
     (pr_state r < length (pr_states r) \<longrightarrow>
        pr_state_field r \<le> length (st_fields (pr_states r ! pr_state r))) \<and>
     pr_offset r \<le> length (pr_buffer r)"

section \<open>The loops\<close>

lemma runs_Cons:
  "runs key (x # xs) =
     (case runs key xs of [] \<Rightarrow> [[x]]
      | g # gs \<Rightarrow> if key (hd g) = key x then (x # g) # gs else [x] # g # gs)"
  by (cases xs) (auto simp: takeWhile_eq_all_conv)

lemma accumulate_load:
  "load_item c reg item = Inr w \<Longrightarrow> accumulate c reg item acc = Inr (add_item item (loaded c reg item) acc)"
  by (cases item; cases acc) (auto simp: loaded_def res_bind_Inr_iff)

lemma drop_enumerate_Cons:
  "i < length xs \<Longrightarrow> drop i (enumerate 0 xs) = (i, xs ! i) # drop (Suc i) (enumerate 0 xs)"
  by (subst Cons_nth_drop_Suc [symmetric]) (simp_all add: nth_enumerate_eq)

text \<open>Skipping unsupported sources loses no supported group.\<close>

lemma skip_unsupported_spec:
  "filter (supported f) (groups_from sources (skip_unsupported f sources i)) =
     filter (supported f) (groups_from sources i) \<and>
   (skip_unsupported f sources i < length sources \<longrightarrow>
     supports (so_kind (sources ! skip_unsupported f sources i)) f)"
proof (induction f sources i rule: skip_unsupported.induct)
  case (1 f sources i)
  show ?case
  proof (cases "i < length sources \<and> \<not> supports (so_kind (sources ! i)) f")
    case True
    then have skip: "skip_unsupported f sources i = skip_unsupported f sources (Suc i)"
      by (subst skip_unsupported.simps) simp
    have "filter (supported f) (groups_from sources i) = filter (supported f) (groups_from sources (Suc i))"
      using True unfolding groups_from_def drop_enumerate_Cons [OF True [THEN conjunct1]] runs_Cons
      by (auto simp: supported_def group_key_def split: list.splits)
    with 1 [OF True] show ?thesis by (simp add: skip)
  next
    case False
    then have "skip_unsupported f sources i = i" by (subst skip_unsupported.simps) auto
    with False show ?thesis by simp
  qed
qed

text \<open>Summing consumes exactly one group.\<close>

lemma sum_group_spec:
  assumes "\<And>j. j < length sources \<Longrightarrow> \<exists>v. load_item c (env j) (so_item (sources ! j)) = Inr v"
    and "g = takeWhile (\<lambda>e. group_key e = (out, kind)) (drop i (enumerate 0 sources))"
  shows "sum_group env c out kind sources i acc = Inr (i + length g, group_total env c g acc)"
  using assms
proof (induction env c out kind sources i acc arbitrary: g rule: sum_group.induct)
  case (1 env c out kind sources i acc)
  show ?case
  proof (cases "i < length sources \<and> so_output (sources ! i) = out \<and> so_kind (sources ! i) = kind")
    case True
    let ?g = "takeWhile (\<lambda>e. group_key e = (out, kind)) (drop (Suc i) (enumerate 0 sources))"
    obtain w where "load_item c (env i) (so_item (sources ! i)) = Inr w" using 1(2) True by blast
    note acc = accumulate_load [OF this, of acc]
    have "g = (i, sources ! i) # ?g"
      using True by (simp add: 1(3) drop_enumerate_Cons group_key_def)
    with 1(1) [OF True acc 1(2) refl] True acc show ?thesis
      by (subst sum_group.simps) (simp add: group_total_def)
  next
    case False
    have "g = []"
    proof (cases "i < length sources")
      case True
      with False show ?thesis by (simp add: 1(3) drop_enumerate_Cons group_key_def)
    qed (simp add: 1(3))
    with False show ?thesis by (subst sum_group.simps) (auto simp: group_total_def)
  qed
qed

lemma groups_from_step:
  assumes "i < length sources"
    and "g = takeWhile (\<lambda>e. group_key e = (so_output (sources ! i), so_kind (sources ! i)))
           (drop i (enumerate 0 sources))"
  shows "groups_from sources i = g # groups_from sources (i + length g)"
    and "group_key (hd g) = (so_output (sources ! i), so_kind (sources ! i))"
proof -
  let ?k = "(so_output (sources ! i), so_kind (sources ! i))"
  let ?xs = "drop (Suc i) (enumerate 0 sources)"
  have k: "group_key (i, sources ! i) = ?k" by (simp add: group_key_def)
  have g: "g = (i, sources ! i) # takeWhile (\<lambda>e. group_key e = ?k) ?xs"
    using assms k by (simp add: drop_enumerate_Cons)
  then show "group_key (hd g) = ?k" by (simp add: k)
  have "dropWhile (\<lambda>e. group_key e = ?k) ?xs = drop (i + length g) (enumerate 0 sources)"
    by (simp add: dropWhile_eq_drop g add.commute)
  then show "groups_from sources i = g # groups_from sources (i + length g)"
    by (simp add: groups_from_def drop_enumerate_Cons [OF assms(1)] k g)
qed

section \<open>One line per call\<close>

text \<open>\<open>res\<close> is what a call on \<open>r\<close> returns when \<open>ls\<close> are the lines left: the first of them is
  appended to the buffer and the others are left, or nothing is left and nothing is appended.\<close>

definition emits :: "(nat \<Rightarrow> nat \<Rightarrow> registry) \<Rightarrow> reader \<Rightarrow> str list \<Rightarrow> (bool \<times> reader) result \<Rightarrow> bool" where
  "emits env r ls res \<longleftrightarrow>
     (\<exists>r'. res = Inr (ls \<noteq> [], r') \<and> reader_ok env r' \<and> pr_offset r' = pr_offset r \<and>
        pr_buffer r' = pr_buffer r @ (case ls of [] \<Rightarrow> [] | l # _ \<Rightarrow> l) \<and> rest_lines env r' = tl ls)"

lemma field_lines_step:
  assumes "j < length fs" and "fs ! j = (field, val)"
  shows "field_lines st (drop j fs) =
    (case exported val of None \<Rightarrow> [] | Some v \<Rightarrow> [state_line st field v]) @ field_lines st (drop (Suc j) fs)"
  using assms by (subst Cons_nth_drop_Suc [symmetric]) (simp_all add: field_lines_def)

lemma rest_states_wrap:
  assumes "pr_state r < length (pr_states r)"
    and "pr_state_field r = length (st_fields (pr_states r ! pr_state r))"
  shows "rest_states (r\<lparr>pr_state := Suc (pr_state r), pr_state_field := 0\<rparr>) = rest_states r"
proof (cases "Suc (pr_state r) < length (pr_states r)")
  case True
  have "state_lines (drop (Suc (pr_state r)) (pr_states r)) =
      field_lines (pr_states r ! Suc (pr_state r)) (st_fields (pr_states r ! Suc (pr_state r))) @
      state_lines (drop (Suc (Suc (pr_state r))) (pr_states r))"
    by (subst Cons_nth_drop_Suc [OF True, symmetric]) (simp add: state_lines_def)
  with assms True show ?thesis by (simp add: rest_states_def field_lines_def)
qed (use assms in \<open>simp add: rest_states_def field_lines_def state_lines_def\<close>)

lemma next_state_emits:
  "reader_ok env r \<Longrightarrow> \<not> pr_family r < length FAMILIES \<Longrightarrow> pr_header r \<Longrightarrow>
     emits env r (rest_lines env r) (next_state r)"
proof (induction r rule: next_state_induct)
  case (finished r)
  then show ?case by (auto simp: next_state_done emits_def rest_lines_def rest_states_def)
next
  case (wrap r)
  let ?r = "r\<lparr>pr_state := Suc (pr_state r), pr_state_field := 0\<rparr>"
  have ok: "reader_ok env ?r" using wrap.prems(1) by (simp add: reader_ok_def)
  have "rest_lines env ?r = rest_lines env r"
    using wrap.prems(2,3) rest_states_wrap [OF wrap(1,2)] by (simp add: rest_lines_def)
  with wrap.IH ok wrap.prems have "emits env ?r (rest_lines env r) (next_state ?r)" by simp
  then show ?case unfolding next_state_wrap [OF wrap(1,2)] by (simp add: emits_def)
next
  case (field r)
  let ?st = "pr_states r ! pr_state r"
  obtain fld val where fv: "st_fields ?st ! pr_state_field r = (fld, val)"
    by (cases "st_fields ?st ! pr_state_field r") auto
  let ?r = "r\<lparr>pr_state_field := Suc (pr_state_field r)\<rparr>"
  have ok: "reader_ok env ?r" using field.prems(1) field(2) by (simp add: reader_ok_def)
  have rest: "rest_lines env r =
      (case exported val of None \<Rightarrow> [] | Some v \<Rightarrow> [state_line ?st fld v]) @ rest_lines env ?r"
    using field.prems(2,3) field(1) field_lines_step [OF field(2) fv, of ?st]
    by (simp add: rest_lines_def rest_states_def)
  show ?case
  proof (cases "exported val")
    case None
    with field.IH ok field.prems rest have "emits env ?r (rest_lines env r) (next_state ?r)" by simp
    then show ?thesis unfolding next_state_field [OF field(1,2) fv] None by (simp add: emits_def)
  next
    case (Some v)
    have same: "rest_lines env (?r\<lparr>pr_buffer := b\<rparr>) = rest_lines env ?r" for b
      by (simp add: rest_lines_def rest_states_def)
    have ok': "reader_ok env (?r\<lparr>pr_buffer := pr_buffer r @ b\<rparr>)" for b
      using ok by (simp add: reader_ok_def)
    show ?thesis
      unfolding next_state_field [OF field(1,2) fv] Some emits_def rest
      using same [of "pr_buffer r @ state_line ?st fld v"] ok' [of "state_line ?st fld v"] by simp
  qed
next
  case (beyond r)
  then show ?case by (auto simp: reader_ok_def)
qed

lemma next_family_emits:
  "reader_ok env r \<Longrightarrow> emits env r (rest_lines env r) (next_family env r)"
proof (induction "length FAMILIES - pr_family r" arbitrary: r rule: less_induct)
  case less
  let ?f = "pr_family r" and ?S = "pr_sources r"
  let ?first = "skip_unsupported ?f ?S (pr_source r)"
  have fam: "family_lines env ?S ?f (pr_source r) = family_lines env ?S ?f ?first"
    using skip_unsupported_spec [of ?f ?S "pr_source r"] by (simp add: family_lines_def)
  consider (header) "?f < length FAMILIES" "\<not> pr_header r"
    | (sample) "?f < length FAMILIES" "pr_header r" "?first < length ?S"
    | (skip) "?f < length FAMILIES" "pr_header r" "\<not> ?first < length ?S"
    | (states) "\<not> ?f < length FAMILIES" by blast
  then show ?case
  proof cases
    case header
    then show ?thesis using less.prems
      by (simp add: next_family_header emits_def rest_lines_def rest_states_def reader_ok_def)
  next
    case sample
    obtain name c seconds where F: "FAMILIES ! ?f = (name, c, seconds)"
      using FAMILIES_nth [OF sample(1)] by blast
    let ?out = "so_output (?S ! ?first)" and ?kind = "so_kind (?S ! ?first)"
    define g where "g = takeWhile (\<lambda>e. group_key e = (?out, ?kind)) (drop ?first (enumerate 0 ?S))"
    have loads: "\<exists>v. load_item c (env ?f j) (so_item (?S ! j)) = Inr v" if "j < length ?S" for j
      using less.prems sample(1) that F by (fastforce simp: reader_ok_def loads_ok_def)
    obtain v gauge where vg: "group_total (env ?f) c g (0, 0) = (v, gauge)" by (cases "group_total (env ?f) c g (0, 0)")
    have sum: "sum_group (env ?f) c ?out ?kind ?S ?first (0, 0) = Inr (?first + length g, v, gauge)"
      using sum_group_spec [OF loads g_def, of "(0, 0)"] vg by simp
    note step = groups_from_step [OF sample(3) g_def]
    have "supported ?f g"
      using skip_unsupported_spec [of ?f ?S "pr_source r"] sample(3) by (simp add: supported_def step(2))
    moreover have "sample_line env ?f g =
        series_text name ?out ?kind @ value_text ?f seconds v gauge @ [newline]"
      by (simp add: sample_line_def F step(2) vg)
    ultimately have lines: "family_lines env ?S ?f (pr_source r) =
        (series_text name ?out ?kind @ value_text ?f seconds v gauge @ [newline]) #
        family_lines env ?S ?f (?first + length g)"
      unfolding fam by (simp add: family_lines_def step(1))
    show ?thesis
      unfolding next_family_sample [OF sample(1,2) F refl sample(3) refl refl] sum emits_def
      using less.prems sample(1,2) lines by (simp add: rest_lines_def rest_states_def reader_ok_def)
  next
    case skip
    let ?r = "r\<lparr>pr_family := Suc ?f, pr_source := 0, pr_header := False\<rparr>"
    have dec: "length FAMILIES - pr_family ?r < length FAMILIES - ?f" using skip(1) by simp
    have ok: "reader_ok env ?r" using less.prems by (simp add: reader_ok_def)
    have none: "family_lines env ?S ?f (pr_source r) = []"
      unfolding fam using skip(3) by (simp add: family_lines_def groups_from_def)
    have rest: "rest_lines env ?r = rest_lines env r"
    proof (cases "Suc ?f < length FAMILIES")
      case True
      with skip none show ?thesis by (simp add: rest_lines_def rest_states_def upt_conv_Cons)
    next
      case False
      with skip none show ?thesis by (simp add: rest_lines_def rest_states_def)
    qed
    from less.hyps [OF dec ok] have "emits env ?r (rest_lines env r) (next_family env ?r)"
      by (simp only: rest)
    then show ?thesis unfolding next_family_next [OF skip] by (simp add: emits_def)
  next
    case states
    show ?thesis
    proof (cases "pr_header r")
      case True
      with next_state_emits [OF less.prems states] states show ?thesis by (simp add: next_family_states)
    next
      case False
      with states less.prems show ?thesis
        by (simp add: next_family_states emits_def rest_lines_def rest_states_def reader_ok_def)
    qed
  qed
qed

lemma next_sample_emits:
  assumes "reader_ok env r"
  shows "\<exists>r'. next_sample env r = Inr (rest_lines env r \<noteq> [], r') \<and> reader_ok env r' \<and> pr_offset r' = 0 \<and>
    pr_buffer r' = (case rest_lines env r of [] \<Rightarrow> [] | l # _ \<Rightarrow> l) \<and> rest_lines env r' = tl (rest_lines env r)"
proof -
  let ?r = "r\<lparr>pr_buffer := [], pr_offset := 0\<rparr>"
  have "reader_ok env ?r" using assms by (simp add: reader_ok_def)
  moreover have "rest_lines env ?r = rest_lines env r" by (simp add: rest_lines_def rest_states_def)
  ultimately show ?thesis
    using next_family_emits [of env ?r] by (simp add: next_sample_def emits_def)
qed

text \<open>The lines of the next calls of \<open>next_sample\<close>, until it reports the end.\<close>

fun samples :: "(nat \<Rightarrow> nat \<Rightarrow> registry) \<Rightarrow> nat \<Rightarrow> reader \<Rightarrow> (str list \<times> reader) result" where
  "samples env 0 r = Inr ([], r)"
| "samples env (Suc n) r =
     res_bind (next_sample env r) (\<lambda>(more, r1).
       if more then res_bind (samples env n r1) (\<lambda>(ls, r2). Inr (pr_buffer r1 # ls, r2)) else Inr ([], r1))"

lemma samples_rest:
  assumes "reader_ok env r"
  shows "\<exists>r'. samples env n r = Inr (take n (rest_lines env r), r') \<and> reader_ok env r' \<and>
    rest_lines env r' = drop n (rest_lines env r)"
  using assms
proof (induction n arbitrary: r)
  case (Suc n)
  obtain r1 where r1: "next_sample env r = Inr (rest_lines env r \<noteq> [], r1)" "reader_ok env r1"
    "pr_buffer r1 = (case rest_lines env r of [] \<Rightarrow> [] | l # _ \<Rightarrow> l)" "rest_lines env r1 = tl (rest_lines env r)"
    using next_sample_emits [OF Suc.prems] by blast
  show ?case
  proof (cases "rest_lines env r")
    case Nil
    with r1 show ?thesis by simp
  next
    case (Cons l ls)
    obtain r' where "samples env n r1 = Inr (take n ls, r')" "reader_ok env r'" "rest_lines env r' = drop n ls"
      using Suc.IH [OF r1(2)] r1(4) Cons by auto
    with r1 Cons show ?thesis by simp
  qed
qed simp

text \<open>Two readers with the same lines left go on alike.\<close>

lemma samples_alike:
  assumes "reader_ok env r" and "reader_ok env r'" and "rest_lines env r = rest_lines env r'"
  shows "map_sum id fst (samples env n r) = map_sum id fst (samples env n r')"
  using samples_rest [OF assms(1), of n] samples_rest [OF assms(2), of n] assms(3) by auto

section \<open>Reading\<close>

lemma refill_spec:
  assumes "reader_ok env r"
  obtains r1 where "refill env r = Inr (content env r \<noteq> [] \<or> rest_lines env r \<noteq> [], r1)" and "reader_ok env r1"
    and "content env r1 = content env r"
    and "rest_lines env r = [] \<Longrightarrow> rest_lines env r1 = []"
    and "rest_lines env r = [] \<Longrightarrow> pr_offset r = length (pr_buffer r) \<Longrightarrow> pr_buffer r1 = [] \<and> pr_offset r1 = 0"
proof (cases "pr_offset r = length (pr_buffer r)")
  case True
  obtain r' where r': "next_sample env r = Inr (rest_lines env r \<noteq> [], r')" "reader_ok env r'" "pr_offset r' = 0"
    "pr_buffer r' = (case rest_lines env r of [] \<Rightarrow> [] | l # _ \<Rightarrow> l)" "rest_lines env r' = tl (rest_lines env r)"
    using next_sample_emits [OF assms] by blast
  show thesis
  proof (rule that [of r'])
    show "refill env r = Inr (content env r \<noteq> [] \<or> rest_lines env r \<noteq> [], r')"
      using True r'(1) by (auto simp: refill_def content_def)
    show "content env r' = content env r"
      using r' True by (cases "rest_lines env r") (simp_all add: content_def)
  qed (use r' in simp_all)
next
  case False
  with assms have "pr_offset r < length (pr_buffer r)" by (simp add: reader_ok_def)
  then show thesis using assms by (intro that [of r]) (simp_all add: refill_def content_def)
qed

lemma copy_spec:
  assumes "reader_ok env r" and "k = copy_len n r"
  shows "reader_ok env (r\<lparr>pr_offset := pr_offset r + k\<rparr>)"
    and "content env (r\<lparr>pr_offset := pr_offset r + k\<rparr>) = drop k (content env r)"
    and "copy_bytes k r = take k (content env r)"
    and "k \<le> n" and "k \<le> length (content env r)"
  using assms
  by (auto simp: reader_ok_def content_def copy_len_def copy_bytes_def rest_lines_def rest_states_def
      add.commute)

lemma read_loop_spec:
  assumes "reader_ok env r" and "length out \<le> n"
  shows "\<exists>r'. read_loop env n out r = Inr (out @ take (n - length out) (content env r), r') \<and>
    reader_ok env r' \<and> content env r' = drop (n - length out) (content env r)"
  using assms
proof (induction env n out r rule: read_loop.induct)
  case (1 env n out r)
  obtain r1 where r1: "refill env r = Inr (content env r \<noteq> [] \<or> rest_lines env r \<noteq> [], r1)" "reader_ok env r1"
    "content env r1 = content env r"
    by (rule refill_spec [OF 1(2)])
  show ?case
  proof (cases "length out < n")
    case less: True
    show ?thesis
    proof (cases "content env r \<noteq> [] \<or> rest_lines env r \<noteq> []")
      case True
      define k where "k = copy_len (n - length out) r1"
      note c = copy_spec [OF r1(2) k_def]
      have run: "read_loop env n out r =
          read_loop env n (out @ copy_bytes k r1) (r1\<lparr>pr_offset := pr_offset r1 + k\<rparr>)"
        using less r1(1) True by (subst read_loop.simps) (simp add: Let_def k_def)
      have len: "length (out @ copy_bytes k r1) = length out + k"
        using c(3,5) r1(3) by simp
      from 1(1) [OF less r1(1) refl _ k_def c(1)] True c(4) less len
      obtain r' where r': "read_loop env n (out @ copy_bytes k r1) (r1\<lparr>pr_offset := pr_offset r1 + k\<rparr>) =
          Inr ((out @ copy_bytes k r1) @
            take (n - (length out + k)) (content env (r1\<lparr>pr_offset := pr_offset r1 + k\<rparr>)), r')"
        "reader_ok env r'"
        "content env r' = drop (n - (length out + k)) (content env (r1\<lparr>pr_offset := pr_offset r1 + k\<rparr>))"
        by (auto simp: le_diff_conv2 add.commute)
      have "k + (n - (length out + k)) = n - length out" using c(4) less by simp
      then have "take k (content env r) @ take (n - (length out + k)) (drop k (content env r)) =
          take (n - length out) (content env r)" by (metis take_add)
      with r' run c(2,3) r1(3) \<open>k + (n - (length out + k)) = n - length out\<close> show ?thesis
        by (auto simp: add.commute)
    next
      case False
      then have "read_loop env n out r = Inr (out, r1)"
        using less r1(1) by (subst read_loop.simps) simp
      with False r1 show ?thesis by simp
    qed
  next
    case False
    with 1(2,3) show ?thesis by (subst read_loop.simps) simp
  qed
qed

lemma reader_read_spec:
  "reader_ok env r \<Longrightarrow> \<exists>r'. reader_read env n r = Inr (take n (content env r), r') \<and>
    reader_ok env r' \<and> content env r' = drop n (content env r)"
  using read_loop_spec [of env r "[]" n] by (simp add: reader_read_def)

end
