(* ===== verification/Registry_Run.thy ===== *)
theory Registry_Run
  imports Registry
begin

text \<open>
  The registry over its lifetime: the steps that the public operations take on the process-wide
  registry, in any order and from any thread (a registration runs under a mutex, a record is a
  sequence of atomic steps), and what no such step can undo.
\<close>

section \<open>Steps\<close>

inductive registry_step :: "registry \<Rightarrow> registry \<Rightarrow> bool" where
  registers: "registry_do r reg = Inr (m, reg') \<Longrightarrow> registry_step reg reg'"
| records: "registry_find reg k = Some m \<Longrightarrow> metric_step m z reg = Inr reg' \<Longrightarrow> registry_step reg reg'"
| scalar_registers: "scalars_do k (rg_scalars reg) = Inr (p, scalars) \<Longrightarrow>
     registry_step reg (reg\<lparr>rg_scalars := scalars\<rparr>)"
| scalar_updates: "scalars_find (rg_scalars reg) k = Some p \<Longrightarrow>
     scalar_rmw p f (rg_scalars reg) = Inr scalars \<Longrightarrow> registry_step reg (reg\<lparr>rg_scalars := scalars\<rparr>)"
| states: "registry_step reg (registry_record_state ty name key val reg)"

inductive registry_run :: "registry \<Rightarrow> registry \<Rightarrow> bool" for reg where
  here: "registry_run reg reg"
| step: "registry_run reg reg' \<Longrightarrow> registry_step reg' reg'' \<Longrightarrow> registry_run reg reg''"

text \<open>What lasts: every identity keeps its handle.\<close>

definition registry_kept :: "registry \<Rightarrow> registry \<Rightarrow> bool" where
  "registry_kept reg reg' \<longleftrightarrow>
     (\<forall>k m. registry_find reg k = Some m \<longrightarrow> registry_find reg' k = Some m) \<and>
     (\<forall>k p. scalars_find (rg_scalars reg) k = Some p \<longrightarrow> scalars_find (rg_scalars reg') k = Some p)"

section \<open>Lemmas\<close>

lemma registry_find_frame [simp]:
  "registry_find (reg\<lparr>rg_scalars := x\<rparr>) = registry_find reg"
  "registry_find (reg\<lparr>rg_states := y\<rparr>) = registry_find reg"
  "timing_inv (reg\<lparr>rg_scalars := x\<rparr>) = timing_inv reg"
  "timing_inv (reg\<lparr>rg_states := y\<rparr>) = timing_inv reg"
  by (simp_all add: registry_find_def timing_inv_def)

lemma registry_step_keeps:
  assumes "registry_step reg reg'" and inv: "registry_inv reg"
  shows "registry_inv reg' \<and> registry_kept reg reg'"
  using assms(1)
proof cases
  case (registers r m)
  obtain m' r' where "registry_do r reg = Inr (m', r')" "registry_inv r'"
    "\<And>k h. registry_find reg k = Some h \<Longrightarrow> registry_find r' k = Some h" "rg_scalars r' = rg_scalars reg"
    by (rule registry_inv_do [OF inv, of r]) blast
  with registers show ?thesis by (simp add: registry_kept_def)
next
  case (records k m z)
  from run_one_metric [OF inv records(1), of "[z]"] records(2)
  have "registry_inv reg'" "registry_find reg' = registry_find reg" by auto
  moreover have "rg_scalars reg' = rg_scalars reg"
    using registry_rmw_frame records(2) unfolding metric_step_def by blast
  ultimately show ?thesis by (simp add: registry_kept_def)
next
  case (scalar_registers k p scalars)
  have "scalars_inv (rg_scalars reg)" using inv by (simp add: registry_inv_def)
  from scalars_do_keeps [OF this scalar_registers(2)] inv scalar_registers(1) show ?thesis
    by (simp add: registry_kept_def registry_inv_def)
next
  case (scalar_updates k p f scalars)
  have "scalars_inv (rg_scalars reg)" using inv by (simp add: registry_inv_def)
  from this scalar_updates(2) have "scalars_inv scalars \<and> scalars_find scalars = scalars_find (rg_scalars reg)"
    by (rule scalar_rmw_total [where f = f]) (use scalar_updates(3) in simp)
  with inv scalar_updates(1) show ?thesis by (simp add: registry_kept_def registry_inv_def)
next
  case (states ty name key val)
  with inv states_inv_record show ?thesis
    by (simp add: registry_kept_def registry_inv_def registry_record_state_def)
qed

lemma registry_run_keeps:
  assumes "registry_run reg reg'" and "registry_inv reg"
  shows "registry_inv reg' \<and> registry_kept reg reg'"
  using assms(1)
proof induction
  case here
  show ?case using assms(2) by (simp add: registry_kept_def)
next
  case (step reg' reg'')
  with registry_step_keeps [OF step.hyps(2)] show ?case by (auto simp: registry_kept_def)
qed












section \<open>Properties\<close>

text \<open>C11: No dangling handle. Whatever the process does after a handle was returned (registering
  further metrics, recording, updating scalars and states, in any order), the handle can still be
  read and recorded through, it still belongs to the identity it was registered for, and registering
  that identity again returns it.\<close>

theorem handles_stay_valid:
  assumes "registry_inv reg" and "registry_do r reg = Inr (m, reg1)" and "registry_run reg1 reg2"
  shows "registry_find reg2 (reg_key r) = Some m \<and>
    (\<exists>snap. metric_snapshot_of m reg2 = Inr snap) \<and>
    (\<exists>reg3. metric_record d success m reg2 = Inr reg3) \<and>
    registry_do r reg2 = Inr (m, reg2)"
proof -
  obtain m' r' where "registry_do r reg = Inr (m', r')" "registry_inv r'"
    "registry_find r' = (registry_find reg)(reg_key r \<mapsto> m')"
    by (rule registry_inv_do [OF assms(1), of r]) blast
  then have r1: "registry_inv reg1" "registry_find reg1 (reg_key r) = Some m" using assms(2) by auto
  have r2: "registry_inv reg2" "registry_find reg2 (reg_key r) = Some m"
    using registry_run_keeps [OF assms(3) r1(1)] r1(2) by (simp_all add: registry_kept_def)
  have t: "timing_inv reg2" using r2(1) by (simp add: registry_inv_def)
  have "\<exists>snap. metric_snapshot_of m reg2 = Inr snap"
    by (rule registry_abs_find [OF r2]) (simp add: metric_snapshot_of_def item_snapshot_def)
  moreover have "\<exists>reg3. metric_record d success m reg2 = Inr reg3"
    using run_one_metric [OF r2] by (auto simp: metric_record_def)
  moreover have "registry_do r reg2 = Inr (m, reg2)" by (rule registry.register_known [OF t r2(2)])
  ultimately show ?thesis using r2(2) by simp
qed

theorem handles_stay_valid_witness:
  "\<exists>m reg m' reg'. registry_do (RegName ''a'' Log) (registry_new (\<lambda>_. 0) (\<lambda>_. 1)) = Inr (m, reg) \<and>
     registry_do (RegName ''b'' Log) reg = Inr (m', reg') \<and>
     registry_do (RegName ''a'' Log) reg' = Inr (m, reg')"
proof -
  let ?new = "registry_new (\<lambda>_. 0) (\<lambda>_. 1)"
  obtain m reg where m: "registry_do (RegName ''a'' Log) ?new = Inr (m, reg)" "registry_inv reg"
    by (rule registry_first)
  obtain m' reg' where m': "registry_do (RegName ''b'' Log) reg = Inr (m', reg')"
    by (rule registry_inv_do [OF m(2), of "RegName ''b'' Log"]) blast
  have "registry_run reg reg'"
    by (rule registry_run.step [OF registry_run.here registry_step.registers [OF m']])
  from handles_stay_valid [OF registry_inv_new m(1) this] m(1) m' show ?thesis by blast
qed

text \<open>C31: In every state the process-wide registry can reach, nothing an observer calls can panic,
  read an uninitialised metadata entry or follow a dangling pointer: visiting, counting and listing
  the scalars all return.\<close>

theorem observers_never_panic:
  assumes "registry_run (registry_new hs ht) reg"
  shows "registry_inv reg \<and> (\<exists>vs. registry_visit reg = Inr vs) \<and> (\<exists>n. registry_len reg = Inr n) \<and>
    (\<exists>ms. scalar_for_each (rg_scalars reg) = Inr ms)"
proof -
  have inv: "registry_inv reg" using registry_run_keeps [OF assms registry_inv_new] by simp
  then show ?thesis
    using registry_visit_ok [OF inv] registry_len_ok [OF inv] scalar_visit_ok(2) [of "rg_scalars reg"]
    by (auto simp: registry_inv_def)
qed

theorem observers_never_panic_witness:
  "\<exists>m reg vs. registry_do (RegName ''a'' Log) (registry_new (\<lambda>_. 0) (\<lambda>_. 1)) = Inr (m, reg) \<and>
     registry_visit reg = Inr vs"
proof -
  let ?new = "registry_new (\<lambda>_. 0) (\<lambda>_. 1)"
  obtain m reg where m: "registry_do (RegName ''a'' Log) ?new = Inr (m, reg)"
    by (rule registry_first)
  have "registry_run ?new reg"
    by (rule registry_run.step [OF registry_run.here registry_step.registers [OF m]])
  from observers_never_panic [OF this] m show ?thesis by blast
qed



end
