(* ===== verification/Byte_Stream.thy ===== *)
theory Byte_Stream
  imports Keyed_Registry
begin

text \<open>
  The contract of a byte reader in the style of \<open>std::io::Read\<close>: a read with room for \<open>n\<close> bytes
  returns the next \<open>n\<close> bytes of its content, fewer only at the end. What a client gets from any
  sequence of reads is derived once.
\<close>

locale byte_source =
  fixes invar :: "'r \<Rightarrow> bool"
    and content :: "'r \<Rightarrow> str"
    and read :: "nat \<Rightarrow> 'r \<Rightarrow> (str \<times> 'r) result"
  assumes read_spec: "invar r \<Longrightarrow>
    \<exists>r'. read n r = Inr (take n (content r), r') \<and> invar r' \<and> content r' = drop n (content r)"
begin

lemma reads:
  assumes "invar r"
  shows "\<exists>chunks r'. run_all read ns r = Inr (chunks, r') \<and> invar r' \<and> length chunks = length ns \<and>
    concat chunks = take (sum_list ns) (content r) \<and> content r' = drop (sum_list ns) (content r) \<and>
    (\<forall>i < length ns. length (chunks ! i) = min (ns ! i) (length (content r) - sum_list (take i ns)))"
  using assms
proof (induction ns arbitrary: r)
  case Nil
  then show ?case by simp
next
  case (Cons n ns)
  obtain r1 where r1: "read n r = Inr (take n (content r), r1)" "invar r1" "content r1 = drop n (content r)"
    using read_spec [OF Cons.prems, of n] by blast
  from Cons.IH [OF r1(2)] obtain chunks r' where c: "run_all read ns r1 = Inr (chunks, r')" "invar r'"
    "length chunks = length ns" "concat chunks = take (sum_list ns) (content r1)"
    "content r' = drop (sum_list ns) (content r1)"
    "\<forall>i < length ns. length (chunks ! i) = min (ns ! i) (length (content r1) - sum_list (take i ns))"
    by (elim exE conjE)
  show ?case
  proof (intro exI [of _ "take n (content r) # chunks"] exI [of _ r'] conjI allI impI)
    show "run_all read (n # ns) r = Inr (take n (content r) # chunks, r')" by (simp add: r1(1) c(1))
    show "concat (take n (content r) # chunks) = take (sum_list (n # ns)) (content r)"
      by (simp add: c(4) r1(3) take_add)
    show "content r' = drop (sum_list (n # ns)) (content r)"
      by (simp add: c(5) r1(3) add.commute)
    show "length ((take n (content r) # chunks) ! i) =
        min ((n # ns) ! i) (length (content r) - sum_list (take i (n # ns)))" if "i < length (n # ns)" for i
      using that c(6) r1(3) by (cases i) (simp_all add: min.commute)
  qed (simp_all add: c(2,3))
qed

text \<open>Reading to the end: enough reads with room for at least one byte return everything, and every
  later read returns nothing.\<close>

lemma reads_to_end:
  assumes "invar r" and "\<forall>n \<in> set ns. 0 < n" and "length (content r) \<le> length ns"
  shows "\<exists>chunks r'. run_all read ns r = Inr (chunks, r') \<and> concat chunks = content r \<and>
    (\<forall>ms. \<exists>r''. run_all read ms r' = Inr (replicate (length ms) [], r''))"
proof -
  have "length ns \<le> sum_list ns"
    using assms(2) by (induction ns) auto
  with assms(3) have len: "length (content r) \<le> sum_list ns" by simp
  from reads [OF assms(1), of ns] obtain chunks r' where c: "run_all read ns r = Inr (chunks, r')" "invar r'"
    "concat chunks = take (sum_list ns) (content r)" "content r' = drop (sum_list ns) (content r)"
    by (elim exE conjE)
  have "\<exists>r''. run_all read ms r' = Inr (replicate (length ms) [], r'')" for ms
  proof -
    from reads [OF c(2), of ms] obtain cs r'' where "run_all read ms r' = Inr (cs, r'')"
      "length cs = length ms" "concat cs = take (sum_list ms) (content r')" by (elim exE conjE)
    moreover from this have "cs = replicate (length ms) []"
      using c(4) len by (auto intro!: replicate_eqI)
    ultimately show ?thesis by blast
  qed
  with c(1,3) len show ?thesis by auto
qed

end

end
