(* ===== verification/Prometheus_Scrape.thy ===== *)
theory Prometheus_Scrape
  imports Prometheus_Text Registry_Run Byte_Stream
begin

text \<open>
  A scrape end to end: a reader is created on a reachable registry and read to the end while the
  process goes on registering and recording. The text it streams is the reference text over the
  captured sources, the order and grouping of the samples, and what each sample adds up.
\<close>

section \<open>What a reader captures\<close>

definition captured :: "registry \<Rightarrow> source list" where
  "captured reg =
     concat (map timing_sources (registry_metas reg)) @
     map (\<lambda>e. scalar_source (scalar_entry (fst e) (snd e))) (scalars_log (rg_scalars reg))"

text \<open>The registry at the moment of every load is a later state of the registry the reader was
  created on.\<close>

definition later :: "registry \<Rightarrow> (nat \<Rightarrow> nat \<Rightarrow> registry) \<Rightarrow> bool" where
  "later reg env \<longleftrightarrow> (\<forall>f i. registry_run reg (env f i))"

text \<open>What is collected while the process goes on.\<close>

definition captured_at :: "(nat \<Rightarrow> registry) \<Rightarrow> source list" where
  "captured_at regs =
     concat (map timing_sources (visited 64 (\<lambda>i. rg_shards (regs i)))) @
     map scalar_source (visited 64 (\<lambda>i. sr_shards (rg_scalars (regs (64 + i)))))"

lemma collect_sources_at_ok:
  assumes "\<And>i. registry_inv (regs i)"
  shows "collect_sources_at regs = Inr (captured_at regs)"
  using registry_for_each_meta_at_ok [of regs "\<lambda>_ _ meta. Inr (timing_sources meta)" timing_sources]
    scalar_for_each_at_ok [of "\<lambda>i. rg_scalars (regs (64 + i))" scalar_source] assms
  by (simp add: collect_sources_at_def captured_at_def SHARD_COUNT_def registry_inv_def)

lemma captured_at_const:
  assumes "registry_inv reg"
  shows "captured_at (\<lambda>_. reg) = captured reg"
proof -
  have t: "timing_inv reg" and s: "scalars_inv (rg_scalars reg)" using assms by (simp_all add: registry_inv_def)
  have "visited 64 (\<lambda>_. sr_shards (rg_scalars reg)) =
      map (\<lambda>e. scalar_entry (fst e) (snd e)) (scalars_log (rg_scalars reg))"
    using visited_const [of "sr_shards (rg_scalars reg)"] by (simp add: scalar_shards_ok(1) [OF s] scalar_metas_log [OF s])
  then show ?thesis by (simp add: captured_at_def captured_def visited_registry [OF t] comp_def)
qed

lemma collect_sources_ok:
  "registry_inv reg \<Longrightarrow> collect_sources reg = Inr (captured reg)"
  using collect_sources_at_ok [of "\<lambda>_. reg"] by (simp add: collect_sources_def captured_at_const)




lemma from_registry_ok:
  assumes "registry_inv reg"
  shows "from_registry tmem smem reg =
    Inr \<lparr>pr_sources = sorted_sources tmem smem (captured reg), pr_states = registry_state_snapshot reg,
         pr_family = 0, pr_source = 0, pr_header = False, pr_state = 0, pr_state_field = 0,
         pr_buffer = [], pr_offset = 0\<rparr>"
  using collect_sources_ok [OF assms] by (simp add: from_registry_def from_registry_at_def collect_sources_def)

lemma set_sorted_sources [simp]: "set (sorted_sources tmem smem xs) = set xs"
  by (simp add: sorted_sources_def)

lemma captured_load:
  assumes inv: "registry_inv reg" and s: "s \<in> set (captured reg)" and run: "registry_run reg reg'"
  shows "\<exists>v. load_item c reg' (so_item s) = Inr v"
proof -
  have inv': "registry_inv reg'" and kept: "registry_kept reg reg'"
    using registry_run_keeps [OF run inv] by simp_all
  from s consider (timing) m where "m \<in> set (registry_metas reg)" "so_item s = TimingItem (mm_item m)"
    | (scalar) k p where "(k, p) \<in> set (scalars_log (rg_scalars reg))"
        "so_item s = CounterItem p \<or> so_item s = GaugeItem p"
    by (fastforce simp: captured_def timing_sources_def scalar_source_def split: scalar_kind.splits)
  then show ?thesis
  proof cases
    case timing
    let ?k = "profile_key (mm_profile m)"
    have "registry_find reg ?k = Some (from_item (mm_item m) (key_policy ?k))"
      by (rule registry_meta_find [OF inv timing(1)])
    then have "registry_find reg' ?k = Some (from_item (mm_item m) (key_policy ?k))"
      using kept by (simp add: registry_kept_def)
    then show ?thesis
      by (rule registry_abs_find [OF inv']) (use timing(2) in \<open>simp add: from_item_def\<close>)
  next
    case scalar
    have s: "scalars_inv (rg_scalars reg)" "scalars_inv (rg_scalars reg')"
      using inv inv' by (simp_all add: registry_inv_def)
    have "scalars_find (rg_scalars reg) k = Some p"
      using scalar(1) scalars_find_log [OF s(1)] by simp
    then have "scalars_find (rg_scalars reg') k = Some p" using kept by (simp add: registry_kept_def)
    from scalar_load_ok [OF s(2) this] scalar(2) show ?thesis by auto
  qed
qed

lemma loads_ok_sources:
  assumes "registry_inv reg" and "set sources \<subseteq> set (captured reg)" and "later reg env"
  shows "loads_ok env (sorted_sources tmem smem sources)"
  unfolding loads_ok_def
proof (intro allI impI)
  fix f i assume "i < length (sorted_sources tmem smem sources)"
  then have "sorted_sources tmem smem sources ! i \<in> set (captured reg)"
    using assms(2) nth_mem set_sorted_sources by blast
  with assms show "\<exists>v. load_item (fst (snd (FAMILIES ! f))) (env f i)
      (so_item (sorted_sources tmem smem sources ! i)) = Inr v"
    by (intro captured_load) (auto simp: later_def)
qed

lemma loads_ok_captured:
  "registry_inv reg \<Longrightarrow> later reg env \<Longrightarrow> loads_ok env (sorted_sources tmem smem (captured reg))"
  by (rule loads_ok_sources) simp_all

text \<open>A fresh reader is well-formed and has the whole text left.\<close>

lemma fresh_reader_content:
  assumes "loads_ok env (pr_sources r)" and "pr_family r = 0" "pr_source r = 0" "\<not> pr_header r"
    and "pr_state r = 0" "pr_state_field r = 0" "pr_buffer r = []" "pr_offset r = 0"
  shows "reader_ok env r" and "content env r = concat (scrape_lines env (pr_sources r) (pr_states r))"
    and "rest_states r = state_lines (pr_states r)"
proof -
  show "reader_ok env r" using assms by (simp add: reader_ok_def)
  show st: "rest_states r = state_lines (pr_states r)"
    using assms by (cases "pr_states r") (simp_all add: rest_states_def state_lines_def)
  have "0 < length FAMILIES" by (simp add: FAMILIES_def)
  with st assms show "content env r = concat (scrape_lines env (pr_sources r) (pr_states r))"
    by (simp add: content_def rest_lines_def scrape_lines_def upt_conv_Cons)
qed

lemma from_registry_content:
  assumes "registry_inv reg" and "later reg env" and "from_registry tmem smem reg = Inr r"
  shows "reader_ok env r"
    and "content env r = concat (scrape_lines env (pr_sources r) (pr_states r))"
    and "pr_sources r = sorted_sources tmem smem (captured reg)"
    and "pr_states r = registry_state_snapshot reg"
proof -
  note r = assms(3) [unfolded from_registry_ok [OF assms(1)], simplified, symmetric]
  show S: "pr_sources r = sorted_sources tmem smem (captured reg)" and "pr_states r = registry_state_snapshot reg"
    by (simp_all add: r)
  have "loads_ok env (pr_sources r)" using loads_ok_captured [OF assms(1,2)] by (simp only: S)
  from fresh_reader_content [OF this]
  show "reader_ok env r" "content env r = concat (scrape_lines env (pr_sources r) (pr_states r))" by (simp_all add: r)
qed

lemma rest_states_frame: "rest_states (r\<lparr>pr_family := f\<rparr>) = rest_states r"
  by (simp add: rest_states_def)

text \<open>The lines of one family, and of the states, call by call.\<close>

lemma family_samples:
  assumes "registry_inv reg" and "later reg env" and "from_registry tmem smem reg = Inr r" and "f < length FAMILIES"
  shows "\<exists>r'. samples env (Suc (length (family_lines env (pr_sources r) f 0))) (r\<lparr>pr_family := f\<rparr>) =
      Inr (type_line f # family_lines env (pr_sources r) f 0, r') \<and>
    (\<forall>n. map_sum id fst (samples env n r') = map_sum id fst (samples env n (r\<lparr>pr_family := Suc f\<rparr>)))"
proof -
  note r = assms(3) [unfolded from_registry_ok [OF assms(1)], simplified, symmetric]
  have ok: "reader_ok env (r\<lparr>pr_family := g\<rparr>)" for g
    using from_registry_content(1) [OF assms(1-3)] by (simp add: reader_ok_def)
  let ?ls = "family_lines env (pr_sources r) f 0"
  have rest: "rest_lines env (r\<lparr>pr_family := f\<rparr>) = (type_line f # ?ls) @ rest_lines env (r\<lparr>pr_family := Suc f\<rparr>)"
  proof (cases "Suc f < length FAMILIES")
    case True
    with assms(4) show ?thesis by (simp add: r rest_lines_def rest_states_def upt_conv_Cons)
  next
    case False
    with assms(4) show ?thesis by (simp add: r rest_lines_def rest_states_def)
  qed
  from samples_rest [OF ok, of "Suc (length ?ls)" f] obtain r' where
    "samples env (Suc (length ?ls)) (r\<lparr>pr_family := f\<rparr>) = Inr (type_line f # ?ls, r')" "reader_ok env r'"
    "rest_lines env r' = rest_lines env (r\<lparr>pr_family := Suc f\<rparr>)" unfolding rest by auto
  with samples_alike [OF _ ok] show ?thesis by blast
qed

lemma state_phase_samples:
  assumes "registry_inv reg" and "later reg env" and "from_registry tmem smem reg = Inr r"
  shows "\<exists>r' r''. samples env (Suc (length (state_lines (registry_state_snapshot reg)))) (r\<lparr>pr_family := length FAMILIES\<rparr>) =
      Inr (state_header # state_lines (registry_state_snapshot reg), r') \<and> next_sample env r' = Inr (False, r'')"
proof -
  note r = assms(3) [unfolded from_registry_ok [OF assms(1)], simplified, symmetric]
  note c = from_registry_content [OF assms]
  have ok: "reader_ok env (r\<lparr>pr_family := length FAMILIES\<rparr>)" using c(1) by (simp add: reader_ok_def)
  have "rest_states r = state_lines (pr_states r)"
    by (rule fresh_reader_content(3) [of env]) (use c(1) in \<open>simp_all add: r reader_ok_def\<close>)
  then have rest: "rest_lines env (r\<lparr>pr_family := length FAMILIES\<rparr>) = state_header # state_lines (registry_state_snapshot reg)"
    by (simp add: rest_lines_def rest_states_frame c(4)) (simp add: r)
  from samples_rest [OF ok, of "Suc (length (state_lines (registry_state_snapshot reg)))"] obtain r' where
    "samples env (Suc (length (state_lines (registry_state_snapshot reg)))) (r\<lparr>pr_family := length FAMILIES\<rparr>) =
      Inr (state_header # state_lines (registry_state_snapshot reg), r')"
    and r': "reader_ok env r'" "rest_lines env r' = []" unfolding rest by auto
  with next_sample_emits [OF r'(1)] show ?thesis by auto
qed

interpretation scrape: byte_source "reader_ok env" "content env" "reader_read env" for env
  by unfold_locales (rule reader_read_spec)

section \<open>The asynchronous reader\<close>

lemma length_copy_bytes [simp]: "length (copy_bytes (copy_len n r) r) = copy_len n r"
  by (simp add: copy_bytes_def copy_len_def)

lemma copy_len_le: "copy_len n r \<le> n"
  by (simp add: copy_len_def)

lemma poll_read_loop:
  assumes "\<And>s b. length s \<le> remaining b \<Longrightarrow>
      remaining (put_slice s b) = remaining b - length s \<and> filled (put_slice s b) = filled b @ s"
    and "filled buf = pre @ out" and "remaining buf = n - length out" and "length out \<le> n"
  shows "case read_loop env n out r of
      Inl e \<Rightarrow> poll_read remaining put_slice env buf r = Inl e
    | Inr (out', r') \<Rightarrow> \<exists>buf'. poll_read remaining put_slice env buf r = Inr (buf', r') \<and> filled buf' = pre @ out'"
  using assms(2-4)
proof (induction env n out r arbitrary: buf rule: read_loop.induct)
  case (1 env n out r)
  show ?case
  proof (cases "length out < n")
    case False
    with 1(2-4) show ?thesis by (subst read_loop.simps, subst poll_read.simps) auto
  next
    case less: True
    then have pos: "0 < remaining buf" using 1(3) by simp
    show ?thesis
    proof (cases "refill env r")
      case (Inl e)
      with less pos show ?thesis by (subst read_loop.simps, subst poll_read.simps) simp
    next
      case (Inr x)
      obtain ok r1 where x: "x = (ok, r1)" by (cases x)
      show ?thesis
      proof (cases ok)
        case False
        with less pos Inr x 1(2) show ?thesis by (subst read_loop.simps, subst poll_read.simps) simp
      next
        case True
        let ?k = "copy_len (n - length out) r1"
        have fits: "length (copy_bytes ?k r1) \<le> remaining buf" using 1(3) copy_len_le [of "n - length out" r1] by simp
        note put = assms(1) [OF fits]
        have "length (out @ copy_bytes ?k r1) \<le> n" using less copy_len_le [of "n - length out" r1] by simp
        note len = this
        have read: "read_loop env n out r =
            read_loop env n (out @ copy_bytes ?k r1) (r1\<lparr>pr_offset := pr_offset r1 + ?k\<rparr>)"
          using less Inr x True by (subst read_loop.simps) (simp add: Let_def)
        have poll: "poll_read remaining put_slice env buf r =
            poll_read remaining put_slice env (put_slice (copy_bytes ?k r1) buf)
              (r1\<lparr>pr_offset := pr_offset r1 + ?k\<rparr>)"
          using pos 1(3) Inr x True by (subst poll_read.simps) (simp add: Let_def)
        show ?thesis
          unfolding read poll
          using 1(1) [OF less _ refl _ refl, of ok r1 "put_slice (copy_bytes ?k r1) buf"] len put 1(2,3) Inr x True
          by simp
      qed
    qed
  qed
qed

section \<open>Ends of the text\<close>

lemma concat_scrape_lines:
  "concat (scrape_lines env sources sts) =
     type_line 0 @ concat (family_lines env sources 0 0) @
     concat (concat (map (\<lambda>f. type_line f # family_lines env sources f 0) [1..<length FAMILIES])) @
     state_header @ concat (state_lines sts)"
proof -
  have "[0..<length FAMILIES] = 0 # [1..<length FAMILIES]" by (simp add: FAMILIES_def upt_conv_Cons)
  then show ?thesis by (simp add: scrape_lines_def)
qed

lemma scalars_log_new [simp]: "scalars_log (rg_scalars (registry_new hs ht)) = []"
  by (simp add: registry_new_def scalars_log_def scalar_registry_new_def scalar_log_def scalar_shard_new_def)

lemma captured_new [simp]: "captured (registry_new hs ht) = []"
  using registry_log_metas [of "registry_new hs ht"] by (simp add: captured_def)

lemma states_new [simp]: "registry_state_snapshot (registry_new hs ht) = []"
  by (simp add: registry_state_snapshot_def registry_new_def state_registry_new_def state_snapshots_def)

lemma scrape_lines_new:
  "scrape_lines env [] [] = map type_line [0..<length FAMILIES] @ [state_header]"
proof -
  have "concat (map (\<lambda>f. [g f]) xs) = map g xs" for g :: "nat \<Rightarrow> str" and xs
    by (induction xs) simp_all
  then show ?thesis by (simp add: scrape_lines_def family_lines_def groups_from_def state_lines_def)
qed

section \<open>Properties\<close>

text \<open>C2: Reading is streaming. A reader can be created on every reachable registry, and whatever
  sizes its caller reads with, while the process goes on registering and recording, no read panics
  and the bytes returned are, in order and without gap, the bytes of the reference text over the
  captured sources and states; a read is short only at the end of the text.\<close>

theorem scrape_streams:
  assumes "registry_inv reg" and "later reg env"
  shows "\<exists>r chunks r'. from_registry tmem smem reg = Inr r \<and> run_all (reader_read env) ns r = Inr (chunks, r') \<and>
    concat chunks = take (sum_list ns)
      (concat (scrape_lines env (sorted_sources tmem smem (captured reg)) (registry_state_snapshot reg))) \<and>
    (\<forall>i < length ns. length (chunks ! i) = min (ns ! i)
      (length (concat (scrape_lines env (sorted_sources tmem smem (captured reg)) (registry_state_snapshot reg))) -
       sum_list (take i ns)))"
proof -
  obtain r where r: "from_registry tmem smem reg = Inr r" using from_registry_ok [OF assms(1)] by blast
  note c = from_registry_content [OF assms r]
  from scrape.reads [OF c(1), of ns] r show ?thesis unfolding c(2-4) by (elim exE conjE) blast
qed

theorem scrape_streams_witness:
  "\<exists>m reg r chunks r'. registry_do (RegName ''a'' Log) (registry_new (\<lambda>_. 0) (\<lambda>_. 1)) = Inr (m, reg) \<and>
     from_registry (\<lambda>_. 0) (\<lambda>_. 1) reg = Inr r \<and> run_all (reader_read (\<lambda>_ _. reg)) [7, 0, 3] r = Inr (chunks, r') \<and>
     concat chunks = ''# TYPE brz''"
proof -
  obtain m reg where m: "registry_do (RegName ''a'' Log) (registry_new (\<lambda>_. 0) (\<lambda>_. 1)) = Inr (m, reg)"
    "registry_inv reg" by (rule registry_first)
  have "later reg (\<lambda>_ _. reg)" by (simp add: later_def registry_run.here)
  from scrape_streams [OF m(2) this, of "\<lambda>_. 0" "\<lambda>_. 1" "[7, 0, 3]"] m(1) show ?thesis
    by (simp add: concat_scrape_lines type_line_def FAMILIES_def) blast
qed

text \<open>C17: A scrape ends. As many reads as the text has bytes, each with room for at least one, return the
  whole text, and from then on every read returns nothing.\<close>

theorem scrape_ends:
  assumes "registry_inv reg" and "later reg env" and "\<forall>n \<in> set ns. 0 < n"
    and "length (concat (scrape_lines env (sorted_sources tmem smem (captured reg)) (registry_state_snapshot reg)))
      \<le> length ns"
  shows "\<exists>r chunks r'. from_registry tmem smem reg = Inr r \<and> run_all (reader_read env) ns r = Inr (chunks, r') \<and>
    concat chunks =
      concat (scrape_lines env (sorted_sources tmem smem (captured reg)) (registry_state_snapshot reg)) \<and>
    (\<forall>ms. \<exists>r''. run_all (reader_read env) ms r' = Inr (replicate (length ms) [], r''))"
proof -
  obtain r where r: "from_registry tmem smem reg = Inr r" using from_registry_ok [OF assms(1)] by blast
  note c = from_registry_content [OF assms(1,2) r]
  have len: "length (content env r) \<le> length ns" using assms(4) by (simp only: c(2-4))
  from scrape.reads_to_end [OF c(1) assms(3) len] r show ?thesis
    unfolding c(2-4) by (elim exE conjE) blast
qed

theorem scrape_ends_witness:
  "\<exists>r chunks r'. from_registry (\<lambda>_. 0) (\<lambda>_. 1) (registry_new (\<lambda>_. 0) (\<lambda>_. 1)) = Inr r \<and>
     run_all (reader_read (\<lambda>_ _. registry_new (\<lambda>_. 0) (\<lambda>_. 1))) (replicate 1000 1) r = Inr (chunks, r') \<and>
     concat chunks = concat (map type_line [0..<length FAMILIES] @ [state_header])"
proof -
  let ?new = "registry_new (\<lambda>_. 0) (\<lambda>_. 1)"
  have lines: "scrape_lines (\<lambda>_ _. ?new) (sorted_sources (\<lambda>_. 0) (\<lambda>_. 1) (captured ?new)) (registry_state_snapshot ?new) =
      map type_line [0..<length FAMILIES] @ [state_header]"
    by (simp add: sorted_sources_def scrape_lines_new)
  have late: "later ?new (\<lambda>_ _. ?new)" by (simp add: later_def registry_run.here)
  have "\<forall>n \<in> set (replicate 1000 1). 0 < (n :: nat)" by simp
  note ends = scrape_ends [OF registry_inv_new late this, of "\<lambda>_. 0" "\<lambda>_. 1", unfolded lines]
  have "length (concat (map type_line [0..<length FAMILIES] @ [state_header])) \<le> 1000"
    by (simp add: type_line_def FAMILIES_def state_header_def upt_rec)
  with ends show ?thesis by (simp only: length_replicate) blast
qed

text \<open>C18: The asynchronous reader delivers what the synchronous one does. For a buffer whose
  \<open>put_slice\<close> appends what fits, \<open>poll_read\<close> leaves the reader in the same state and appends the same
  bytes as \<open>read\<close> into a slice of the remaining size, and panics exactly when \<open>read\<close> does.\<close>

theorem poll_read_reads:
  assumes "\<And>s b. length s \<le> remaining b \<Longrightarrow>
      remaining (put_slice s b) = remaining b - length s \<and> filled (put_slice s b) = filled b @ s"
  shows "case reader_read env (remaining buf) r of
      Inl e \<Rightarrow> poll_read remaining put_slice env buf r = Inl e
    | Inr (bytes, r') \<Rightarrow> \<exists>buf'. poll_read remaining put_slice env buf r = Inr (buf', r') \<and>
        filled buf' = filled buf @ bytes"
  unfolding reader_read_def by (rule poll_read_loop [OF assms]) simp_all

theorem poll_read_reads_witness:
  "\<exists>r buf' r'. from_registry (\<lambda>_. 0) (\<lambda>_. 1) (registry_new (\<lambda>_. 0) (\<lambda>_. 1)) = Inr r \<and>
     poll_read (\<lambda>b. 10 - length b) (\<lambda>s b. b @ s) (\<lambda>_ _. registry_new (\<lambda>_. 0) (\<lambda>_. 1)) ''> '' r = Inr (buf', r') \<and>
     buf' = ''> # TYPE b''"
proof -
  let ?env = "\<lambda>_ _ :: nat. registry_new (\<lambda>_. 0) (\<lambda>_. 1)"
  have late: "later (registry_new (\<lambda>_. 0) (\<lambda>_. 1)) ?env" by (simp add: later_def registry_run.here)
  obtain r where r: "from_registry (\<lambda>_. 0) (\<lambda>_. 1) (registry_new (\<lambda>_. 0) (\<lambda>_. 1)) = Inr r"
    using from_registry_ok [OF registry_inv_new] by blast
  note c = from_registry_content [OF registry_inv_new late r]
  obtain r' where "reader_read ?env (10 - length ''> '') r = Inr (take 8 (content ?env r), r')"
    using reader_read_spec [OF c(1), of 8] by auto
  then have "reader_read ?env (10 - length ''> '') r = Inr (''# TYPE b'', r')"
    by (simp add: c(2) concat_scrape_lines type_line_def FAMILIES_def)
  with poll_read_reads [of "\<lambda>b. 10 - length b" "\<lambda>s b. b @ s" "\<lambda>b. b" ?env "''> ''" r] r
  show ?thesis by auto
qed



end
