(* ===== verification/Prometheus_Series.thy ===== *)
theory Prometheus_Series
  imports Prometheus_Scrape
begin

text \<open>
  The series of a scrape: label values survive escaping, no two samples of a family have the same
  name and labels, and the samples of a family are exactly the exported views that support it, in
  order.
\<close>

section \<open>Escaped labels\<close>

lemma label_simps [simp]:
  "label [] = []"
  "label (c # s) = escape_byte c @ label s"
  by (simp_all add: label_def)

text \<open>The closing quote of a label value can be found: what precedes it and what follows it are
  determined.\<close>

lemma label_quote_iff:
  "label s @ quote # t = label s' @ quote # t' \<longleftrightarrow> s = s' \<and> t = t'"
proof (induction s arbitrary: s')
  case Nil
  show ?case by (cases s') auto
next
  case (Cons c s)
  show ?case by (cases s') (use Cons.IH in \<open>auto split: if_splits\<close>)
qed

lemma newline_not_in_label: "newline \<notin> set (label s)"
  by (induction s) auto

text \<open>How a scraper reads a quoted label value.\<close>

fun read_label :: "str \<Rightarrow> (str \<times> str) option" where
  "read_label [] = None"
| "read_label [c] = (if c = quote then Some ([], []) else None)"
| "read_label (c # d # s) =
     (if c = quote then Some ([], d # s)
      else if c = backslash
        then map_option (\<lambda>(v, rest). ((if d = CHR ''n'' then newline else d) # v, rest)) (read_label s)
      else map_option (\<lambda>(v, rest). (c # v, rest)) (read_label (d # s)))"

lemma read_label_plain:
  assumes "c \<noteq> quote" and "c \<noteq> backslash"
  shows "read_label (c # s) = map_option (\<lambda>(v, rest). (c # v, rest)) (read_label s)"
  using assms by (cases s) simp_all

lemma read_label_label: "read_label (label s @ quote # rest) = Some (s, rest)"
proof (induction s)
  case Nil
  show ?case by (cases rest) simp_all
next
  case (Cons c s)
  then show ?case by (auto simp: read_label_plain)
qed

section \<open>Series texts\<close>

text \<open>A series as a sequence of labels of which some may be missing.\<close>

definition opt_label :: "str \<Rightarrow> str option \<Rightarrow> str \<Rightarrow> str" where
  "opt_label key v rest = (case v of None \<Rightarrow> rest | Some s \<Rightarrow> key @ quote # label s @ quote # rest)"

fun status_label :: "source_kind \<Rightarrow> str option" where
  "status_label (SkApi code) = Some (show_nat (unat code))"
| "status_label SkTimeout = Some ''timeout''"
| "status_label _ = None"

lemma opt_label_inj:
  assumes "opt_label key v rest = opt_label key v' rest'" and "\<not> prefix key rest" and "\<not> prefix key rest'"
  shows "v = v' \<and> rest = rest'"
  using assms by (cases v; cases v') (auto simp: opt_label_def label_quote_iff)

lemma label_digits [simp]: "label (show_nat n) = show_nat n"
proof -
  have "\<forall>c \<in> set s. is_digit c \<Longrightarrow> label s = s" for s
    by (induction s) (simp_all add: is_digit_not_special)
  then show ?thesis using show_nat_digits by blast
qed

lemma status_text_label:
  "status_text k @ [quote] @ ''} '' = quote # opt_label '',status_code='' (status_label k) ''} ''"
  by (cases k) (simp_all add: opt_label_def)

lemma series_text_labels:
  "series_text name out kind =
     name @ ''{type='' @ quote # label (po_type out) @ quote # '',name='' @ quote # label (po_name out) @ quote #
     opt_label '',endpoint='' (map_option rl_endpoint (po_resource out))
       (opt_label '',access='' (map_option access_label (Option.bind (po_resource out) rl_access))
       (opt_label '',role='' (map_option role_label (Option.bind (po_resource out) rl_role))
       (opt_label '',status_code='' (status_label kind) ''} '')))"
  unfolding series_text_def status_text_label
  by (cases "po_resource out")
    (auto simp: opt_label_def split: option.split)

lemma series_text_inj:
  assumes "series_text name out kind = series_text name out' kind'"
  shows "po_type out = po_type out' \<and> po_name out = po_name out' \<and>
    map_option rl_endpoint (po_resource out) = map_option rl_endpoint (po_resource out') \<and>
    Option.bind (po_resource out) rl_access = Option.bind (po_resource out') rl_access \<and>
    Option.bind (po_resource out) rl_role = Option.bind (po_resource out') rl_role \<and>
    status_label kind = status_label kind'"
proof -
  have inj: "map_option access_label x = map_option access_label x' \<longleftrightarrow> x = x'"
    "map_option role_label y = map_option role_label y' \<longleftrightarrow> y = y'" for x x' y y'
    by (cases x; cases x'; simp) (cases y; cases y'; simp)
  let ?s = "\<lambda>k. opt_label '',status_code='' (status_label k) ''} ''"
  let ?r = "\<lambda>x k. opt_label '',role='' (map_option role_label (Option.bind (po_resource x) rl_role)) (?s k)"
  let ?a = "\<lambda>x k. opt_label '',access='' (map_option access_label (Option.bind (po_resource x) rl_access)) (?r x k)"
  let ?e = "\<lambda>x k. opt_label '',endpoint='' (map_option rl_endpoint (po_resource x)) (?a x k)"
  have start: "po_type out = po_type out' \<and> po_name out = po_name out'" and e: "?e out kind = ?e out' kind'"
    using assms by (simp_all add: series_text_labels label_quote_iff)
  have nopre: "\<not> prefix '',status_code='' ''} ''" "\<not> prefix '',role='' (?s k)"
    "\<not> prefix '',access='' (?r x k)" "\<not> prefix '',endpoint='' (?a x k)" for x k
    by (simp_all add: opt_label_def split: option.split)
  note e' = opt_label_inj [OF e nopre(4) nopre(4)]
  note a' = opt_label_inj [OF e' [THEN conjunct2] nopre(3) nopre(3)]
  note r' = opt_label_inj [OF a' [THEN conjunct2] nopre(2) nopre(2)]
  note s' = opt_label_inj [OF r' [THEN conjunct2] nopre(1) nopre(1)]
  from start e' a' r' s' show ?thesis by (simp only: inj simp_thms)
qed

section \<open>Captured views\<close>

definition view_of :: "source \<Rightarrow> profile_output \<times> source_kind" where
  "view_of s = (so_output s, so_kind s)"

text \<open>Plans are built by the public builder only.\<close>

inductive built_plan :: "profile_plan \<Rightarrow> bool" where
  built_new: "built_plan (profile_plan_new identity policy fmt ty name)"
| built_alias: "built_plan plan \<Longrightarrow> built_plan (plan_alias ty name plan)"
| built_aggregate: "built_plan plan \<Longrightarrow> built_plan (plan_aggregate ty name plan)"

lemma built_plan_outputs:
  "built_plan plan \<Longrightarrow> out \<in> set (pp_outputs plan) \<union> set_option (pp_aggregate plan) \<Longrightarrow> po_resource out = None"
  by (induction rule: built_plan.induct)
    (auto simp: profile_plan_new_def plan_alias_def plan_aggregate_def profile_output_new_def)

definition plans_built :: "registry \<Rightarrow> bool" where
  "plans_built reg \<longleftrightarrow>
     (\<forall>m \<in> set (registry_metas reg). \<forall>plan. mm_profile m = Fanout plan \<longrightarrow> built_plan plan)"

text \<open>What the view of a captured source can be.\<close>

definition view_ok :: "source \<Rightarrow> bool" where
  "view_ok s \<longleftrightarrow>
     (so_kind s = SkFull \<longrightarrow> po_type (so_output s) \<noteq> ''API'') \<and>
     (so_kind s = SkApiSummary \<longrightarrow> po_type (so_output s) = ''API'') \<and>
     (\<forall>l. po_resource (so_output s) = Some l \<longrightarrow> po_name (so_output s) = rl_name l) \<and>
     ((\<exists>p. so_item s = GaugeItem p) \<longleftrightarrow> so_kind s \<in> {SkConnGauge, SkGauge})"

lemma timing_view_ok:
  assumes "\<forall>plan. mm_profile m = Fanout plan \<longrightarrow> built_plan plan" and "s \<in> set (timing_sources m)"
  shows "view_ok s"
proof (cases "mm_profile m")
  case (Single name kind)
  with assms(2) show ?thesis
    by (cases kind) (auto simp: view_ok_def timing_sources_def single_view_def)
next
  case (Resource labels kind)
  with assms(2) show ?thesis
    by (cases kind) (auto simp: view_ok_def timing_sources_def resource_view_def api_type_def)
next
  case (Fanout plan)
  with assms(1) have "built_plan plan" by simp
  note none = built_plan_outputs [OF this]
  from Fanout assms(2) obtain out where "out \<in> set (pp_outputs plan) \<union> set_option (pp_aggregate plan)"
    "s = \<lparr>so_output = out, so_kind = snd (output_view out), so_item = TimingItem (mm_item m)\<rparr>"
    by (auto simp: timing_sources_def output_view_def split: option.splits)
  with none show ?thesis by (auto simp: view_ok_def output_view_def)
qed

lemma scalar_view_ok: "view_ok (scalar_source (scalar_entry k p))"
proof -
  have "scalar_source_kind mode kind \<notin> {SkFull, SkApiSummary} \<and>
      (scalar_source_kind mode kind \<in> {SkConnGauge, SkGauge} \<longleftrightarrow> mode = GaugeKind)" for mode kind
    by (cases mode; cases kind) auto
  then show ?thesis
    by (cases k) (auto simp: view_ok_def scalar_source_def scalar_entry_def split: scalar_kind.splits)
qed

lemma captured_view_ok: "plans_built reg \<Longrightarrow> s \<in> set (captured reg) \<Longrightarrow> view_ok s"
  by (auto simp: captured_def plans_built_def scalar_view_ok intro: timing_view_ok)

lemma kind_determined:
  assumes "supports k f" and "supports k' f" and "status_label k = status_label k'"
    and "k = SkFull \<longrightarrow> ty \<noteq> ''API''" and "k' = SkFull \<longrightarrow> ty \<noteq> ''API''"
    and "k = SkApiSummary \<longrightarrow> ty = ''API''" and "k' = SkApiSummary \<longrightarrow> ty = ''API''"
  shows "k = k'"
proof -
  have "show_nat n \<noteq> ''timeout''" for n
    using show_nat_digits [of "CHR ''t''" n] by (auto simp: is_digit_def)
  then show ?thesis using assms by (cases k; cases k') (auto simp: word_unat_eq_iff dest: sym)
qed

text \<open>The views a family exports.\<close>

definition exported_views :: "source list \<Rightarrow> nat \<Rightarrow> (profile_output \<times> source_kind) set" where
  "exported_views sources f = {v \<in> view_of ` set sources. supports (snd v) f}"

lemma series_text_inj_on:
  assumes "plans_built reg"
  shows "inj_on (\<lambda>(out, kind). series_text name out kind) (exported_views (captured reg) f)"
proof (intro inj_onI, clarify)
  fix out kind out' kind'
  assume in1: "(out, kind) \<in> exported_views (captured reg) f" and in2: "(out', kind') \<in> exported_views (captured reg) f"
    and eq: "series_text name out kind = series_text name out' kind'"
  from in1 obtain s where s: "view_ok s" "so_output s = out" "so_kind s = kind" "supports kind f"
    using captured_view_ok [OF assms] by (auto simp: exported_views_def view_of_def)
  from in2 obtain s' where s': "view_ok s'" "so_output s' = out'" "so_kind s' = kind'" "supports kind' f"
    using captured_view_ok [OF assms] by (auto simp: exported_views_def view_of_def)
  note e = series_text_inj [OF eq]
  have "po_resource out = po_resource out'"
  proof (cases "po_resource out")
    case None
    with e show ?thesis by auto
  next
    case (Some l)
    with e obtain l' where l': "po_resource out' = Some l'" by (cases "po_resource out'") auto
    have "rl_name l = rl_name l'" using s s' e Some l' by (auto simp: view_ok_def)
    with e Some l' show ?thesis by (cases l; cases l') simp
  qed
  with e have "out = out'" by (cases out; cases out') simp
  moreover have "kind = kind'"
    by (rule kind_determined [of _ f _ "po_type out"]) (use s s' e in \<open>auto simp: view_ok_def\<close>)
  ultimately show "out = out' \<and> kind = kind'" by simp
qed

section \<open>The samples of a family\<close>

lemma sorted_map_remdups_adj: "sorted (map key xs) \<Longrightarrow> sorted (map key (remdups_adj xs))"
  by (induction xs rule: remdups_adj.induct) auto

lemma sorted_views: "sorted (map view_of (sorted_sources tmem smem sources))"
proof -
  let ?xs = "sort_key (source_key tmem smem) sources"
  have "sorted (map (source_key tmem smem) ?xs)" by simp
  then have "sorted (map view_of ?xs)"
    by (simp add: sorted_wrt_map) (erule sorted_wrt_mono_rel [rotated], auto simp: source_key_def view_of_def)
  then show ?thesis by (simp add: sorted_sources_def sorted_map_remdups_adj)
qed

lemma group_key_view: "group_key e = view_of (snd e)"
  by (simp add: group_key_def view_of_def)

lemma map_group_key_enumerate: "map group_key (enumerate n xs) = map view_of xs"
  by (induction xs arbitrary: n) (simp_all add: group_key_view)

lemma sorted_runs_keys:
  fixes key :: "'a \<Rightarrow> 'k :: linorder"
  assumes "sorted (map key xs)"
  shows "sorted (map (\<lambda>r. key (hd r)) (runs key xs))"
  using assms
proof (induction key xs rule: runs.induct)
  case (2 key x xs)
  have "key x < key (hd r)" if "r \<in> set (runs key (dropWhile (\<lambda>y. key y = key x) xs))" for r
    using sorted_dropWhile_less [OF "2.prems", of "hd r"] runs_subset [OF that] runs_nonempty [OF that] by force
  with 2 show ?case by (force simp: sorted_map_dropWhile)
qed simp

lemma runs_keys: "(\<lambda>r. key (hd r)) ` set (runs key xs) = key ` set xs"
proof (intro equalityI subsetI)
  fix k assume "k \<in> (\<lambda>r. key (hd r)) ` set (runs key xs)"
  then show "k \<in> key ` set xs" using runs_subset [of _ key xs] runs_nonempty [of _ key xs] by fastforce
next
  fix k assume "k \<in> key ` set xs"
  then obtain r x where "r \<in> set (runs key xs)" "x \<in> set r" "k = key x"
    using concat_runs [of key xs] by (metis (no_types, lifting) UN_E imageE set_concat)
  then show "k \<in> (\<lambda>r. key (hd r)) ` set (runs key xs)" using runs_uniform by fastforce
qed

text \<open>The groups of a family are the exported views in order, each with all its sources.\<close>

lemma family_groups:
  fixes tmem smem sources f
  defines "xs \<equiv> enumerate 0 (sorted_sources tmem smem sources)"
  shows "filter (supported f) (groups_from (sorted_sources tmem smem sources) 0) =
    map (\<lambda>v. filter (\<lambda>e. group_key e = v) xs) (sorted_list_of_set (exported_views sources f))"
proof -
  let ?gs = "filter (supported f) (runs group_key xs)"
  let ?keys = "map (\<lambda>g. group_key (hd g)) ?gs"
  have sorted: "sorted (map group_key xs)"
    by (simp add: xs_def map_group_key_enumerate sorted_views)
  have img: "group_key ` set xs = view_of ` set sources"
    unfolding xs_def by (metis set_map map_group_key_enumerate set_sorted_sources)
  have "set ?keys = {v \<in> (\<lambda>g. group_key (hd g)) ` set (runs group_key xs). supports (snd v) f}"
    by (auto simp: supported_def)
  also have "\<dots> = exported_views sources f"
    by (simp only: runs_keys img exported_views_def)
  finally have set: "set ?keys = exported_views sources f" .
  have "sorted ?keys" "distinct ?keys"
    using sorted_runs_keys [OF sorted] distinct_runs_keys [OF sorted]
    by (auto intro: sorted_filter distinct_map_filter)
  then have keys: "?keys = sorted_list_of_set (exported_views sources f)"
    using sorted_list_of_set_unique [of "exported_views sources f"] set
    by (metis List.finite_set sorted_distinct_set_unique sorted_list_of_set.set_sorted_key_list_of_set
        sorted_list_of_set.distinct_sorted_key_list_of_set sorted_list_of_set.sorted_sorted_key_list_of_set)
  have "?gs = map (\<lambda>g. filter (\<lambda>e. group_key e = group_key (hd g)) xs) ?gs"
    by (rule map_idI [symmetric]) (use runs_filter [OF sorted] in auto)
  then show ?thesis unfolding keys [symmetric] by (simp add: groups_from_def xs_def comp_def)
qed

text \<open>All sources with one view, each loaded at its own index.\<close>

definition view_total :: "(nat \<Rightarrow> registry) \<Rightarrow> counter \<Rightarrow> source list \<Rightarrow> profile_output \<times> source_kind \<Rightarrow> u64 \<times> i64" where
  "view_total env c sources v = group_total env c (filter (\<lambda>e. group_key e = v) (enumerate 0 sources)) (0, 0)"

lemma family_lines_views:
  assumes "FAMILIES ! f = (name, c, seconds)"
  shows "family_lines env (sorted_sources tmem smem sources) f 0 =
    map (\<lambda>v. series_text name (fst v) (snd v) @
        (case view_total (env f) c (sorted_sources tmem smem sources) v of
           (n, gauge) \<Rightarrow> value_text f seconds n gauge) @ [newline])
      (sorted_list_of_set (exported_views sources f))"
proof -
  let ?xs = "enumerate 0 (sorted_sources tmem smem sources)"
  have "sample_line env f (filter (\<lambda>e. group_key e = v) ?xs) =
      series_text name (fst v) (snd v) @
        (case view_total (env f) c (sorted_sources tmem smem sources) v of
           (n, gauge) \<Rightarrow> value_text f seconds n gauge) @ [newline]" if "v \<in> exported_views sources f" for v
  proof -
    have "v \<in> set (map group_key ?xs)"
      using that by (auto simp: map_group_key_enumerate exported_views_def)
    then have "filter (\<lambda>e. group_key e = v) ?xs \<noteq> []" by (auto simp: filter_empty_conv)
    from hd_in_set [OF this] have "group_key (hd (filter (\<lambda>e. group_key e = v) ?xs)) = v" by simp
    then show ?thesis by (simp add: sample_line_def assms view_total_def split: prod.split)
  qed
  then show ?thesis
    by (simp add: family_lines_def family_groups exported_views_def)
qed

section \<open>A registry with one metric\<close>

definition single_source :: "str \<Rightarrow> metric_type \<Rightarrow> item_ptr \<Rightarrow> source" where
  "single_source name kind item =
     \<lparr>so_output = fst (single_view name kind), so_kind = snd (single_view name kind), so_item = TimingItem item\<rparr>"

lemma captured_one:
  assumes inv: "registry_inv reg" and find: "registry_find reg = [NameKey name kind \<mapsto> m]"
    and scalars: "scalars_log (rg_scalars reg) = []"
  shows "plans_built reg" and "set (captured reg) = {single_source name kind (m_item m)}"
proof -
  have all: "mm_profile x = Single name kind \<and> mm_item x = m_item m" if x: "x \<in> set (registry_metas reg)" for x
  proof -
    have "registry_find reg (profile_key (mm_profile x)) =
        Some (from_item (mm_item x) (key_policy (profile_key (mm_profile x))))"
      by (rule registry_meta_find [OF inv x])
    then show ?thesis using find by (cases "mm_profile x") (auto simp: from_item_def split: if_splits)
  qed
  obtain x where x: "x \<in> set (registry_metas reg)"
    by (rule registry_find_meta [OF inv, of "NameKey name kind" m]) (use find in auto)
  have "y = x" if "y \<in> set (registry_metas reg)" for y
    using all [OF x] all [OF that] by (cases x, cases y) simp
  with x have metas: "set (registry_metas reg) = {x}" by blast
  show "plans_built reg" using all by (force simp: plans_built_def)
  show "set (captured reg) = {single_source name kind (m_item m)}"
    unfolding captured_def scalars using all [OF x] by (simp add: metas timing_sources_def single_source_def split_beta)
qed

lemma scrape_example:
  obtains m reg where "registry_do (RegName name kind) (registry_new hs ht) = Inr (m, reg)" and "registry_inv reg"
    and "plans_built reg" and "set (captured reg) = {single_source name kind (m_item m)}"
    and "registry_find reg = [NameKey name kind \<mapsto> m]" and "registry_abs reg = [NameKey name kind \<mapsto> slot_default]"
    and "scalars_log (rg_scalars reg) = []"
proof -
  obtain m reg where m: "registry_do (RegName name kind) (registry_new hs ht) = Inr (m, reg)" "registry_inv reg"
    "registry_find reg = [NameKey name kind \<mapsto> m]" "registry_abs reg = [NameKey name kind \<mapsto> slot_default]"
    by (rule registry_first [of "RegName name kind" hs ht]) simp
  have "rg_scalars reg = rg_scalars (registry_new hs ht)" using registry_do_frame m(1) by blast
  then have scalars: "scalars_log (rg_scalars reg) = []" by simp
  show thesis by (rule that [OF m(1,2) captured_one [OF m(2,3) scalars] m(3,4) scalars])
qed

text \<open>A registry with one gauge that is then set.\<close>

lemma gauge_example:
  assumes "validate kind = Inr ()"
  obtains p reg reg' where
    "scalars_do (ScalarName kind GaugeKind name) (scalar_registry_new hs) = Inr (p, rg_scalars reg)"
    and "registry_inv reg" and "plans_built reg"
    and "set (captured reg) = {scalar_source (scalar_entry (ScalarName kind GaugeKind name) p)}"
    and "reg = (registry_new hs ht)\<lparr>rg_scalars := rg_scalars reg\<rparr>"
    and "atomic_store p v (rg_scalars reg) = Inr (rg_scalars reg')" and "reg' = reg\<lparr>rg_scalars := rg_scalars reg'\<rparr>"
    and "registry_run reg reg'" and "scalar_load p (rg_scalars reg') = Inr v"
proof -
  let ?k = "ScalarName kind GaugeKind name"
  obtain p scalars where p: "scalars_do ?k (scalar_registry_new hs) = Inr (p, scalars)" "scalars_inv scalars"
    "scalars_find scalars = [?k \<mapsto> p]"
    using scalars_do_fresh [OF scalars_inv_new [of hs], of ?k] assms by (auto simp: fun_eq_iff)
  obtain scalars' where s: "scalar_rmw p (\<lambda>_. v) scalars = Inr scalars'" "scalar_load p scalars' = Inr v"
    by (rule scalar_rmw_total [OF p(2), of ?k p "\<lambda>_. v"]) (use p(3) in auto)
  let ?reg = "(registry_new hs ht)\<lparr>rg_scalars := scalars\<rparr>"
  have metas: "registry_metas ?reg = []"
    using registry_log_metas [of "registry_new hs ht"] by (simp add: registry_metas_def)
  have "(k, q) \<in> set (scalars_log scalars) \<longleftrightarrow> k = ?k \<and> q = p" for k q
    using scalars_find_log [OF p(2), of k q] p(3) by (auto split: if_splits)
  then have log: "set (scalars_log scalars) = {(?k, p)}" by auto
  show thesis
  proof (rule that [of p ?reg "?reg\<lparr>rg_scalars := scalars'\<rparr>"])
    show "registry_inv ?reg" using registry_inv_new [of hs ht] p(2) by (simp add: registry_inv_def)
    show "plans_built ?reg" by (simp add: plans_built_def metas)
    show "set (captured ?reg) = {scalar_source (scalar_entry ?k p)}" by (simp add: captured_def metas log)
    show "registry_run ?reg (?reg\<lparr>rg_scalars := scalars'\<rparr>)"
      by (rule registry_run.step [OF registry_run.here registry_step.scalar_updates [of _ ?k p]])
        (use p(3) s(1) in simp_all)
  qed (use p(1) s in \<open>simp_all add: atomic_store_def registry_new_def\<close>)
qed

section \<open>Properties\<close>

text \<open>C8: The samples of a family are exactly the captured views that the family supports, in the
  derived order, one line each, and no two of them have the same name and labels.\<close>

theorem family_series:
  assumes "plans_built reg" and "f < length FAMILIES"
  shows "\<exists>vs values. family_lines env (sorted_sources tmem smem (captured reg)) f 0 =
      map2 (\<lambda>(out, kind) x. series_text (fst (FAMILIES ! f)) out kind @ x @ [newline]) vs values \<and>
    length values = length vs \<and> sorted vs \<and>
    set vs = {(so_output s, so_kind s) |s. s \<in> set (captured reg) \<and> supports (so_kind s) f} \<and>
    distinct (map (\<lambda>(out, kind). series_text (fst (FAMILIES ! f)) out kind) vs)"
proof -
  obtain name c seconds where F: "FAMILIES ! f = (name, c, seconds)" using FAMILIES_nth [OF assms(2)] by blast
  let ?S = "sorted_sources tmem smem (captured reg)"
  let ?vs = "sorted_list_of_set (exported_views (captured reg) f)"
  let ?val = "\<lambda>v. case view_total (env f) c ?S v of (n, gauge) \<Rightarrow> value_text f seconds n gauge"
  have fin: "finite (exported_views (captured reg) f)" by (simp add: exported_views_def)
  show ?thesis
  proof (intro exI [of _ ?vs] exI [of _ "map ?val ?vs"] conjI)
    show "family_lines env ?S f 0 =
        map2 (\<lambda>(out, kind) x. series_text (fst (FAMILIES ! f)) out kind @ x @ [newline]) ?vs (map ?val ?vs)"
      by (simp add: family_lines_views [OF F] F map2_map_map [where f = "\<lambda>v. v", simplified] split_beta)
    show "set ?vs = {(so_output s, so_kind s) |s. s \<in> set (captured reg) \<and> supports (so_kind s) f}"
      using fin by (auto simp: exported_views_def view_of_def)
    show "distinct (map (\<lambda>(out, kind). series_text (fst (FAMILIES ! f)) out kind) ?vs)"
      using series_text_inj_on [OF assms(1), of "fst (FAMILIES ! f)" f] fin by (simp add: distinct_map)
  qed simp_all
qed

theorem family_series_witness:
  "\<exists>m reg vs values. registry_do (RegName ''a'' Log) (registry_new (\<lambda>_. 0) (\<lambda>_. 1)) = Inr (m, reg) \<and>
     family_lines (\<lambda>_ _. reg) (sorted_sources (\<lambda>_. 0) (\<lambda>_. 1) (captured reg)) 0 0 =
       map2 (\<lambda>(out, kind) x. series_text ''brz_req_total'' out kind @ x @ [newline]) vs values \<and>
     set vs = {(\<lparr>po_type = ''LOG'', po_name = ''a'', po_resource = None\<rparr>, SkFull)}"
proof -
  obtain m reg where m: "registry_do (RegName ''a'' Log) (registry_new (\<lambda>_. 0) (\<lambda>_. 1)) = Inr (m, reg)"
    "plans_built reg" "set (captured reg) = {single_source ''a'' Log (m_item m)}"
    by (rule scrape_example)
  have "0 < length FAMILIES" "fst (FAMILIES ! 0) = ''brz_req_total''" by (simp_all add: FAMILIES_def)
  with family_series [OF m(2), of 0 "\<lambda>_ _. reg" "\<lambda>_. 0" "\<lambda>_. 1"] m(1,3) show ?thesis
    by (simp add: single_source_def single_view_def) blast
qed

text \<open>C19: Label values round-trip. Reading an exported label value by the rules of the exposition
  format, up to its closing quote, gives back the original bytes whatever they contain, and an
  escaped label never breaks the line.\<close>

theorem label_roundtrip:
  "read_label (label s @ [quote] @ rest) = Some (s, rest) \<and> newline \<notin> set (label s)"
  by (simp add: read_label_label newline_not_in_label)

end
