(* ===== verification/Prometheus_Lines.thy ===== *)
theory Prometheus_Lines
  imports Prometheus_Series
begin

text \<open>
  The shape of the exposition: every line ends with its only newline, so the text splits back into the
  lines it was made of; the TYPE headers; the lines of the RPC states; and the rendering of durations.
\<close>

section \<open>Splitting a text into lines\<close>

fun split_lines :: "str \<Rightarrow> str list" where
  "split_lines [] = []"
| "split_lines (c # s) =
     (if c = newline then [newline] # split_lines s
      else case split_lines s of [] \<Rightarrow> [[c]] | l # ls \<Rightarrow> (c # l) # ls)"

definition is_line :: "str \<Rightarrow> bool" where
  "is_line l \<longleftrightarrow> (\<exists>body. l = body @ [newline] \<and> newline \<notin> set body)"

lemma is_line_snoc [simp]: "is_line (body @ [newline]) \<longleftrightarrow> newline \<notin> set body"
  by (auto simp: is_line_def)

lemma split_line: "newline \<notin> set body \<Longrightarrow> split_lines (body @ newline # rest) = (body @ [newline]) # split_lines rest"
  by (induction body) auto

lemma split_concat: "\<forall>l \<in> set ls. is_line l \<Longrightarrow> split_lines (concat ls) = ls"
  by (induction ls) (auto simp: is_line_def split_line)

section \<open>The lines of a scrape\<close>

lemma newline_not_in_digits [simp]: "newline \<notin> set (show_nat n)"
  using show_nat_digits is_digit_not_special(1) by blast

lemma newline_not_in_value [simp]: "newline \<notin> set (value_text f seconds v gauge)"
  by (auto simp: value_text_def show_i64_def show_u64_def seconds_text_def show_pad2_def Let_def)

lemma newline_not_in_series:
  assumes "newline \<notin> set name"
  shows "newline \<notin> set (series_text name out kind)"
proof -
  have "newline \<notin> set (resource_text r)" for r
    using newline_not_in_label by (cases r) (auto split: option.splits)
  moreover have "newline \<notin> set (status_text kind)" by (cases kind) simp_all
  ultimately show ?thesis using assms newline_not_in_label by (auto simp: series_text_def)
qed

lemma FAMILIES_names: "f < length FAMILIES \<Longrightarrow> newline \<notin> set (fst (FAMILIES ! f))"
proof -
  have "\<forall>e \<in> set FAMILIES. newline \<notin> set (fst e)" by (simp add: FAMILIES_def)
  then show "f < length FAMILIES \<Longrightarrow> newline \<notin> set (fst (FAMILIES ! f))" using nth_mem by blast
qed

lemma is_line_type_line: "f < length FAMILIES \<Longrightarrow> is_line (type_line f)"
  using FAMILIES_names [of f] is_line_snoc [of "''# TYPE '' @ fst (FAMILIES ! f) @ '' '' @
    (if 8 \<le> f then ''gauge'' else ''counter'')"]
  by (simp add: type_line_def)

lemma is_line_sample: "f < length FAMILIES \<Longrightarrow> is_line (sample_line env f g)"
  using FAMILIES_names [of f] newline_not_in_series newline_not_in_value
  by (auto simp: sample_line_def is_line_def split: prod.split)

lemma newline_not_in_f64:
  assumes "exported val = Some v"
  shows "newline \<notin> set (show_f64 v)"
proof -
  have parsed: "parse_f64 val = Some v" "is_finite v"
    using assms by (auto simp: exported_def split: option.splits if_splits)
  then obtain neg m e where v: "v = F64Finite neg m e" by (cases v) auto
  have ok: "f64_ok (F64Finite neg m e)" using parse_f64_ok [OF parsed(1)] by (simp only: v)
  obtain c ds where ds: "show_f64 v = (if neg then ''-'' else '''') @ c # ds"
    "\<And>c'. c' \<in> set (c # ds) \<Longrightarrow> is_digit c' \<or> c' = CHR ''.''"
    unfolding v by (rule show_f64_digits [OF ok]) blast
  then show ?thesis using is_digit_not_special(1) by (cases neg) fastforce+
qed

lemma is_line_state:
  assumes "exported val = Some v"
  shows "is_line (state_line st field v)"
  using newline_not_in_f64 [OF assms] newline_not_in_label
    is_line_snoc [of "''brz_rpc_state{type='' @ [quote] @ label (state_metric_type (st_type st)) @
     [quote] @ '',name='' @ [quote] @ label (st_name st) @
     [quote] @ '',field='' @ [quote] @ label field @ [quote] @ ''} '' @ show_f64 v"]
  by (simp add: state_line_def)

lemma set_state_lines:
  "l \<in> set (state_lines sts) \<longleftrightarrow>
     (\<exists>st \<in> set sts. \<exists>field val v. (field, val) \<in> set (st_fields st) \<and> exported val = Some v \<and> l = state_line st field v)"
proof -
  have opt: "l \<in> set (case x of None \<Rightarrow> [] | Some v \<Rightarrow> [h v]) \<longleftrightarrow> (\<exists>v. x = Some v \<and> l = h v)"
    for x :: "f64 option" and h
    by (cases x) auto
  have "l \<in> set (field_lines st fs) \<longleftrightarrow>
      (\<exists>field val. (field, val) \<in> set fs \<and> (\<exists>v. exported val = Some v \<and> l = state_line st field v))" for st fs
    by (simp add: field_lines_def split_beta opt Bex_def) metis
  then show ?thesis by (simp add: state_lines_def)
qed

lemma scrape_lines_are_lines: "\<forall>l \<in> set (scrape_lines env sources sts). is_line l"
proof -
  have "is_line state_header" using is_line_snoc [of "''# TYPE brz_rpc_state gauge''"] by (simp add: state_header_def)
  then show ?thesis
    by (auto simp: scrape_lines_def family_lines_def is_line_type_line is_line_sample is_line_state set_state_lines)
qed

text \<open>A sample or state line never looks like a header.\<close>

lemma FAMILIES_start: "f < length FAMILIES \<Longrightarrow> \<exists>s. fst (FAMILIES ! f) = CHR ''b'' # s"
proof -
  have "\<forall>e \<in> set FAMILIES. \<exists>s. fst e = CHR ''b'' # s" by (simp add: FAMILIES_def)
  then show "f < length FAMILIES \<Longrightarrow> \<exists>s. fst (FAMILIES ! f) = CHR ''b'' # s" using nth_mem by blast
qed

lemma sample_no_header: "f < length FAMILIES \<Longrightarrow> \<not> prefix ''# TYPE '' (sample_line env f g)"
  using FAMILIES_start [of f] by (auto simp: sample_line_def series_text_def split: prod.split)

lemma state_no_header: "l \<in> set (state_lines sts) \<Longrightarrow> \<not> prefix ''# TYPE '' l"
  by (auto simp: set_state_lines state_line_def)

lemma filter_headers:
  "filter (prefix ''# TYPE '') (scrape_lines env sources sts) = map type_line [0..<length FAMILIES] @ [state_header]"
proof -
  have fam: "filter (prefix ''# TYPE '') (family_lines env sources f 0) = []" if "f < length FAMILIES" for f
    using sample_no_header [OF that] by (auto simp: filter_empty_conv family_lines_def)
  have header: "prefix ''# TYPE '' (type_line f)" for f by (simp add: type_line_def)
  have "filter (prefix ''# TYPE '') (state_lines sts) = []"
    using state_no_header by (auto simp: filter_empty_conv)
  moreover have "filter (prefix ''# TYPE '') (concat (map (\<lambda>f. type_line f # family_lines env sources f 0) xs)) =
      map type_line xs" if "set xs \<subseteq> {..<length FAMILIES}" for xs
    using that by (induction xs) (simp_all add: fam header)
  ultimately show ?thesis by (simp add: scrape_lines_def state_header_def atLeast0LessThan)
qed

section \<open>The rows behind the state lines\<close>

definition field_rows :: "state_snapshot \<Rightarrow> (str \<times> str) list \<Rightarrow> (state_type \<times> str \<times> str \<times> f64) list" where
  "field_rows st fs =
     concat (map (\<lambda>(field, val).
       case exported val of None \<Rightarrow> [] | Some v \<Rightarrow> [(st_type st, st_name st, field, v)]) fs)"

definition state_rows :: "state_snapshot list \<Rightarrow> (state_type \<times> str \<times> str \<times> f64) list" where
  "state_rows sts = concat (map (\<lambda>st. field_rows st (st_fields st)) sts)"

fun row_key :: "state_type \<times> str \<times> str \<times> f64 \<Rightarrow> str \<times> str \<times> str" where
  "row_key (ty, name, field, v) = (state_metric_type ty, name, field)"

lemma exported_iff: "exported val = Some v \<longleftrightarrow> parse_f64 val = Some v \<and> is_finite v"
  by (auto simp: exported_def split: option.splits)

definition row_line :: "state_type \<times> str \<times> str \<times> f64 \<Rightarrow> str" where
  "row_line = (\<lambda>(ty, name, field, v). state_line \<lparr>st_type = ty, st_name = name, st_fields = []\<rparr> field v)"

lemma state_lines_rows: "state_lines sts = map row_line (state_rows sts)"
proof -
  have "field_lines st fs = map row_line (field_rows st fs)" for st fs
    by (induction fs) (auto simp: row_line_def field_lines_def field_rows_def state_line_def split: option.splits)
  then show ?thesis by (simp add: state_lines_def state_rows_def map_concat comp_def)
qed

lemma set_field_rows:
  "(ty, name, field, v) \<in> set (field_rows st fs) \<longleftrightarrow>
     st_type st = ty \<and> st_name st = name \<and> (\<exists>val. (field, val) \<in> set fs \<and> exported val = Some v)"
  by (induction fs) (auto simp: field_rows_def split: option.splits)

lemma set_state_rows:
  "(ty, name, field, v) \<in> set (state_rows sts) \<longleftrightarrow>
     (\<exists>st \<in> set sts. st_type st = ty \<and> st_name st = name \<and>
        (\<exists>val. (field, val) \<in> set (st_fields st) \<and> exported val = Some v))"
  by (simp add: state_rows_def set_field_rows)

lemma field_rows_sorted:
  "sorted_wrt (<) (map fst fs) \<Longrightarrow> sorted_wrt (<) (map row_key (field_rows st fs))"
proof (induction fs)
  case Nil
  show ?case by (simp add: field_rows_def)
next
  case (Cons e fs)
  obtain field val where e: "e = (field, val)" by (cases e)
  have IH: "sorted_wrt (<) (map row_key (field_rows st fs))" using Cons by simp
  show ?case
  proof (cases "exported val")
    case None
    with IH e show ?thesis by (simp add: field_rows_def)
  next
    case (Some v)
    have "row_key (st_type st, st_name st, field, v) < row_key r" if "r \<in> set (field_rows st fs)" for r
      using that Cons.prems e by (cases r rule: row_key.cases) (auto simp: set_field_rows)
    with IH e Some show ?thesis by (simp add: field_rows_def)
  qed
qed

lemma state_rows_sorted:
  "sorted_wrt (<) (map snapshot_key sts) \<Longrightarrow> (\<And>st. st \<in> set sts \<Longrightarrow> sorted_wrt (<) (map fst (st_fields st))) \<Longrightarrow>
     sorted_wrt (<) (map row_key (state_rows sts))"
proof (induction sts)
  case Nil
  show ?case by (simp add: state_rows_def)
next
  case (Cons st sts)
  have "row_key r < row_key r'" if "r \<in> set (field_rows st (st_fields st))" "r' \<in> set (state_rows sts)" for r r'
    using that Cons.prems(1)
    by (cases r rule: row_key.cases; cases r' rule: row_key.cases)
      (auto simp: set_field_rows set_state_rows snapshot_key_def)
  moreover have "sorted_wrt (<) (map row_key (state_rows sts))" using Cons by simp
  moreover have "sorted_wrt (<) (map row_key (field_rows st (st_fields st)))"
    using Cons.prems(2) by (intro field_rows_sorted) simp
  moreover have "state_rows (st # sts) = field_rows st (st_fields st) @ state_rows sts" by (simp add: state_rows_def)
  ultimately show ?case unfolding map_append sorted_wrt_append by (simp only: map_append sorted_wrt_append set_map) blast
qed

lemma state_rows_exact:
  assumes "registry_inv reg"
  shows "\<exists>rows. state_lines (registry_state_snapshot reg) = map row_line rows \<and>
    sorted (map row_key rows) \<and> distinct (map row_key rows) \<and>
    (\<forall>ty name field v. (ty, name, field, v) \<in> set rows \<longleftrightarrow>
      (\<exists>val. state_get (rg_states reg) \<lparr>si_type = ty, si_name = name\<rparr> field = Some val \<and>
         parse_f64 val = Some v \<and> is_finite v))"
proof (intro exI conjI allI)
  let ?sts = "state_snapshots (rg_states reg)"
  have inv: "states_inv (rg_states reg)" using assms by (simp add: registry_inv_def)
  note fields = state_snapshot_fields [OF inv]
  show "state_lines (registry_state_snapshot reg) =
      map row_line (state_rows ?sts)"
    by (simp add: registry_state_snapshot_def state_lines_rows)
  have "sorted_wrt (<) (map row_key (state_rows ?sts))"
    by (rule state_rows_sorted) (simp_all only: strict_sorted_iff state_snapshots_sorted [OF inv] fields(1,2))
  then show "sorted (map row_key (state_rows ?sts))" "distinct (map row_key (state_rows ?sts))"
    by (simp_all only: strict_sorted_iff)
  show "(ty, name, field, v) \<in> set (state_rows ?sts) \<longleftrightarrow>
      (\<exists>val. state_get (rg_states reg) \<lparr>si_type = ty, si_name = name\<rparr> field = Some val \<and>
         parse_f64 val = Some v \<and> is_finite v)" for ty name field v
  proof
    assume "(ty, name, field, v) \<in> set (state_rows ?sts)"
    then obtain st val where "st \<in> set ?sts" "st_type st = ty" "st_name st = name"
      "(field, val) \<in> set (st_fields st)" "exported val = Some v"
      unfolding set_state_rows by (elim bexE conjE exE)
    with fields(3) [of st field val]
    show "\<exists>val. state_get (rg_states reg) \<lparr>si_type = ty, si_name = name\<rparr> field = Some val \<and>
         parse_f64 val = Some v \<and> is_finite v" by (auto simp: exported_iff)
  next
    assume "\<exists>val. state_get (rg_states reg) \<lparr>si_type = ty, si_name = name\<rparr> field = Some val \<and>
         parse_f64 val = Some v \<and> is_finite v"
    then obtain val where val: "state_get (rg_states reg) \<lparr>si_type = ty, si_name = name\<rparr> field = Some val"
      "exported val = Some v" by (auto simp: exported_iff)
    obtain st where st: "st \<in> set ?sts" "st_type st = ty" "st_name st = name" by (rule state_get_snapshot [OF val(1)])
    with fields(3) [OF st(1), of field val] val show "(ty, name, field, v) \<in> set (state_rows ?sts)"
      unfolding set_state_rows by auto
  qed
qed

text \<open>What a call of the state loop emits.\<close>

lemma next_state_emitted:
  "next_state r = Inr (True, r') \<Longrightarrow>
     \<exists>st \<in> set (pr_states r). \<exists>field val v. (field, val) \<in> set (st_fields st) \<and> exported val = Some v \<and>
       pr_buffer r' = pr_buffer r @ state_line st field v"
proof (induction r rule: next_state_induct)
  case (finished r)
  then show ?case by (simp add: next_state_done)
next
  case (wrap r)
  then show ?case by (simp add: next_state_wrap)
next
  case (field r)
  obtain fld val where fv: "st_fields (pr_states r ! pr_state r) ! pr_state_field r = (fld, val)" by fastforce
  have st: "pr_states r ! pr_state r \<in> set (pr_states r)"
    and fld: "(fld, val) \<in> set (st_fields (pr_states r ! pr_state r))"
    using field(1,2) fv by (metis nth_mem)+
  show ?case
  proof (cases "exported val")
    case None
    with field.IH field.prems show ?thesis by (simp add: next_state_field [OF field(1,2) fv])
  next
    case (Some v)
    then have "pr_buffer r' = pr_buffer r @ state_line (pr_states r ! pr_state r) fld v"
      using field.prems by (auto simp: next_state_field [OF field(1,2) fv])
    with st fld Some show ?thesis by blast
  qed
next
  case (beyond r)
  then show ?case by (simp add: next_state_beyond)
qed

lemma parse_four: "parse_f64 ''4'' = Some (F64Finite False 4503599627370496 (- 50))"
  by (simp add: parse_f64_def parse_number_def parse_fraction_def parse_tail_def f64_of_decimal_def
      f64_of_ratio_def round_ratio_def Let_def div_half_even_def is_digit_def read_nat_def
      digit_value_def bit_len.simps)

section \<open>Properties\<close>

text \<open>C20: The text splits back into its lines, each ended by its only newline, and the TYPE headers are
  exactly those of the ten families in order and of the RPC states last, each once.\<close>

theorem exposition_lines:
  "split_lines (concat (scrape_lines env sources sts)) = scrape_lines env sources sts \<and>
   filter (prefix ''# TYPE '') (scrape_lines env sources sts) = map type_line [0..<10] @ [state_header] \<and>
   distinct (map type_line [0..<10] @ [state_header])"
proof -
  have ten: "length FAMILIES = 10" by (simp add: FAMILIES_def)
  have "distinct (map type_line [0..<10] @ [state_header])"
    by (simp add: type_line_def state_header_def FAMILIES_def upt_rec)
  then show ?thesis
    using split_concat [OF scrape_lines_are_lines] filter_headers [of env sources sts] unfolding ten by blast
qed

text \<open>C22: Durations. A cumulative count of microseconds, up to the largest \<open>u64\<close>, is rounded to the
  nearest hundredth of a second (halves up) without overflow, and printed as the seconds, a point and
  exactly two digits.\<close>

theorem duration_rounding:
  "10000 * unat (hundredths v) \<le> unat v + 5000 \<and> unat v < 10000 * unat (hundredths v) + 5000 \<and>
   (\<exists>whole frac. seconds_text v = whole @ ''.'' @ frac \<and> length frac = 2 \<and>
      list_all is_digit (whole @ frac) \<and> 100 * read_nat whole + read_nat frac = unat (hundredths v))"
proof -
  have d: "unat (v div 10000) = unat v div 10000" "unat (v mod 10000) = unat v mod 10000"
    by (simp_all add: unat_div unat_mod)
  have small: "unat v div 10000 + 1 < 2 ^ 64"
  proof -
    have "unat v div 10000 \<le> 18446744073709551616 div 10000"
      using unat_u64_less [of v] by (intro div_le_mono) (simp del: unat_u64_less)
    then show ?thesis by simp
  qed
  have h: "unat (hundredths v) = unat v div 10000 + (if 5000 \<le> unat v mod 10000 then 1 else 0)"
    using small by (auto simp: hundredths_def word_le_nat_alt d unat_word_ariths)
  let ?h = "hundredths v"
  have "seconds_text v = show_nat (unat ?h div 100) @ ''.'' @ show_pad2 (unat ?h mod 100)"
    by (simp add: seconds_text_def Let_def show_u64_def unat_div unat_mod)
  moreover have "list_all is_digit (show_nat (unat ?h div 100) @ show_pad2 (unat ?h mod 100))"
    using show_nat_digits by (auto simp: list_all_iff show_pad2_def is_digit_def [of "CHR ''0''"])
  ultimately have "\<exists>whole frac. seconds_text v = whole @ ''.'' @ frac \<and> length frac = 2 \<and>
      list_all is_digit (whole @ frac) \<and> 100 * read_nat whole + read_nat frac = unat ?h"
    by (intro exI [of _ "show_nat (unat ?h div 100)"] exI [of _ "show_pad2 (unat ?h mod 100)"])
      (simp add: length_show_pad2)
  moreover have e: "10000 * (unat v div 10000) + unat v mod 10000 = unat v" "unat v mod 10000 < 10000" by simp_all
  have "10000 * unat ?h \<le> unat v + 5000 \<and> unat v < 10000 * unat ?h + 5000"
  proof (cases "5000 \<le> unat v mod 10000")
    case True
    then have "unat ?h = unat v div 10000 + 1" using h by simp
    with e True show ?thesis by - (intro conjI, linarith+)
  next
    case False
    then have "unat ?h = unat v div 10000" using h by simp
    with e False show ?thesis by - (intro conjI, linarith+)
  qed
  ultimately show ?thesis by blast
qed

text \<open>C14: The RPC state samples. When a reader has done with the families, its next calls of
  \<open>next_sample\<close> give the TYPE line and then one line per recorded field whose latest value parses as a
  finite number, with that number, in the order of type, name and field; other fields are left out, no
  series occurs twice, and the next call reports the end.\<close>

theorem state_samples:
  assumes "registry_inv reg" and "later reg env" and "from_registry tmem smem reg = Inr r"
  shows "\<exists>rows r' r''. samples env (Suc (length rows)) (r\<lparr>pr_family := length FAMILIES\<rparr>) =
      Inr (state_header # map (\<lambda>(ty, name, field, v).
        state_line \<lparr>st_type = ty, st_name = name, st_fields = []\<rparr> field v) rows, r') \<and>
    next_sample env r' = Inr (False, r'') \<and>
    sorted (map row_key rows) \<and> distinct (map row_key rows) \<and>
    (\<forall>ty name field v. (ty, name, field, v) \<in> set rows \<longleftrightarrow>
      (\<exists>val. state_get (rg_states reg) \<lparr>si_type = ty, si_name = name\<rparr> field = Some val \<and>
         parse_f64 val = Some v \<and> is_finite v))"
proof -
  from state_rows_exact [OF assms(1)] obtain rows where
    lines: "state_lines (registry_state_snapshot reg) = map row_line rows" and
    rows: "sorted (map row_key rows)" "distinct (map row_key rows)"
      "\<forall>ty name field v. (ty, name, field, v) \<in> set rows \<longleftrightarrow>
        (\<exists>val. state_get (rg_states reg) \<lparr>si_type = ty, si_name = name\<rparr> field = Some val \<and>
           parse_f64 val = Some v \<and> is_finite v)" by (elim exE conjE)
  from state_phase_samples [OF assms, unfolded lines length_map row_line_def] show ?thesis
    by (elim exE conjE) (intro exI conjI, assumption, assumption, (rule rows)+)
qed

theorem state_samples_witness:
  "let reg = registry_record_state RpcState ''s'' ''n'' ''4'' (registry_new (\<lambda>_. 0) (\<lambda>_. 1))
   in \<exists>r n l ls r' r''. from_registry (\<lambda>_. 0) (\<lambda>_. 1) reg = Inr r \<and>
     samples (\<lambda>_ _. reg) n (r\<lparr>pr_family := length FAMILIES\<rparr>) = Inr (state_header # l # ls, r') \<and>
     next_sample (\<lambda>_ _. reg) r' = Inr (False, r'')"
proof -
  let ?reg = "registry_record_state RpcState ''s'' ''n'' ''4'' (registry_new (\<lambda>_. 0) (\<lambda>_. 1))"
  have run: "registry_run (registry_new (\<lambda>_. 0) (\<lambda>_. 1)) ?reg"
    by (rule registry_run.step [OF registry_run.here registry_step.states])
  have inv: "registry_inv ?reg" using registry_run_keeps [OF run registry_inv_new] by simp
  obtain r where r: "from_registry (\<lambda>_. 0) (\<lambda>_. 1) ?reg = Inr r" using from_registry_ok [OF inv] by blast
  have late: "later ?reg (\<lambda>_ _. ?reg)" by (simp add: later_def registry_run.here)
  from state_samples [OF inv late r] obtain rows r' r'' where
    lines: "samples (\<lambda>_ _. ?reg) (Suc (length rows)) (r\<lparr>pr_family := length FAMILIES\<rparr>) =
      Inr (state_header # map (\<lambda>(ty, name, field, v).
        state_line \<lparr>st_type = ty, st_name = name, st_fields = []\<rparr> field v) rows, r')"
      "next_sample (\<lambda>_ _. ?reg) r' = Inr (False, r'')" and
    iff: "\<forall>ty name field v. (ty, name, field, v) \<in> set rows \<longleftrightarrow>
      (\<exists>val. state_get (rg_states ?reg) \<lparr>si_type = ty, si_name = name\<rparr> field = Some val \<and>
         parse_f64 val = Some v \<and> is_finite v)" by (elim exE conjE)
  have "state_get (rg_states ?reg) \<lparr>si_type = RpcState, si_name = ''s''\<rparr> ''n'' = Some ''4''"
    by (simp add: registry_record_state_def registry_new_def state_registry_new_def state_record_def state_get_def)
  then have "(RpcState, ''s'', ''n'', F64Finite False 4503599627370496 (- 50)) \<in> set rows"
    by (subst iff [rule_format]) (auto simp: parse_four)
  then obtain x xs where "rows = x # xs" by (cases rows) auto
  with r lines show ?thesis
    unfolding Let_def by - (intro exI conjI, assumption, simp del: samples.simps, assumption)
qed

text \<open>C21: A state value survives export. Whenever the state loop of \<open>next_sample\<close> emits a line, it is the
  line of a field of a captured state whose recorded text parses as a finite \<open>f64\<close>; the number in the line
  is written with an optional minus sign, digits and a decimal point at most (never with an exponent), and
  parses back to the very same \<open>f64\<close> as the recorded text.\<close>

theorem state_value_roundtrip:
  assumes "next_state r = Inr (True, r')"
  shows "\<exists>st \<in> set (pr_states r). \<exists>field val v neg digits. (field, val) \<in> set (st_fields st) \<and>
    parse_f64 val = Some v \<and> is_finite v \<and>
    pr_buffer r' = pr_buffer r @ ''brz_rpc_state{type='' @ [quote] @ label (state_metric_type (st_type st)) @
      [quote] @ '',name='' @ [quote] @ label (st_name st) @
      [quote] @ '',field='' @ [quote] @ label field @ [quote] @ ''} '' @
      (if neg then ''-'' else []) @ digits @ [newline] \<and>
    parse_f64 ((if neg then ''-'' else []) @ digits) = Some v \<and>
    digits \<noteq> [] \<and> (\<forall>c \<in> set digits. is_digit c \<or> c = CHR ''.'')"
proof -
  from next_state_emitted [OF assms] obtain st field val v where
    st: "st \<in> set (pr_states r)" "(field, val) \<in> set (st_fields st)" "exported val = Some v"
      "pr_buffer r' = pr_buffer r @ state_line st field v" by (elim bexE exE conjE)
  have v: "parse_f64 val = Some v" "is_finite v" using st(3) by (simp_all add: exported_iff)
  from f64_roundtrip [OF v] obtain neg digits where "show_f64 v = (if neg then ''-'' else []) @ digits"
    "parse_f64 ((if neg then ''-'' else []) @ digits) = Some v" "digits \<noteq> []"
    "\<forall>c \<in> set digits. is_digit c \<or> c = CHR ''.''" by metis
  with st v show ?thesis
    by (intro bexI [of _ st] exI [of _ field] exI [of _ val] exI [of _ v] exI [of _ neg] exI [of _ digits] conjI)
      (simp_all add: state_line_def)
qed

theorem state_value_roundtrip_witness:
  "\<exists>r' pre num. next_state \<lparr>pr_sources = [],
      pr_states = [\<lparr>st_type = RpcState, st_name = ''s'', st_fields = [(''k'', ''x''), (''n'', ''4'')]\<rparr>],
      pr_family = 10, pr_source = 0, pr_header = True, pr_state = 0, pr_state_field = 0, pr_buffer = [],
      pr_offset = 0\<rparr> = Inr (True, r') \<and>
    pr_buffer r' = pre @ num @ [newline] \<and> parse_f64 num = parse_f64 ''4''"
proof -
  let ?st = "\<lparr>st_type = RpcState, st_name = ''s'', st_fields = [(''k'', ''x''), (''n'', ''4'')]\<rparr>"
  let ?r = "\<lparr>pr_sources = [], pr_states = [?st], pr_family = 10, pr_source = 0, pr_header = True, pr_state = 0,
    pr_state_field = 0, pr_buffer = [], pr_offset = 0\<rparr>"
  have x: "parse_f64 ''x'' = None"
    by (simp add: parse_f64_def parse_number_def parse_fraction_def parse_tail_def Let_def is_digit_def)
  have "\<exists>r'. next_state ?r = Inr (True, r')"
    by (subst next_state_field [of _ "''k''" "''x''"]) (simp_all add: exported_def x,
      subst next_state_field [of _ "''n''" "''4''"], simp_all add: exported_def parse_four)
  then obtain r' where r': "next_state ?r = Inr (True, r')" by blast
  from state_value_roundtrip [OF r'] obtain field val v neg digits where
    f: "(field, val) \<in> set (st_fields ?st)" "parse_f64 val = Some v" and
    b: "pr_buffer r' = pr_buffer ?r @ ''brz_rpc_state{type='' @ [quote] @ label (state_metric_type (st_type ?st)) @
      [quote] @ '',name='' @ [quote] @ label (st_name ?st) @
      [quote] @ '',field='' @ [quote] @ label field @ [quote] @ ''} '' @
      (if neg then ''-'' else []) @ digits @ [newline]" and
    p: "parse_f64 ((if neg then ''-'' else []) @ digits) = Some v" by (elim bexE exE conjE) simp
  from f x have "parse_f64 ''4'' = Some v" by auto
  with p have "parse_f64 ((if neg then ''-'' else []) @ digits) = parse_f64 ''4''" by simp
  moreover have "\<exists>pre. pr_buffer r' = pre @ ((if neg then ''-'' else []) @ digits) @ [newline]"
    unfolding b by (metis append_assoc)
  ultimately show ?thesis using r' by blast
qed

end
