(* ===== verification/Prometheus_Values.thy ===== *)
theory Prometheus_Values
  imports Prometheus_Series
begin

text \<open>
  What the samples of a scrape say: every captured slot is loaded exactly once per family, distinct
  slots of one series are added up without wrapping, durations are rounded to hundredths of a second,
  and every line is well-formed.
\<close>

section \<open>Sources without repetition\<close>

lemma distinct_remdups_adj_sorted:
  fixes key :: "'a \<Rightarrow> 'k :: linorder"
  assumes "sorted (map key xs)" and "inj_on key (set xs)"
  shows "distinct (remdups_adj xs)"
  using assms
proof (induction xs rule: remdups_adj.induct)
  case (3 x y xs)
  show ?case
  proof (cases "x = y")
    case True
    with 3 show ?thesis by simp
  next
    case False
    have "x \<notin> set (y # xs)"
    proof
      assume "x \<in> set (y # xs)"
      then have "key x = key y" using 3(3) by (auto intro: order_antisym)
      with 3(4) False show False by (auto dest: inj_onD)
    qed
    with 3 False show ?thesis by simp
  qed
qed simp_all

text \<open>Different slots have different addresses.\<close>

definition addresses_ok :: "(item_ptr \<Rightarrow> nat) \<Rightarrow> (scalar_ptr \<Rightarrow> nat) \<Rightarrow> source list \<Rightarrow> bool" where
  "addresses_ok tmem smem sources \<longleftrightarrow>
     inj_on tmem {p. TimingItem p \<in> so_item ` set sources} \<and>
     inj_on smem {p. CounterItem p \<in> so_item ` set sources \<or> GaugeItem p \<in> so_item ` set sources}"

lemma distinct_sorted_sources:
  assumes "addresses_ok tmem smem sources"
  shows "distinct (sorted_sources tmem smem sources)"
proof -
  let ?I = "so_item ` set sources"
  have t: "p = q" if "TimingItem p \<in> ?I" "TimingItem q \<in> ?I" "tmem p = tmem q" for p q
    using assms that by (auto simp: addresses_ok_def dest!: inj_onD)
  have c: "p = q" if "CounterItem p \<in> ?I \<or> GaugeItem p \<in> ?I" "CounterItem q \<in> ?I \<or> GaugeItem q \<in> ?I"
    "smem p = smem q" for p q
    using assms that unfolding addresses_ok_def by (auto dest!: inj_onD)
  have "inj_on (source_key tmem smem) (set sources)"
  proof (rule inj_onI)
    fix s s' assume s: "s \<in> set sources" "s' \<in> set sources" "source_key tmem smem s = source_key tmem smem s'"
    have "so_item s \<in> ?I" "so_item s' \<in> ?I" using s(1,2) by simp_all
    with s(3) have "so_item s = so_item s'"
      by (cases "so_item s"; cases "so_item s'") (simp_all add: source_key_def t c)
    with s(3) show "s = s'" by (cases s; cases s') (simp add: source_key_def)
  qed
  then show ?thesis unfolding sorted_sources_def by (intro distinct_remdups_adj_sorted) simp_all
qed

section \<open>Totals\<close>

lemma group_total_counters:
  assumes "\<And>i s. (i, s) \<in> set g \<Longrightarrow> \<forall>p. so_item s \<noteq> GaugeItem p"
  shows "unat (fst (group_total env c g (v, gauge))) =
    min (unat v + (\<Sum>(i, s)\<leftarrow>g. unat (loaded c (env i) (so_item s)))) (2 ^ 64 - 1)"
  using assms
proof (induction g arbitrary: v gauge)
  case Nil
  show ?case using unat_u64_less [of v] by (simp add: group_total_def del: unat_u64_less)
next
  case (Cons e g)
  obtain i s where e: "e = (i, s)" by (cases e)
  let ?v = "saturating_add v (loaded c (env i) (so_item s))"
  have "add_item (so_item s) w (v, gauge) = (saturating_add v w, gauge)" for w
    using Cons.prems [of i s] e by (cases "so_item s") auto
  then have "group_total env c (e # g) (v, gauge) = group_total env c g (?v, gauge)"
    by (simp add: e group_total_def)
  moreover have "unat (fst (group_total env c g (?v, gauge))) =
      min (unat ?v + (\<Sum>(i, s)\<leftarrow>g. unat (loaded c (env i) (so_item s)))) (2 ^ 64 - 1)"
    by (rule Cons.IH) (use Cons.prems in auto)
  ultimately show ?case by (simp add: e unat_saturating_add)
qed

lemma clamp_i64_id: "\<bar>s\<bar> < 2 ^ 63 \<Longrightarrow> clamp_i64 s = s"
  by (simp add: clamp_i64_def)

lemma group_total_gauges:
  assumes "\<And>i s. (i, s) \<in> set g \<Longrightarrow> \<exists>p. so_item s = GaugeItem p"
    and "\<bar>sint gauge\<bar> + (\<Sum>(i, s)\<leftarrow>g. \<bar>sint (loaded c (env i) (so_item s))\<bar>) < 2 ^ 63"
  shows "sint (snd (group_total env c g (v, gauge))) =
    sint gauge + (\<Sum>(i, s)\<leftarrow>g. sint (loaded c (env i) (so_item s)))"
  using assms
proof (induction g arbitrary: v gauge)
  case Nil
  show ?case by (simp add: group_total_def)
next
  case (Cons e g)
  obtain i s where e: "e = (i, s)" by (cases e)
  let ?w = "loaded c (env i) (so_item s)"
  have add: "add_item (so_item s) w (v, gauge) = (v, saturating_add_i64 gauge w)" for w
    using Cons.prems(1) [of i s] e by auto
  have nonneg: "0 \<le> (\<Sum>(i, s)\<leftarrow>g. \<bar>sint (loaded c (env i) (so_item s))\<bar>)"
    by (rule sum_list_nonneg) auto
  have "\<bar>sint gauge + sint ?w\<bar> < 2 ^ 63" using Cons.prems(2) nonneg by (simp add: e)
  then have "sint (saturating_add_i64 gauge ?w) = sint gauge + sint ?w"
    by (simp only: sint_saturating_add_i64 clamp_i64_id)
  note sum = this
  have "group_total env c (e # g) (v, gauge) = group_total env c g (v, saturating_add_i64 gauge ?w)"
    using add by (simp add: e group_total_def)
  moreover have "sint (snd (group_total env c g (v, saturating_add_i64 gauge ?w))) =
      sint (saturating_add_i64 gauge ?w) + (\<Sum>(i, s)\<leftarrow>g. sint (loaded c (env i) (so_item s)))"
  proof (rule Cons.IH)
    show "\<exists>p. so_item s = GaugeItem p" if "(i, s) \<in> set g" for i s using Cons.prems(1) that by auto
    show "\<bar>sint (saturating_add_i64 gauge ?w)\<bar> + (\<Sum>(i, s)\<leftarrow>g. \<bar>sint (loaded c (env i) (so_item s))\<bar>) < 2 ^ 63"
      using Cons.prems(2) unfolding sum by (simp add: e)
  qed
  ultimately show ?case by (simp add: e sum)
qed

text \<open>The sum over a group is the sum over the set of sources with that view.\<close>

lemma sum_view:
  assumes "distinct xs"
    and "\<And>i s. (i, s) \<in> set (enumerate 0 xs) \<Longrightarrow> f i s = h s"
  shows "(\<Sum>(i, s)\<leftarrow>filter (\<lambda>e. group_key e = v) (enumerate 0 xs). f i s) =
    (\<Sum>s | s \<in> set xs \<and> view_of s = v. h s)"
proof -
  have "map (\<lambda>(i, s). f i s) (filter (\<lambda>e. group_key e = v) (enumerate 0 xs)) =
      map h (map snd (filter (\<lambda>e. view_of (snd e) = v) (enumerate 0 xs)))"
    using assms(2) by (auto simp: group_key_view)
  also have "map snd (filter (\<lambda>e. view_of (snd e) = v) (enumerate 0 xs)) = filter (\<lambda>s. view_of s = v) xs"
    by (metis (no_types, lifting) filter_map map_snd_enumerate comp_def filter_cong)
  finally show ?thesis
    using assms(1) by (simp add: sum_list_distinct_conv_sum_set Int_def conj_commute cong: conj_cong)
qed

text \<open>Every source is loaded once.\<close>

lemma one_load:
  assumes "distinct xs"
  obtains load where "\<And>i s. (i, s) \<in> set (enumerate 0 xs) \<Longrightarrow> loaded c (env i) (so_item s) = load s"
proof -
  let ?index = "\<lambda>s. the (map_of (map prod.swap (enumerate 0 xs)) s)"
  have "?index s = i" if "(i, s) \<in> set (enumerate 0 xs)" for i s
  proof -
    have "distinct (map fst (map prod.swap (enumerate 0 xs)))" using assms by (simp add: comp_def)
    from map_of_is_SomeI [OF this, of s i] that show ?thesis by force
  qed
  then show thesis by (intro that [of "\<lambda>s. loaded c (env (?index s)) (so_item s)"]) simp
qed

lemma supports_gauge_iff: "supports k f \<Longrightarrow> k \<in> {SkConnGauge, SkGauge} \<longleftrightarrow> 8 \<le> f"
  by (cases k) auto

text \<open>The groups of a family hold sources of the right sort.\<close>

lemma exported_item:
  assumes "plans_built reg" and "v \<in> exported_views (captured reg) f" and "s \<in> set (captured reg)" and "view_of s = v"
  shows "(\<exists>p. so_item s = GaugeItem p) \<longleftrightarrow> 8 \<le> f"
  using captured_view_ok [OF assms(1,3)] supports_gauge_iff [of "so_kind s" f] assms(2,4)
  by (auto simp: view_ok_def exported_views_def view_of_def)

lemma in_group:
  assumes "(i, s) \<in> set (filter (\<lambda>e. group_key e = v) (enumerate 0 (sorted_sources tmem smem xs)))"
  shows "s \<in> set xs \<and> view_of s = v"
proof -
  have "(i, s) \<in> set (enumerate 0 (sorted_sources tmem smem xs))" using assms by simp
  then have "s \<in> set (sorted_sources tmem smem xs)"
    by (auto simp: in_set_enumerate_eq simp del: set_sorted_sources)
  then show ?thesis using assms by (simp add: group_key_view)
qed

text \<open>One pass over a family: every captured source is loaded once, at a moment of the pass.\<close>

lemma family_pass:
  assumes "registry_inv reg" and "later reg env" and "addresses_ok tmem smem (captured reg)"
    and "f < length FAMILIES" and "FAMILIES ! f = (name, c, seconds)"
  defines "S \<equiv> sorted_sources tmem smem (captured reg)"
  obtains load where "\<And>i s. (i, s) \<in> set (enumerate 0 S) \<Longrightarrow> loaded c (env f i) (so_item s) = load s"
    and "\<And>s. s \<in> set (captured reg) \<Longrightarrow> \<exists>i. load_item c (env f i) (so_item s) = Inr (load s)"
proof -
  have dist: "distinct S" unfolding S_def by (rule distinct_sorted_sources [OF assms(3)])
  obtain load where load: "\<And>i s. (i, s) \<in> set (enumerate 0 S) \<Longrightarrow> loaded c (env f i) (so_item s) = load s"
    by (rule one_load [OF dist, of c "env f"]) blast
  show thesis
  proof (rule that [OF load])
    fix s assume "s \<in> set (captured reg)"
    then have "s \<in> set S" by (simp add: S_def)
    then obtain i where i: "i < length S" "s = S ! i" by (auto simp: in_set_conv_nth)
    then have "(i, s) \<in> set (enumerate 0 S)" by (simp add: in_set_enumerate_eq)
    moreover obtain w where "load_item c (env f i) (so_item s) = Inr w"
      using loads_ok_captured [OF assms(1,2), of tmem smem] assms(4,5) i
      by (fastforce simp: loads_ok_def S_def)
    ultimately show "\<exists>i. load_item c (env f i) (so_item s) = Inr (load s)"
      using load [of i s] by (auto simp: loaded_def)
  qed
qed

text \<open>The lines of a counter family.\<close>

lemma counter_lines:
  assumes "registry_inv reg" and "later reg env" and "plans_built reg"
    and "addresses_ok tmem smem (captured reg)" and "f < 8" and "FAMILIES ! f = (name, c, seconds)"
  shows "\<exists>load. (\<forall>s \<in> set (captured reg). \<exists>i. load_item c (env f i) (so_item s) = Inr (load s)) \<and>
    family_lines env (sorted_sources tmem smem (captured reg)) f 0 =
      map (\<lambda>v. let n = min (\<Sum>s | s \<in> set (captured reg) \<and> view_of s = v. unat (load s)) (2 ^ 64 - 1)
               in series_text name (fst v) (snd v) @
                  (if seconds then seconds_text (word_of_nat n) else show_nat n) @ [newline])
        (sorted_list_of_set (exported_views (captured reg) f))"
proof -
  let ?S = "sorted_sources tmem smem (captured reg)"
  have f: "f < length FAMILIES" using assms(5) by (simp add: FAMILIES_def)
  obtain load where load: "\<And>i s. (i, s) \<in> set (enumerate 0 ?S) \<Longrightarrow> loaded c (env f i) (so_item s) = load s"
    "\<And>s. s \<in> set (captured reg) \<Longrightarrow> \<exists>i. load_item c (env f i) (so_item s) = Inr (load s)"
    by (rule family_pass [OF assms(1,2,4) f assms(6)]) blast
  let ?n = "\<lambda>v. min (\<Sum>s | s \<in> set (captured reg) \<and> view_of s = v. unat (load s)) (2 ^ 64 - 1)"
  have total: "unat (fst (view_total (env f) c ?S v)) = ?n v" if v: "v \<in> exported_views (captured reg) f" for v
  proof -
    let ?g = "filter (\<lambda>e. group_key e = v) (enumerate 0 ?S)"
    have no: "\<forall>p. so_item s \<noteq> GaugeItem p" if "(i, s) \<in> set ?g" for i s
      using exported_item [OF assms(3) v, of s] in_group [OF that] assms(5) by auto
    have "unat (fst (group_total (env f) c ?g (0, 0))) =
        min (unat (0 :: u64) + (\<Sum>(i, s)\<leftarrow>?g. unat (loaded c (env f i) (so_item s)))) (2 ^ 64 - 1)"
      by (rule group_total_counters [OF no])
    then show ?thesis
      using sum_view [OF distinct_sorted_sources [OF assms(4)], of "\<lambda>i s. unat (loaded c (env f i) (so_item s))"
          "\<lambda>s. unat (load s)" v] load(1)
      by (simp add: view_total_def)
  qed
  have shown: "(case view_total (env f) c ?S v of (n, gauge) \<Rightarrow> value_text f seconds n gauge) =
      (if seconds then seconds_text (word_of_nat (?n v)) else show_nat (?n v))"
    if "v \<in> exported_views (captured reg) f" for v
    unfolding total [OF that, symmetric] using assms(5)
    by (cases "view_total (env f) c ?S v") (simp add: value_text_def show_u64_def)
  show ?thesis
    by (rule exI [of _ load]) (simp add: load(2) family_lines_views [OF assms(6)] shown Let_def exported_views_def)
qed

text \<open>The lines of a gauge family.\<close>

lemma gauge_lines:
  assumes "registry_inv reg" and "later reg env" and "plans_built reg"
    and "addresses_ok tmem smem (captured reg)" and "8 \<le> f" and "f < length FAMILIES"
    and "FAMILIES ! f = (name, c, seconds)"
  shows "\<exists>load gauge. (\<forall>s \<in> set (captured reg). \<exists>i. load_item c (env f i) (so_item s) = Inr (load s)) \<and>
    family_lines env (sorted_sources tmem smem (captured reg)) f 0 =
      map (\<lambda>v. series_text name (fst v) (snd v) @ show_i64 (gauge v) @ [newline])
        (sorted_list_of_set (exported_views (captured reg) f)) \<and>
    (\<forall>v \<in> exported_views (captured reg) f.
       (\<Sum>s | s \<in> set (captured reg) \<and> view_of s = v. \<bar>sint (load s)\<bar>) < 2 ^ 63 \<longrightarrow>
       sint (gauge v) = (\<Sum>s | s \<in> set (captured reg) \<and> view_of s = v. sint (load s)))"
proof -
  let ?S = "sorted_sources tmem smem (captured reg)"
  obtain load where load: "\<And>i s. (i, s) \<in> set (enumerate 0 ?S) \<Longrightarrow> loaded c (env f i) (so_item s) = load s"
    "\<And>s. s \<in> set (captured reg) \<Longrightarrow> \<exists>i. load_item c (env f i) (so_item s) = Inr (load s)"
    by (rule family_pass [OF assms(1,2,4,6,7)]) blast
  note sums = sum_view [OF distinct_sorted_sources [OF assms(4)], of "\<lambda>i s. h (loaded c (env f i) (so_item s))"
      "\<lambda>s. h (load s)" for h :: "u64 \<Rightarrow> int"]
  have "sint (snd (view_total (env f) c ?S v)) = (\<Sum>s | s \<in> set (captured reg) \<and> view_of s = v. sint (load s))"
    if v: "v \<in> exported_views (captured reg) f"
      and small: "(\<Sum>s | s \<in> set (captured reg) \<and> view_of s = v. \<bar>sint (load s)\<bar>) < 2 ^ 63" for v
  proof -
    let ?g = "filter (\<lambda>e. group_key e = v) (enumerate 0 ?S)"
    have g: "\<exists>p. so_item s = GaugeItem p" if "(i, s) \<in> set ?g" for i s
      using exported_item [OF assms(3) v, of s] in_group [OF that] assms(5) by simp
    have "sint (snd (group_total (env f) c ?g (0, 0))) =
        sint (0 :: i64) + (\<Sum>(i, s)\<leftarrow>?g. sint (loaded c (env f i) (so_item s)))"
      by (rule group_total_gauges [OF g]) (use small sums [of "\<lambda>w. \<bar>sint w\<bar>" v] load(1) in simp_all)
    then show ?thesis using sums [of sint v] load(1) by (simp add: view_total_def)
  qed
  moreover have "family_lines env ?S f 0 =
      map (\<lambda>v. series_text name (fst v) (snd v) @ show_i64 (snd (view_total (env f) c ?S v)) @ [newline])
        (sorted_list_of_set (exported_views (captured reg) f))"
    using assms(5) by (simp add: family_lines_views [OF assms(7)] value_text_def split_beta)
  ultimately show ?thesis
    using load(2) by (intro exI [of _ load] exI [of _ "\<lambda>v. snd (view_total (env f) c ?S v)"] conjI ballI impI)
qed

lemma finite_exported_views [simp]: "finite (exported_views sources f)"
  by (simp add: exported_views_def)

text \<open>The calls that emit them.\<close>

lemma views_samples:
  assumes "registry_inv reg" and "later reg env" and "from_registry tmem smem reg = Inr r" and "f < length FAMILIES"
    and "family_lines env (pr_sources r) f 0 = map h (sorted_list_of_set (exported_views sources f))"
  shows "\<exists>r'. samples env (Suc (card (exported_views sources f))) (r\<lparr>pr_family := f\<rparr>) =
      Inr (type_line f # map h (sorted_list_of_set (exported_views sources f)), r') \<and>
    (\<forall>n. map_sum id fst (samples env n r') = map_sum id fst (samples env n (r\<lparr>pr_family := Suc f\<rparr>)))"
  using family_samples [OF assms(1-4)] unfolding assms(5) length_map by (simp del: samples.simps)

section \<open>Properties\<close>

text \<open>C4: Counter samples add up. When a reader enters a counter family, its next calls of \<open>next_sample\<close>
  give the TYPE line and then one line per exported series: every captured slot is loaded exactly once,
  at some moment of the pass; the sample of a series is the sum of what was loaded from the distinct
  slots behind it, saturating at the largest \<open>u64\<close> (it never wraps), whatever the order of the slots in
  memory; and then the reader goes on with the next family.\<close>

theorem counter_samples:
  assumes "registry_inv reg" and "later reg env" and "plans_built reg"
    and "collect_sources reg = Inr sources" and "from_registry tmem smem reg = Inr r"
    and "addresses_ok tmem smem sources" and "f < 8" and "FAMILIES ! f = (name, c, seconds)"
  shows "\<exists>load r'. (\<forall>s \<in> set sources. \<exists>i. load_item c (env f i) (so_item s) = Inr (load s)) \<and>
    samples env (Suc (card (exported_views sources f))) (r\<lparr>pr_family := f\<rparr>) =
      Inr (type_line f #
        map (\<lambda>v. let n = min (\<Sum>s | s \<in> set sources \<and> view_of s = v. unat (load s)) (2 ^ 64 - 1)
               in series_text name (fst v) (snd v) @
                  (if seconds then seconds_text (word_of_nat n) else show_nat n) @ [newline])
          (sorted_list_of_set (exported_views sources f)), r') \<and>
    (\<forall>n. map_sum id fst (samples env n r') = map_sum id fst (samples env n (r\<lparr>pr_family := Suc f\<rparr>)))"
proof -
  have src: "sources = captured reg" using collect_sources_ok [OF assms(1)] assms(4) by simp
  have f: "f < length FAMILIES" using assms(7) by (simp add: FAMILIES_def)
  note S = from_registry_content(3) [OF assms(1,2,5), folded src]
  from counter_lines [OF assms(1-3) assms(6) [unfolded src] assms(7,8)] obtain load where
    load: "\<forall>s \<in> set sources. \<exists>i. load_item c (env f i) (so_item s) = Inr (load s)" and
    lines: "family_lines env (pr_sources r) f 0 =
      map (\<lambda>v. let n = min (\<Sum>s | s \<in> set sources \<and> view_of s = v. unat (load s)) (2 ^ 64 - 1)
               in series_text name (fst v) (snd v) @
                  (if seconds then seconds_text (word_of_nat n) else show_nat n) @ [newline])
        (sorted_list_of_set (exported_views sources f))" unfolding S src by (elim exE conjE)
  from views_samples [OF assms(1,2,5) f lines] show ?thesis
    by (elim exE conjE) (intro exI conjI, rule load, assumption+)
qed

theorem counter_samples_witness:
  "\<exists>m reg reg' r r'. registry_do (RegName ''a'' Log) (registry_new (\<lambda>_. 0) (\<lambda>_. 1)) = Inr (m, reg) \<and>
     metric_increment m reg = Inr reg' \<and> from_registry (\<lambda>_. 0) (\<lambda>_. 1) reg = Inr r \<and>
     samples (\<lambda>_ _. reg') 2 (r\<lparr>pr_family := 0\<rparr>) = Inr ([type_line 0,
       ''brz_req_total{type='' @ [quote] @ ''LOG'' @ [quote] @ '',name='' @ [quote] @ ''a'' @ [quote] @ ''} 1'' @ [newline]], r')"
proof -
  obtain m reg where m: "registry_do (RegName ''a'' Log) (registry_new (\<lambda>_. 0) (\<lambda>_. 1)) = Inr (m, reg)"
    "registry_inv reg" "plans_built reg" "set (captured reg) = {single_source ''a'' Log (m_item m)}"
    "registry_find reg (NameKey ''a'' Log) = Some m" "registry_abs reg (NameKey ''a'' Log) = Some slot_default"
    by (rule scrape_example [of "''a''" Log "\<lambda>_. 0" "\<lambda>_. 1"]) simp
  obtain reg' where r: "metric_increment m reg = Inr reg'" "registry_inv reg'"
    "registry_find reg' (NameKey ''a'' Log) = Some m"
    "registry_abs reg' (NameKey ''a'' Log) = Some (increment_slot slot_default)"
    using run_one_metric [OF m(2,5), of increment_steps] m(5,6) by (auto simp: metric_increment_def increment_slot_def)
  have slot: "registry_slot (m_item m) reg' = Inr (increment_slot slot_default)"
    by (rule registry_abs_find [OF r(2,3)]) (use r(4) in auto)
  have late: "later reg (\<lambda>_ _. reg')"
    using r(1) registry_run.step [OF registry_run.here registry_step.records [OF m(5)]]
    by (auto simp: later_def metric_increment_def increment_steps_def res_bind_Inr_iff)
  have addr: "addresses_ok (\<lambda>_. 0) (\<lambda>_. 1) (captured reg)"
    using m(4) by (simp add: addresses_ok_def single_source_def inj_on_def)
  have F: "FAMILIES ! 0 = (''brz_req_total'', Total, False)" by (simp add: FAMILIES_def)
  let ?s = "single_source ''a'' Log (m_item m)"
  let ?v = "(\<lparr>po_type = ''LOG'', po_name = ''a'', po_resource = None\<rparr>, SkFull)"
  have v: "view_of ?s = ?v" "so_item ?s = TimingItem (m_item m)"
    by (simp_all add: view_of_def single_source_def single_view_def)
  have views: "exported_views (captured reg) 0 = {?v}" using m(4) by (auto simp: exported_views_def v(1))
  have only: "{s. s \<in> set (captured reg) \<and> view_of s = ?v} = {?s}" using m(4) v(1) by auto
  have eight: "(0 :: nat) < 8" and two: "Suc (card {?v}) = 2" by simp_all
  note src = collect_sources_ok [OF m(2)]
  obtain rd where rd: "from_registry (\<lambda>_. 0) (\<lambda>_. 1) reg = Inr rd" using from_registry_ok [OF m(2)] by blast
  from counter_samples [OF m(2) late m(3) src rd addr eight F] obtain load r' where
    load: "\<forall>s \<in> set (captured reg). \<exists>i :: nat. load_item Total reg' (so_item s) = Inr (load s)" and
    lines: "samples (\<lambda>_ _. reg') (Suc (card (exported_views (captured reg) 0))) (rd\<lparr>pr_family := 0\<rparr>) =
      Inr (type_line 0 #
        map (\<lambda>v. let n = min (\<Sum>s | s \<in> set (captured reg) \<and> view_of s = v. unat (load s)) (2 ^ 64 - 1)
               in series_text ''brz_req_total'' (fst v) (snd v) @
                  (if False then seconds_text (word_of_nat n) else show_nat n) @ [newline])
        (sorted_list_of_set (exported_views (captured reg) 0)), r')" by (elim exE conjE)
  have "load ?s = 1"
    using load m(4) v(2) slot by (simp add: increment_slot_def increment_steps_def slot_default_def)
  moreover have "show_nat 1 = ''1''" by code_simp
  ultimately have "samples (\<lambda>_ _. reg') 2 (rd\<lparr>pr_family := 0\<rparr>) = Inr ([type_line 0,
       ''brz_req_total{type='' @ [quote] @ ''LOG'' @ [quote] @ '',name='' @ [quote] @ ''a'' @ [quote] @ ''} 1'' @ [newline]], r')"
    using lines unfolding views two by (simp add: only Let_def series_text_def del: samples.simps)
  with m(1) r(1) rd show ?thesis by blast
qed

text \<open>C15: Gauge samples add up. When a reader enters a gauge family, its next calls of \<open>next_sample\<close> give
  the TYPE line and then one line per exported series: every captured gauge is loaded exactly once, and
  the sample of a series is the signed sum of what was loaded from the distinct gauges behind it,
  provided that the magnitudes add up to less than 2 to the 63; then the reader goes on with the next family.\<close>

theorem gauge_samples:
  assumes "registry_inv reg" and "later reg env" and "plans_built reg"
    and "collect_sources reg = Inr sources" and "from_registry tmem smem reg = Inr r"
    and "addresses_ok tmem smem sources" and "8 \<le> f" and "f < length FAMILIES"
    and "FAMILIES ! f = (name, c, seconds)"
  shows "\<exists>load gauge r'. (\<forall>s \<in> set sources. \<exists>i. load_item c (env f i) (so_item s) = Inr (load s)) \<and>
    samples env (Suc (card (exported_views sources f))) (r\<lparr>pr_family := f\<rparr>) =
      Inr (type_line f # map (\<lambda>v. series_text name (fst v) (snd v) @ show_i64 (gauge v) @ [newline])
        (sorted_list_of_set (exported_views sources f)), r') \<and>
    (\<forall>v \<in> exported_views sources f.
       (\<Sum>s | s \<in> set sources \<and> view_of s = v. \<bar>sint (load s)\<bar>) < 2 ^ 63 \<longrightarrow>
       sint (gauge v) = (\<Sum>s | s \<in> set sources \<and> view_of s = v. sint (load s))) \<and>
    (\<forall>n. map_sum id fst (samples env n r') = map_sum id fst (samples env n (r\<lparr>pr_family := Suc f\<rparr>)))"
proof -
  have src: "sources = captured reg" using collect_sources_ok [OF assms(1)] assms(4) by simp
  note S = from_registry_content(3) [OF assms(1,2,5), folded src]
  from gauge_lines [OF assms(1-3) assms(6) [unfolded src] assms(7-9)] obtain load gauge where
    load: "\<forall>s \<in> set sources. \<exists>i. load_item c (env f i) (so_item s) = Inr (load s)" and
    lines: "family_lines env (pr_sources r) f 0 =
      map (\<lambda>v. series_text name (fst v) (snd v) @ show_i64 (gauge v) @ [newline])
        (sorted_list_of_set (exported_views sources f))" and
    sums: "\<forall>v \<in> exported_views sources f.
       (\<Sum>s | s \<in> set sources \<and> view_of s = v. \<bar>sint (load s)\<bar>) < 2 ^ 63 \<longrightarrow>
       sint (gauge v) = (\<Sum>s | s \<in> set sources \<and> view_of s = v. sint (load s))" unfolding S src by (elim exE conjE)
  from views_samples [OF assms(1,2,5,8) lines] show ?thesis
    by (elim exE conjE) (intro exI conjI, rule load, assumption, rule sums, assumption)
qed

theorem gauge_samples_witness:
  "\<exists>p scalars scalars' r r'. scalars_do (ScalarName Log GaugeKind ''depth'') (scalar_registry_new (\<lambda>_. 0)) = Inr (p, scalars) \<and>
     atomic_store p (- 5) scalars = Inr scalars' \<and>
     (let reg = (registry_new (\<lambda>_. 0) (\<lambda>_. 1))\<lparr>rg_scalars := scalars\<rparr>
      in from_registry (\<lambda>_. 0) (\<lambda>_. 1) reg = Inr r \<and>
        samples (\<lambda>_ _. reg\<lparr>rg_scalars := scalars'\<rparr>) 2 (r\<lparr>pr_family := 9\<rparr>) = Inr ([type_line 9,
        ''brz_value{type='' @ [quote] @ ''LOG'' @ [quote] @ '',name='' @ [quote] @ ''depth'' @ [quote] @ ''} -5'' @ [newline]], r'))"
proof -
  obtain p reg reg' where p: "scalars_do (ScalarName Log GaugeKind ''depth'') (scalar_registry_new (\<lambda>_. 0)) =
      Inr (p, rg_scalars reg)" "registry_inv reg" "plans_built reg"
    "set (captured reg) = {scalar_source (scalar_entry (ScalarName Log GaugeKind ''depth'') p)}"
    "reg = (registry_new (\<lambda>_. 0) (\<lambda>_. 1))\<lparr>rg_scalars := rg_scalars reg\<rparr>"
    "atomic_store p (- 5) (rg_scalars reg) = Inr (rg_scalars reg')" "reg' = reg\<lparr>rg_scalars := rg_scalars reg'\<rparr>"
    "registry_run reg reg'" "scalar_load p (rg_scalars reg') = Inr (- 5)"
    by (rule gauge_example [of Log "''depth''" "\<lambda>_. 0" "\<lambda>_. 1" "- 5"]) simp_all
  let ?s = "scalar_source (scalar_entry (ScalarName Log GaugeKind ''depth'') p)"
  let ?v = "(\<lparr>po_type = ''LOG'', po_name = ''depth'', po_resource = None\<rparr>, SkGauge)"
  have v: "view_of ?s = ?v" "so_item ?s = GaugeItem p"
    by (simp_all add: view_of_def scalar_source_def scalar_entry_def api_type_def)
  have late: "later reg (\<lambda>_ _. reg')" using p(8) by (simp add: later_def)
  have addr: "addresses_ok (\<lambda>_. 0) (\<lambda>_. 1) (captured reg)" using p(4) v(2) by (simp add: addresses_ok_def inj_on_def)
  have F: "FAMILIES ! 9 = (''brz_value'', Total, False)" "8 \<le> (9 :: nat)" "9 < length FAMILIES"
    by (simp_all add: FAMILIES_def)
  have views: "exported_views (captured reg) 9 = {?v}" using p(4) by (auto simp: exported_views_def v(1))
  have only: "{s. s \<in> set (captured reg) \<and> view_of s = ?v} = {?s}" using p(4) v(1) by auto
  have two: "Suc (card {?v}) = 2" by simp
  note src = collect_sources_ok [OF p(2)]
  obtain rd where rd: "from_registry (\<lambda>_. 0) (\<lambda>_. 1) reg = Inr rd" using from_registry_ok [OF p(2)] by blast
  from gauge_samples [OF p(2) late p(3) src rd addr F(2,3,1)] obtain load gauge r' where
    load: "\<forall>s \<in> set (captured reg). \<exists>i :: nat. load_item Total reg' (so_item s) = Inr (load s)" and
    lines: "samples (\<lambda>_ _. reg') (Suc (card (exported_views (captured reg) 9))) (rd\<lparr>pr_family := 9\<rparr>) =
      Inr (type_line 9 # map (\<lambda>v. series_text ''brz_value'' (fst v) (snd v) @ show_i64 (gauge v) @ [newline])
        (sorted_list_of_set (exported_views (captured reg) 9)), r')" and
    sum: "\<forall>v \<in> exported_views (captured reg) 9.
       (\<Sum>s | s \<in> set (captured reg) \<and> view_of s = v. \<bar>sint (load s)\<bar>) < 2 ^ 63 \<longrightarrow>
       sint (gauge v) = (\<Sum>s | s \<in> set (captured reg) \<and> view_of s = v. sint (load s))" by (elim exE conjE)
  have "load ?s = - 5" using load p(4,9) v(2) by simp
  moreover have five: "show_nat 5 = ''5''" by code_simp
  ultimately have "sint (gauge ?v) = - 5" using sum by (simp add: views only)
  with lines have line: "samples (\<lambda>_ _. reg') 2 (rd\<lparr>pr_family := 9\<rparr>) = Inr ([type_line 9,
      ''brz_value{type='' @ [quote] @ ''LOG'' @ [quote] @ '',name='' @ [quote] @ ''depth'' @ [quote] @ ''} -5'' @ [newline]], r')"
    unfolding views two by (simp add: show_i64_def series_text_def five del: samples.simps)
  show ?thesis
    by (rule exI [of _ p], rule exI [of _ "rg_scalars reg"], rule exI [of _ "rg_scalars reg'"],
        rule exI [of _ rd], rule exI [of _ r'])
      (use p(1,6) line rd in \<open>simp add: Let_def del: samples.simps flip: p(5,7)\<close>)
qed

end
