(* ===== verification/Metrics_Api.thy ===== *)
theory Metrics_Api
  imports Prometheus_Reader Registry_Run
begin

text \<open>
  The public entry points of the crate (\<open>src/src/lib.rs\<close> and the constructors of
  \<open>src/src/metric.rs\<close>). The process-wide registry is a \<open>OnceLock\<close>: \<open>None\<close> until the first call, which
  stores a new registry (\<open>new\<close> below, with the hash keys drawn at that moment); every call takes the
  state of the cell and returns its state afterwards.
\<close>

section \<open>The process-wide registry\<close>

type_synonym process = "registry option"

definition global_registry :: "registry \<Rightarrow> process \<Rightarrow> registry" where
  "global_registry new g = (case g of None \<Rightarrow> new | Some reg \<Rightarrow> reg)"

definition with_registry :: "registry \<Rightarrow> (registry \<Rightarrow> ('a \<times> registry) result) \<Rightarrow> process \<Rightarrow> ('a \<times> process) result" where
  "with_registry new op g = res_bind (op (global_registry new g)) (\<lambda>(x, reg). Inr (x, Some reg))"

section \<open>Constructors\<close>

definition register_profile :: "registry \<Rightarrow> profile_plan \<Rightarrow> process \<Rightarrow> (metric \<times> process) result" where
  "register_profile new plan = with_registry new (registry_register_profile plan)"

definition register_single :: "registry \<Rightarrow> str \<Rightarrow> metric_type \<Rightarrow> process \<Rightarrow> (metric \<times> process) result" where
  "register_single new name kind = with_registry new (registry_register name kind)"

definition metric_log :: "registry \<Rightarrow> str \<Rightarrow> process \<Rightarrow> (metric \<times> process) result" where
  "metric_log new name = register_single new name Log"

definition metric_redis :: "registry \<Rightarrow> str \<Rightarrow> process \<Rightarrow> (metric \<times> process) result" where
  "metric_redis new name = register_single new name (Redis Req)"

definition metric_mysql :: "registry \<Rightarrow> str \<Rightarrow> process \<Rightarrow> (metric \<times> process) result" where
  "metric_mysql new name = register_single new name (Mysql Req)"

definition metric_mc :: "registry \<Rightarrow> str \<Rightarrow> process \<Rightarrow> (metric \<times> process) result" where
  "metric_mc new name = register_single new name (Memcache Req)"

definition metric_mc_detail :: "registry \<Rightarrow> str \<Rightarrow> process \<Rightarrow> (metric \<times> process) result" where
  "metric_mc_detail new name = register_single new name McDetail"

definition metric_http :: "registry \<Rightarrow> str \<Rightarrow> process \<Rightarrow> (metric \<times> process) result" where
  "metric_http new name = register_single new name (Http Req)"

definition metric_http_all :: "registry \<Rightarrow> str \<Rightarrow> process \<Rightarrow> (metric \<times> process) result" where
  "metric_http_all new name = register_single new name HttpAll"

definition metric_api :: "registry \<Rightarrow> str \<Rightarrow> process \<Rightarrow> (metric \<times> process) result" where
  "metric_api new name = register_single new name ApiAll"

definition metric_api_status :: "registry \<Rightarrow> str \<Rightarrow> u16 \<Rightarrow> process \<Rightarrow> (metric \<times> process) result" where
  "metric_api_status new name code g =
     res_bind (assert_or (100 \<le> code \<and> code \<le> 599) (AssertFailed ''invalid HTTP status code''))
       (\<lambda>_. register_single new name (Api code) g)"

definition metric_api_3xx :: "registry \<Rightarrow> str \<Rightarrow> process \<Rightarrow> (metric \<times> process) result" where
  "metric_api_3xx new name = register_single new name Api3xx"

definition metric_api_4xx :: "registry \<Rightarrow> str \<Rightarrow> process \<Rightarrow> (metric \<times> process) result" where
  "metric_api_4xx new name = register_single new name Api4xx"

definition metric_api_5xx :: "registry \<Rightarrow> str \<Rightarrow> process \<Rightarrow> (metric \<times> process) result" where
  "metric_api_5xx new name = register_single new name Api5xx"

definition metric_api_timeout :: "registry \<Rightarrow> str \<Rightarrow> process \<Rightarrow> (metric \<times> process) result" where
  "metric_api_timeout new name = register_single new name ApiTimeout"

definition metric_service :: "registry \<Rightarrow> str \<Rightarrow> process \<Rightarrow> (metric \<times> process) result" where
  "metric_service new name = register_single new name (Service Req)"

definition metric_rpc_service_whole :: "registry \<Rightarrow> str \<Rightarrow> process \<Rightarrow> (metric \<times> process) result" where
  "metric_rpc_service_whole new name = register_single new name RpcServiceWhole"

definition metric_new :: "registry \<Rightarrow> metric_type \<Rightarrow> str \<Rightarrow> process \<Rightarrow> (metric \<times> process) result" where
  "metric_new new kind name g =
     res_bind (validate kind) (\<lambda>_.
     res_bind (assert_or (\<not> is_conn kind)
         (AssertFailed ''connection values use CounterMetric/GaugeMetric/ConnMetric''))
       (\<lambda>_. with_registry new (registry_register name kind) g))"

definition metric_new_resource ::
  "registry \<Rightarrow> metric_type \<Rightarrow> resource_labels \<Rightarrow> process \<Rightarrow> (metric \<times> process) result" where
  "metric_new_resource new kind labels g =
     res_bind (validate kind) (\<lambda>_.
     res_bind (assert_or (\<not> is_conn kind) (AssertFailed ''connection values use ConnMetric''))
       (\<lambda>_. with_registry new (registry_register_resource kind labels) g))"

section \<open>States, visits and length\<close>

text \<open>\<open>Display\<close> of the key and of the value is chosen by the caller.\<close>

definition record_rpc_state ::
  "registry \<Rightarrow> ('k \<Rightarrow> str) \<Rightarrow> ('v \<Rightarrow> str) \<Rightarrow> str \<Rightarrow> 'k \<Rightarrow> 'v \<Rightarrow> process \<Rightarrow> process" where
  "record_rpc_state new show_k show_v name key val g =
     Some (registry_record_state RpcState name (show_k key) (show_v val) (global_registry new g))"

text \<open>The calls of the visitor for one registered metric: name, type, snapshot.\<close>

fun visit_rows :: "profile_meta \<Rightarrow> metric_snapshot \<Rightarrow> (str \<times> str \<times> metric_snapshot) list" where
  "visit_rows (Single name kind) snap = (let (metric_type, _) = output_of kind in [(name, metric_type, snap)])"
| "visit_rows (Resource labels kind) snap = [(rl_name labels, fst (output_of kind), snap)]"
| "visit_rows (Fanout plan) snap = map (\<lambda>out. (po_name out, po_type out, snap)) (pp_outputs plan)"

definition metrics_visit :: "registry \<Rightarrow> process \<Rightarrow> ((str \<times> str \<times> metric_snapshot) list \<times> process) result" where
  "metrics_visit new = with_registry new (\<lambda>reg. res_bind (registry_visit reg)
     (\<lambda>vs. Inr (concat (map (\<lambda>(meta, snap). visit_rows (mm_profile meta) snap) vs), reg)))"

definition metrics_len :: "registry \<Rightarrow> process \<Rightarrow> (nat \<times> process) result" where
  "metrics_len new = with_registry new (\<lambda>reg. res_bind (registry_len reg) (\<lambda>n. Inr (n, reg)))"

text \<open>\<open>PrometheusReader::new\<close>: a reader on the process-wide registry.\<close>

definition reader_new ::
  "(item_ptr \<Rightarrow> nat) \<Rightarrow> (scalar_ptr \<Rightarrow> nat) \<Rightarrow> registry \<Rightarrow> process \<Rightarrow> (reader \<times> process) result" where
  "reader_new tmem smem new =
     with_registry new (\<lambda>reg. res_bind (from_registry tmem smem reg) (\<lambda>r. Inr (r, reg)))"

section \<open>Lemmas\<close>

definition process_inv :: "process \<Rightarrow> bool" where
  "process_inv g \<longleftrightarrow> (case g of None \<Rightarrow> True | Some reg \<Rightarrow> registry_inv reg)"

lemma process_inv_global:
  "process_inv g \<Longrightarrow> registry_inv (global_registry (registry_new hs ht) g)"
  by (cases g) (simp_all add: process_inv_def global_registry_def registry_inv_new)

lemma with_registry_do:
  assumes "process_inv g"
  obtains m reg where "with_registry (registry_new hs ht) (registry_do r) g = Inr (m, Some reg)"
    and "registry_inv reg" and "registry_find reg (reg_key r) = Some m"
proof -
  obtain m reg where "registry_do r (global_registry (registry_new hs ht) g) = Inr (m, reg)" "registry_inv reg"
    "registry_find reg = (registry_find (global_registry (registry_new hs ht) g))(reg_key r \<mapsto> m)"
    by (rule registry_inv_do [OF process_inv_global [OF assms]]) blast
  then show thesis by (intro that [of m reg]) (simp_all add: with_registry_def)
qed

section \<open>Properties\<close>

text \<open>C23: Which constructors panic, and on what. \<open>Metric::new\<close> and \<open>Metric::new_resource\<close> each panic on
  a status code outside 100 to 599 with the message of \<open>validate\<close>, on a connection category with a message
  of their own, and otherwise return the handle of the identity; registering a profile always returns.\<close>

theorem metric_constructors:
  assumes "process_inv g"
  shows "(if \<exists>code. kind = Api code \<and> \<not> (100 \<le> unat code \<and> unat code \<le> 599) then
      metric_new (registry_new hs ht) kind name g = Inl (AssertFailed ''invalid HTTP status code'') \<and>
      metric_new_resource (registry_new hs ht) kind labels g = Inl (AssertFailed ''invalid HTTP status code'')
     else if is_conn kind then
      metric_new (registry_new hs ht) kind name g =
        Inl (AssertFailed ''connection values use CounterMetric/GaugeMetric/ConnMetric'') \<and>
      metric_new_resource (registry_new hs ht) kind labels g = Inl (AssertFailed ''connection values use ConnMetric'')
     else
      (\<exists>m reg. metric_new (registry_new hs ht) kind name g = Inr (m, Some reg) \<and> registry_inv reg \<and>
         registry_find reg (NameKey name kind) = Some m) \<and>
      (\<exists>m reg. metric_new_resource (registry_new hs ht) kind labels g = Inr (m, Some reg) \<and> registry_inv reg \<and>
         registry_find reg (ResourceKey kind labels) = Some m)) \<and>
    (\<exists>m reg. register_profile (registry_new hs ht) plan g = Inr (m, Some reg) \<and> registry_inv reg \<and>
       registry_find reg (ProfileKey (pp_identity plan) (pp_policy plan)) = Some m)"
proof
  obtain m reg where n: "with_registry (registry_new hs ht) (registry_register name kind) g = Inr (m, Some reg)"
    "registry_inv reg" "registry_find reg (NameKey name kind) = Some m"
    by (rule with_registry_do [OF assms, of hs ht "RegName name kind"]) simp
  obtain m' reg' where r: "with_registry (registry_new hs ht) (registry_register_resource kind labels) g = Inr (m', Some reg')"
    "registry_inv reg'" "registry_find reg' (ResourceKey kind labels) = Some m'"
    by (rule with_registry_do [OF assms, of hs ht "RegResource kind labels"]) simp
  have bad: "(\<exists>code. kind = Api code \<and> \<not> (100 \<le> unat code \<and> unat code \<le> 599)) \<longleftrightarrow> validate kind \<noteq> Inr ()"
    by (subst validate_iff) blast
  show "if \<exists>code. kind = Api code \<and> \<not> (100 \<le> unat code \<and> unat code \<le> 599) then
      metric_new (registry_new hs ht) kind name g = Inl (AssertFailed ''invalid HTTP status code'') \<and>
      metric_new_resource (registry_new hs ht) kind labels g = Inl (AssertFailed ''invalid HTTP status code'')
     else if is_conn kind then
      metric_new (registry_new hs ht) kind name g =
        Inl (AssertFailed ''connection values use CounterMetric/GaugeMetric/ConnMetric'') \<and>
      metric_new_resource (registry_new hs ht) kind labels g = Inl (AssertFailed ''connection values use ConnMetric'')
     else
      (\<exists>m reg. metric_new (registry_new hs ht) kind name g = Inr (m, Some reg) \<and> registry_inv reg \<and>
         registry_find reg (NameKey name kind) = Some m) \<and>
      (\<exists>m reg. metric_new_resource (registry_new hs ht) kind labels g = Inr (m, Some reg) \<and> registry_inv reg \<and>
         registry_find reg (ResourceKey kind labels) = Some m)"
    unfolding bad using n r validate_panics [of kind]
    by (cases "validate kind = Inr ()") (simp_all add: metric_new_def metric_new_resource_def)
  obtain m2 reg2 where "with_registry (registry_new hs ht) (registry_register_profile plan) g = Inr (m2, Some reg2)"
    "registry_inv reg2" "registry_find reg2 (ProfileKey (pp_identity plan) (pp_policy plan)) = Some m2"
    by (rule with_registry_do [OF assms, of hs ht "RegProfile plan"]) simp
  then show "\<exists>m reg. register_profile (registry_new hs ht) plan g = Inr (m, Some reg) \<and> registry_inv reg \<and>
       registry_find reg (ProfileKey (pp_identity plan) (pp_policy plan)) = Some m"
    by (simp add: register_profile_def)
qed

theorem metric_constructors_witness:
  "metric_new (registry_new (\<lambda>_. 0) (\<lambda>_. 0)) (Redis Conn) ''r'' None =
     Inl (AssertFailed ''connection values use CounterMetric/GaugeMetric/ConnMetric'') \<and>
   metric_new_resource (registry_new (\<lambda>_. 0) (\<lambda>_. 0)) (Api 600) (resource_labels_new ''r'' ''e'') None =
     Inl (AssertFailed ''invalid HTTP status code'')"
proof -
  have g: "process_inv None" by (simp add: process_inv_def)
  note c = metric_constructors [OF g, of _ "\<lambda>_. 0" "\<lambda>_. 0" "''r''" "resource_labels_new ''r'' ''e''"]
  have "metric_new (registry_new (\<lambda>_. 0) (\<lambda>_. 0)) (Redis Conn) ''r'' None =
     Inl (AssertFailed ''connection values use CounterMetric/GaugeMetric/ConnMetric'')"
    using c [of "Redis Conn"] by simp
  moreover have "metric_new_resource (registry_new (\<lambda>_. 0) (\<lambda>_. 0)) (Api 600) (resource_labels_new ''r'' ''e'') None =
     Inl (AssertFailed ''invalid HTTP status code'')"
    using c [of "Api 600"] by simp
  ultimately show ?thesis by simp
qed

text \<open>C24: A visit calls back with exactly the direct views of the registered metrics: a metric registered
  by name or by labels under its name and the type of its kind, a profile once per direct output (never
  for its aggregate), always with the counters of that metric.\<close>

theorem visit_rows_exact:
  assumes "process_inv g" and "reg = global_registry (registry_new hs ht) g"
  shows "\<exists>rows. metrics_visit (registry_new hs ht) g = Inr (rows, Some reg) \<and>
    (\<forall>name ty snap. (name, ty, snap) \<in> set rows \<longleftrightarrow>
      (\<exists>m \<in> set (registry_metas reg). \<exists>s. registry_abs reg (profile_key (mm_profile m)) = Some s \<and>
         snap = snapshot_slot s \<and>
         ((\<exists>kind. mm_profile m = Single name kind \<and> ty = fst (output_of kind)) \<or>
          (\<exists>labels kind. mm_profile m = Resource labels kind \<and> name = rl_name labels \<and> ty = fst (output_of kind)) \<or>
          (\<exists>plan. mm_profile m = Fanout plan \<and> (\<exists>out \<in> set (pp_outputs plan). name = po_name out \<and> ty = po_type out)))))"
proof -
  have inv: "registry_inv reg" unfolding assms(2) by (rule process_inv_global [OF assms(1)])
  let ?snap = "\<lambda>m. snapshot_slot (the (registry_abs reg (profile_key (mm_profile m))))"
  let ?rows = "concat (map (\<lambda>m. visit_rows (mm_profile m) (?snap m)) (registry_metas reg))"
  have run: "metrics_visit (registry_new hs ht) g = Inr (?rows, Some reg)"
    using registry_visit_ok [OF inv] by (simp add: metrics_visit_def with_registry_def assms(2) [symmetric] comp_def)
  have abs: "\<exists>s. registry_abs reg (profile_key (mm_profile m)) = Some s" if "m \<in> set (registry_metas reg)" for m
    by (rule registry_meta_find [OF inv that]) blast
  have row: "(name, ty, x) \<in> set (visit_rows prof snap) \<longleftrightarrow> x = snap \<and>
      ((\<exists>kind. prof = Single name kind \<and> ty = fst (output_of kind)) \<or>
       (\<exists>labels kind. prof = Resource labels kind \<and> name = rl_name labels \<and> ty = fst (output_of kind)) \<or>
       (\<exists>plan. prof = Fanout plan \<and> (\<exists>out \<in> set (pp_outputs plan). name = po_name out \<and> ty = po_type out)))"
    for prof name ty x snap
    by (cases prof) (auto simp: split_beta)
  have "snap = ?snap m \<longleftrightarrow> (\<exists>s. registry_abs reg (profile_key (mm_profile m)) = Some s \<and> snap = snapshot_slot s)"
    if "m \<in> set (registry_metas reg)" for m snap
    using abs [OF that] by auto
  note snap = this
  show ?thesis
  proof (intro exI [of _ ?rows] conjI allI, rule run)
    fix name ty snap
    have "(name, ty, snap) \<in> set ?rows \<longleftrightarrow>
        (\<exists>m \<in> set (registry_metas reg). (name, ty, snap) \<in> set (visit_rows (mm_profile m) (?snap m)))" by simp
    also have "\<dots> \<longleftrightarrow> (\<exists>m \<in> set (registry_metas reg). \<exists>s. registry_abs reg (profile_key (mm_profile m)) = Some s \<and>
         snap = snapshot_slot s \<and>
         ((\<exists>kind. mm_profile m = Single name kind \<and> ty = fst (output_of kind)) \<or>
          (\<exists>labels kind. mm_profile m = Resource labels kind \<and> name = rl_name labels \<and> ty = fst (output_of kind)) \<or>
          (\<exists>plan. mm_profile m = Fanout plan \<and> (\<exists>out \<in> set (pp_outputs plan). name = po_name out \<and> ty = po_type out))))"
      unfolding row by (intro bex_cong refl) (simp only: snap, blast)
    finally show "(name, ty, snap) \<in> set ?rows \<longleftrightarrow> \<dots>" .
  qed
qed

theorem visit_rows_exact_witness:
  "\<exists>rows m reg. metric_log (registry_new (\<lambda>_. 0) (\<lambda>_. 1)) ''app'' None = Inr (m, Some reg) \<and>
     metrics_visit (registry_new (\<lambda>_. 0) (\<lambda>_. 1)) (Some reg) = Inr (rows, Some reg) \<and>
     (''app'', ''LOG'', snapshot_slot slot_default) \<in> set rows"
proof -
  let ?new = "registry_new (\<lambda>_. 0) (\<lambda>_. 1)"
  obtain m reg where m: "registry_do (RegName ''app'' Log) ?new = Inr (m, reg)" "registry_inv reg"
    "registry_find reg = [reg_key (RegName ''app'' Log) \<mapsto> m]"
    "registry_abs reg = [reg_key (RegName ''app'' Log) \<mapsto> slot_default]"
    by (rule registry_first)
  have log: "metric_log ?new ''app'' None = Inr (m, Some reg)"
    using m(1) by (simp add: metric_log_def register_single_def with_registry_def global_registry_def)
  obtain x where x: "x \<in> set (registry_metas reg)" "profile_key (mm_profile x) = NameKey ''app'' Log"
    by (rule registry_find_meta [OF m(2), of "NameKey ''app'' Log" m]) (use m(3) in auto)
  have "mm_profile x = Single ''app'' Log" using x(2) by (cases "mm_profile x") simp_all
  moreover have g: "process_inv (Some reg)" "reg = global_registry ?new (Some reg)"
    using m(2) by (simp_all add: process_inv_def global_registry_def)
  moreover obtain rows where rows: "metrics_visit ?new (Some reg) = Inr (rows, Some reg)"
    and iff: "\<forall>name ty snap. (name, ty, snap) \<in> set rows \<longleftrightarrow>
      (\<exists>m \<in> set (registry_metas reg). \<exists>s. registry_abs reg (profile_key (mm_profile m)) = Some s \<and>
         snap = snapshot_slot s \<and>
         ((\<exists>kind. mm_profile m = Single name kind \<and> ty = fst (output_of kind)) \<or>
          (\<exists>labels kind. mm_profile m = Resource labels kind \<and> name = rl_name labels \<and> ty = fst (output_of kind)) \<or>
          (\<exists>plan. mm_profile m = Fanout plan \<and> (\<exists>out \<in> set (pp_outputs plan). name = po_name out \<and> ty = po_type out))))"
    using visit_rows_exact [OF g] by (elim exE conjE)
  ultimately have "(''app'', ''LOG'', snapshot_slot slot_default) \<in> set rows"
    unfolding iff [rule_format] using x(1) m(4) by (intro bexI [of _ x]) auto
  with log rows show ?thesis by blast
qed

end
