(* ===== verification/Concurrent_Visit.thy ===== *)
theory Concurrent_Visit
  imports Chunk_Log
begin

text \<open>
  A visitor runs while a registration is in progress: the memory effects of \<open>allocate\<close> (push a chunk,
  write the entry, release the length, store the index) interleaved in any way with those of
  \<open>for_each_meta\<close> (load the index, load the length of each chunk, read the entries below it). Writers
  are serialised by the shard mutex, so there is one at a time; a step is one atomic access, and the
  accesses are interleaved in one order. What the visitor must not see is an entry that has not been
  written: the cell of such an entry is \<open>None\<close>, and reading it is a value of the model.
\<close>

section \<open>State\<close>

text \<open>Where the writer is in \<open>allocate\<close>; the flag is \<open>is_new_chunk\<close>.\<close>

datatype 'm writer =
    WIdle
  | WWrite 'm bool
  | WStore bool
  | WIndex bool
  | WPanic panic

text \<open>Where the visitor is: the chunks it has left, and in a chunk the offset and the loaded length.\<close>

datatype visitor =
    VIdle
  | VChunks "nat list"
  | VEntries nat nat nat "nat list"
  | VDone
  | VPanic panic

record 'm visit_state =
  vs_chunks :: "'m meta_chunk list"
  vs_len :: nat
  vs_index :: "nat list"
  vs_writer :: "'m writer"
  vs_visitor :: visitor
  vs_seen :: "'m list"

definition visit_init :: "'m visit_state" where
  "visit_init = \<lparr>vs_chunks = [], vs_len = 0, vs_index = [], vs_writer = WIdle, vs_visitor = VIdle, vs_seen = []\<rparr>"

section \<open>Steps\<close>

inductive writer_step :: "'m visit_state \<Rightarrow> 'm visit_state \<Rightarrow> bool" where
  w_enter: "vs_writer s = WIdle \<Longrightarrow> is_new = (length (vs_chunks s) \<le> vs_len s div CHUNK_SIZE) \<Longrightarrow>
    writer_step s (s\<lparr>vs_chunks := (if is_new then vs_chunks s @ [meta_chunk_new] else vs_chunks s),
      vs_writer := WWrite meta is_new\<rparr>)"
| w_write: "vs_writer s = WWrite meta is_new \<Longrightarrow>
    index_at (vs_chunks s) (vs_len s div CHUNK_SIZE) = Inr c \<Longrightarrow>
    mc_published_len c = vs_len s mod CHUNK_SIZE \<Longrightarrow> write_entry (vs_len s mod CHUNK_SIZE) meta c = Inr c' \<Longrightarrow>
    writer_step s (s\<lparr>vs_chunks := (vs_chunks s)[vs_len s div CHUNK_SIZE := c'], vs_writer := WStore is_new\<rparr>)"
| w_panic: "vs_writer s = WWrite meta is_new \<Longrightarrow>
    res_bind (index_at (vs_chunks s) (vs_len s div CHUNK_SIZE)) (\<lambda>c.
      res_bind (assert_or (mc_published_len c = vs_len s mod CHUNK_SIZE) DebugAssert) (\<lambda>_.
        write_entry (vs_len s mod CHUNK_SIZE) meta c)) = Inl e \<Longrightarrow>
    writer_step s (s\<lparr>vs_writer := WPanic e\<rparr>)"
| w_release: "vs_writer s = WStore is_new \<Longrightarrow>
    writer_step s (s\<lparr>vs_chunks := (vs_chunks s)[vs_len s div CHUNK_SIZE :=
      store_len (vs_len s mod CHUNK_SIZE + 1) (vs_chunks s ! (vs_len s div CHUNK_SIZE))], vs_writer := WIndex is_new\<rparr>)"
| w_index: "vs_writer s = WIndex is_new \<Longrightarrow>
    writer_step s (s\<lparr>vs_len := vs_len s + 1,
      vs_index := (if is_new then [0..<length (vs_chunks s)] else vs_index s), vs_writer := WIdle\<rparr>)"

inductive visitor_step :: "'m visit_state \<Rightarrow> 'm visit_state \<Rightarrow> bool" where
  v_index: "vs_visitor s = VIdle \<Longrightarrow> visitor_step s (s\<lparr>vs_visitor := VChunks (vs_index s)\<rparr>)"
| v_len: "vs_visitor s = VChunks (i # is) \<Longrightarrow> index_at (vs_chunks s) i = Inr c \<Longrightarrow>
    visitor_step s (s\<lparr>vs_visitor := VEntries i 0 (mc_published_len c) is\<rparr>)"
| v_index_panic: "vs_visitor s = VChunks (i # is) \<Longrightarrow> index_at (vs_chunks s) i = Inl e \<Longrightarrow>
    visitor_step s (s\<lparr>vs_visitor := VPanic e\<rparr>)"
| v_done: "vs_visitor s = VChunks [] \<Longrightarrow> visitor_step s (s\<lparr>vs_visitor := VDone\<rparr>)"
| v_read: "vs_visitor s = VEntries i offset n is \<Longrightarrow> offset < n \<Longrightarrow>
    chunk_get (vs_chunks s ! i) offset = Inr m \<Longrightarrow>
    visitor_step s (s\<lparr>vs_visitor := VEntries i (Suc offset) n is, vs_seen := vs_seen s @ [m]\<rparr>)"
| v_panic: "vs_visitor s = VEntries i offset n is \<Longrightarrow> offset < n \<Longrightarrow>
    chunk_get (vs_chunks s ! i) offset = Inl e \<Longrightarrow>
    visitor_step s (s\<lparr>vs_visitor := VPanic e\<rparr>)"
| v_next: "vs_visitor s = VEntries i n n is \<Longrightarrow> visitor_step s (s\<lparr>vs_visitor := VChunks is\<rparr>)"

inductive visit_run :: "'m visit_state \<Rightarrow> 'm visit_state \<Rightarrow> bool" for s where
  here: "visit_run s s"
| writer: "visit_run s t \<Longrightarrow> writer_step t u \<Longrightarrow> visit_run s u"
| visitor: "visit_run s t \<Longrightarrow> visitor_step t u \<Longrightarrow> visit_run s u"

text \<open>What is published: the entries below the length of the chunks in the index.\<close>

definition published :: "'m visit_state \<Rightarrow> 'm list" where
  "published s = concat (map (\<lambda>i. chunk_metas (vs_chunks s ! i)) (vs_index s))"

section \<open>Invariant of the writer\<close>

definition chunk_ok :: "'m meta_chunk \<Rightarrow> bool" where
  "chunk_ok c \<longleftrightarrow> length (mc_entries c) = 256 \<and> mc_published_len c \<le> 256 \<and>
     (\<forall>i < mc_published_len c. mc_entries c ! i \<noteq> None)"

text \<open>The published lengths when \<open>n\<close> entries have been released.\<close>

definition lens_ok :: "nat \<Rightarrow> 'm meta_chunk list \<Rightarrow> bool" where
  "lens_ok n cs \<longleftrightarrow> (\<forall>i < length cs. mc_published_len (cs ! i) = min 256 (n - 256 * i))"

fun writer_ok :: "'m writer \<Rightarrow> nat \<Rightarrow> 'm meta_chunk list \<Rightarrow> nat \<Rightarrow> bool" where
  "writer_ok WIdle n cs k \<longleftrightarrow> length cs = (n + 255) div 256 \<and> k = length cs \<and> lens_ok n cs"
| "writer_ok (WWrite m is_new) n cs k \<longleftrightarrow> length cs = Suc (n div 256) \<and> is_new = (n mod 256 = 0) \<and>
     k = (if is_new then n div 256 else length cs) \<and> lens_ok n cs"
| "writer_ok (WStore is_new) n cs k \<longleftrightarrow> length cs = Suc (n div 256) \<and> is_new = (n mod 256 = 0) \<and>
     k = (if is_new then n div 256 else length cs) \<and> lens_ok n cs \<and>
     mc_entries (cs ! (n div 256)) ! (n mod 256) \<noteq> None"
| "writer_ok (WIndex is_new) n cs k \<longleftrightarrow> length cs = Suc (n div 256) \<and> is_new = (n mod 256 = 0) \<and>
     k = (if is_new then n div 256 else length cs) \<and> lens_ok (Suc n) cs"
| "writer_ok (WPanic e) n cs k \<longleftrightarrow> False"

definition index_ok :: "nat list \<Rightarrow> bool" where
  "index_ok xs \<longleftrightarrow> xs = [0..<length xs]"

definition shared_inv :: "'m visit_state \<Rightarrow> bool" where
  "shared_inv s \<longleftrightarrow> index_ok (vs_index s) \<and> length (vs_index s) \<le> length (vs_chunks s) \<and>
     (\<forall>c \<in> set (vs_chunks s). chunk_ok c) \<and>
     writer_ok (vs_writer s) (vs_len s) (vs_chunks s) (length (vs_index s))"

text \<open>What a step of the writer leaves: published entries stay where they are.\<close>

definition grows :: "'m visit_state \<Rightarrow> 'm visit_state \<Rightarrow> bool" where
  "grows s t \<longleftrightarrow> length (vs_chunks s) \<le> length (vs_chunks t) \<and> length (vs_index s) \<le> length (vs_index t) \<and>
     (\<forall>i < length (vs_chunks s). prefix (chunk_metas (vs_chunks s ! i)) (chunk_metas (vs_chunks t ! i)))"

lemma index_ok_upt [simp]: "index_ok [0..<k]" "index_ok ([0..<k] @ [k])"
  by (simp_all add: index_ok_def)

lemma shared_inv_init: "shared_inv visit_init"
  using index_ok_upt(1) [of 0] by (simp add: shared_inv_def visit_init_def lens_ok_def)

lemma chunk_ok_new: "chunk_ok meta_chunk_new"
  by (simp add: chunk_ok_def meta_chunk_new_def CHUNK_SIZE_def)

lemma chunk_metas_write:
  "mc_published_len c \<le> j \<Longrightarrow> chunk_metas (c\<lparr>mc_entries := (mc_entries c)[j := x]\<rparr>) = chunk_metas c"
  by (simp add: chunk_metas_def)

lemma chunk_metas_release:
  "mc_published_len c = n \<Longrightarrow> chunk_metas (store_len (Suc n) c) = chunk_metas c @ [the (mc_entries c ! n)]"
  by (simp add: chunk_metas_def store_len_def)

lemma lens_okD: "lens_ok n cs \<Longrightarrow> i < length cs \<Longrightarrow> mc_published_len (cs ! i) = min 256 (n - 256 * i)"
  by (simp add: lens_ok_def)

lemma last_len: "lens_ok n cs \<Longrightarrow> length cs = Suc (n div 256) \<Longrightarrow> mc_published_len (cs ! (n div 256)) = n mod 256"
proof -
  assume "lens_ok n cs" "length cs = Suc (n div 256)"
  then have "mc_published_len (cs ! (n div 256)) = min 256 (n - 256 * (n div 256))" by (simp add: lens_okD)
  moreover have "n - 256 * (n div 256) = n mod 256" by (simp add: minus_mult_div_eq_mod)
  moreover have "n mod 256 < 256" by simp
  ultimately show ?thesis by linarith
qed

lemma chunks_for: "(n + 255) div 256 = (if n mod 256 = 0 then n div 256 else Suc (n div 256))"
proof -
  define q r where "q = n div 256" and "r = n mod 256"
  have n: "n = 256 * q + r" "r < 256" by (simp_all add: q_def r_def)
  have "(256 * q + (r + 255)) div 256 = q + (r + 255) div 256" by simp
  then have "(n + 255) div 256 = q + (r + 255) div 256" by (simp only: n(1) add.assoc)
  moreover have "(r + 255) div 256 = (if r = 0 then 0 else 1)" using n(2) by auto
  ultimately show ?thesis by (simp add: q_def r_def)
qed

lemma lens_ok_release:
  assumes "lens_ok n cs" and "length cs = Suc (n div 256)"
  shows "lens_ok (Suc n) (cs[n div 256 := store_len (Suc (n mod 256)) c])"
  unfolding lens_ok_def
proof (intro allI impI)
  fix i assume "i < length (cs[n div 256 := store_len (Suc (n mod 256)) c])"
  then consider "i = n div 256" | "i < n div 256" "i < length cs" using assms(2) by fastforce
  then show "mc_published_len (cs[n div 256 := store_len (Suc (n mod 256)) c] ! i) = min 256 (Suc n - 256 * i)"
  proof cases
    case 1
    have "Suc n - 256 * (n div 256) = Suc (n mod 256)" by (simp add: Suc_diff_le minus_mult_div_eq_mod)
    moreover have "n mod 256 < 256" by simp
    ultimately show ?thesis using 1 assms(2) by (simp add: store_len_def)
  next
    case 2
    then have "256 * Suc i \<le> 256 * (n div 256)" by (intro mult_le_mono) simp_all
    then have "256 * Suc i \<le> n" using mult_div_mod_eq [of 256 n] by linarith
    then show ?thesis using 2 lens_okD [OF assms(1) 2(2)] by simp
  qed
qed

lemma writer_step_ok:
  assumes "writer_step s t" and "shared_inv s"
  shows "shared_inv t \<and> grows s t \<and> vs_visitor t = vs_visitor s \<and> vs_seen t = vs_seen s"
  using assms(1)
proof cases
  case (w_enter is_new meta)
  let ?n = "vs_len s"
  have len: "length (vs_chunks s) = (?n + 255) div 256" and idx: "length (vs_index s) = length (vs_chunks s)"
    and lens: "lens_ok ?n (vs_chunks s)" and ok: "\<forall>c \<in> set (vs_chunks s). chunk_ok c"
    using assms(2) w_enter(2) by (simp_all add: shared_inv_def)
  have i: "index_ok (vs_index s)" using assms(2) by (simp add: shared_inv_def)
  have new: "is_new \<longleftrightarrow> ?n mod 256 = 0" using w_enter(3) len by (simp add: CHUNK_SIZE_def chunks_for)
  show ?thesis
  proof (cases is_new)
    case True
    have l: "length (vs_chunks s) = ?n div 256" using True new len by (simp add: chunks_for)
    have "?n - 256 * (?n div 256) = 0" using True new by (simp add: minus_mult_div_eq_mod)
    then have "lens_ok ?n (vs_chunks s @ [meta_chunk_new])"
      using lens l by (auto simp: lens_ok_def nth_append less_Suc_eq)
    then show ?thesis using True new l idx ok i chunk_ok_new
      by (auto simp: w_enter(1) shared_inv_def grows_def nth_append)
  next
    case False
    then show ?thesis using new len idx ok i lens
      by (auto simp: w_enter(1) shared_inv_def grows_def chunks_for)
  qed
next
  case (w_write meta is_new c c')
  let ?n = "vs_len s" and ?q = "vs_len s div 256"
  have len: "length (vs_chunks s) = Suc ?q" and lens: "lens_ok ?n (vs_chunks s)" and ok: "\<forall>c \<in> set (vs_chunks s). chunk_ok c"
    using assms(2) w_write(2) by (simp_all add: shared_inv_def)
  have c: "c = vs_chunks s ! ?q" using w_write(3) len by (simp add: CHUNK_SIZE_def)
  have "chunk_ok c" using ok len c by simp
  then have c': "c' = c\<lparr>mc_entries := (mc_entries c)[?n mod 256 := Some meta]\<rparr>" "chunk_ok c'"
      "mc_published_len c' = mc_published_len c" "mc_entries c' ! (?n mod 256) \<noteq> None"
    using w_write(5) by (auto simp: write_entry_def chunk_ok_def CHUNK_SIZE_def nth_list_update res_bind_Inr_iff)
  have "lens_ok ?n ((vs_chunks s)[?q := c'])"
    using lens len by (auto simp: lens_ok_def nth_list_update c c'(3))
  moreover have "chunk_metas c' = chunk_metas c"
    unfolding c'(1) by (rule chunk_metas_write) (use w_write(4) in \<open>simp add: CHUNK_SIZE_def\<close>)
  then have "grows s (s\<lparr>vs_chunks := (vs_chunks s)[?q := c'], vs_writer := WStore is_new\<rparr>)"
    using len by (auto simp: grows_def nth_list_update c)
  moreover have "\<forall>x \<in> set ((vs_chunks s)[?q := c']). chunk_ok x"
    using ok c'(2) set_update_subset_insert by fastforce
  ultimately show ?thesis
    using assms(2) w_write(1,2) len c'(4) by (simp add: shared_inv_def CHUNK_SIZE_def)
next
  case (w_panic meta is_new e)
  have len: "length (vs_chunks s) = Suc (vs_len s div 256)" and lens: "lens_ok (vs_len s) (vs_chunks s)"
    and ok: "\<forall>c \<in> set (vs_chunks s). chunk_ok c"
    using assms(2) w_panic(2) by (simp_all add: shared_inv_def)
  have "chunk_ok (vs_chunks s ! (vs_len s div 256))" using ok len by simp
  then have "vs_len s mod 256 < length (mc_entries (vs_chunks s ! (vs_len s div 256)))" by (simp add: chunk_ok_def)
  with w_panic(3) len last_len [OF lens len] show ?thesis by (simp add: CHUNK_SIZE_def write_entry_def)
next
  case (w_release is_new)
  let ?n = "vs_len s" and ?q = "vs_len s div 256"
  let ?c = "vs_chunks s ! ?q"
  have len: "length (vs_chunks s) = Suc ?q" and lens: "lens_ok ?n (vs_chunks s)" and ok: "\<forall>c \<in> set (vs_chunks s). chunk_ok c"
    and written: "mc_entries ?c ! (?n mod 256) \<noteq> None"
    using assms(2) w_release(2) by (simp_all add: shared_inv_def)
  note pub = last_len [OF lens len]
  have "chunk_ok ?c" using ok len by simp
  moreover have "Suc (?n mod 256) \<le> 256" by (simp add: Suc_leI)
  ultimately have "chunk_ok (store_len (Suc (?n mod 256)) ?c)"
    using written pub by (auto simp: chunk_ok_def store_len_def less_Suc_eq)
  then have "\<forall>x \<in> set ((vs_chunks s)[?q := store_len (Suc (?n mod 256)) ?c]). chunk_ok x"
    using ok set_update_subset_insert by fastforce
  moreover have "grows s t"
    using chunk_metas_release [OF pub] len by (auto simp: w_release(1) grows_def nth_list_update CHUNK_SIZE_def)
  ultimately show ?thesis
    using assms(2) w_release(1,2) len lens_ok_release [OF lens len, of ?c] by (simp add: shared_inv_def CHUNK_SIZE_def)
next
  case (w_index is_new)
  then show ?thesis using assms(2) by (auto simp: shared_inv_def grows_def)
qed

section \<open>Invariant of the visitor\<close>

text \<open>\<open>ns\<close> are the lengths loaded for the chunks before \<open>j\<close>, \<open>old\<close> what was published in each chunk when the
  visitor started.\<close>

definition loaded_ok :: "'m list list \<Rightarrow> 'm meta_chunk list \<Rightarrow> nat \<Rightarrow> nat list \<Rightarrow> bool" where
  "loaded_ok old cs j ns \<longleftrightarrow> length ns = j \<and> j \<le> length cs \<and>
     (\<forall>i < j. ns ! i \<le> mc_published_len (cs ! i) \<and> (i < length old \<longrightarrow> length (old ! i) \<le> ns ! i))"

definition seen_prefixes :: "'m meta_chunk list \<Rightarrow> nat list \<Rightarrow> 'm list" where
  "seen_prefixes cs ns = concat (map (\<lambda>i. take (ns ! i) (chunk_metas (cs ! i))) [0..<length ns])"

definition visitor_ok :: "'m list list \<Rightarrow> 'm meta_chunk list \<Rightarrow> nat \<Rightarrow> 'm list \<Rightarrow> visitor \<Rightarrow> bool" where
  "visitor_ok old cs k seen v \<longleftrightarrow>
     (case v of
        VIdle \<Rightarrow> seen = []
      | VChunks is \<Rightarrow> \<exists>j m ns. is = [j..<m] \<and> j \<le> m \<and> length old \<le> m \<and> m \<le> k \<and> loaded_ok old cs j ns \<and>
          seen = seen_prefixes cs ns
      | VEntries i offset n is \<Rightarrow> \<exists>m ns. is = [Suc i..<m] \<and> i < m \<and> length old \<le> m \<and> m \<le> k \<and>
          offset \<le> n \<and> loaded_ok old cs (Suc i) (ns @ [n]) \<and>
          seen = seen_prefixes cs ns @ take offset (chunk_metas (cs ! i))
      | VDone \<Rightarrow> \<exists>m ns. length old \<le> m \<and> m \<le> k \<and> loaded_ok old cs m ns \<and> seen = seen_prefixes cs ns
      | VPanic e \<Rightarrow> False)"

definition visit_inv :: "'m list list \<Rightarrow> 'm visit_state \<Rightarrow> bool" where
  "visit_inv old s \<longleftrightarrow> shared_inv s \<and> length old \<le> length (vs_index s) \<and>
     (\<forall>i < length old. prefix (old ! i) (chunk_metas (vs_chunks s ! i))) \<and>
     visitor_ok old (vs_chunks s) (length (vs_index s)) (vs_seen s) (vs_visitor s)"

lemma take_prefix: "prefix xs ys \<Longrightarrow> n \<le> length xs \<Longrightarrow> take n ys = take n xs"
  by (auto simp: prefix_def)

text \<open>Growth of the memory changes nothing for the visitor.\<close>

lemma loaded_ok_grows:
  assumes "loaded_ok old (vs_chunks s) j ns" and "grows s t"
  shows "loaded_ok old (vs_chunks t) j ns" and "seen_prefixes (vs_chunks t) ns = seen_prefixes (vs_chunks s) ns"
proof -
  have pre: "prefix (chunk_metas (vs_chunks s ! i)) (chunk_metas (vs_chunks t ! i))" if "i < length (vs_chunks s)" for i
    using assms(2) that by (simp add: grows_def)
  have "mc_published_len (vs_chunks s ! i) \<le> mc_published_len (vs_chunks t ! i)" if "i < j" for i
    using prefix_length_le [OF pre [of i]] that assms(1) by (simp add: loaded_ok_def)
  then show "loaded_ok old (vs_chunks t) j ns"
    using assms by (fastforce simp: loaded_ok_def grows_def)
  show "seen_prefixes (vs_chunks t) ns = seen_prefixes (vs_chunks s) ns"
    unfolding seen_prefixes_def using assms(1)
    by (intro arg_cong [of _ _ concat] map_cong refl take_prefix pre) (auto simp: loaded_ok_def)
qed

lemma visitor_ok_grows:
  assumes "visitor_ok old (vs_chunks s) (length (vs_index s)) seen v" and "grows s t"
  shows "visitor_ok old (vs_chunks t) (length (vs_index t)) seen v"
proof -
  note more = loaded_ok_grows [OF _ assms(2)]
  have k: "length (vs_index s) \<le> length (vs_index t)" using assms(2) by (simp add: grows_def)
  show ?thesis
  proof (cases v)
    case (VEntries i offset n "is")
    with assms(1) obtain m ns where a: "is = [Suc i..<m]" "i < m" "length old \<le> m" "m \<le> length (vs_index s)" "offset \<le> n"
      "loaded_ok old (vs_chunks s) (Suc i) (ns @ [n])" "seen = seen_prefixes (vs_chunks s) ns @ take offset (chunk_metas (vs_chunks s ! i))"
      by (auto simp: visitor_ok_def)
    have "loaded_ok old (vs_chunks s) i ns" and b: "length ns = i" "n \<le> mc_published_len (vs_chunks s ! i)" "i < length (vs_chunks s)"
      using a(6) by (auto simp: loaded_ok_def nth_append less_Suc_eq split: if_splits)
    moreover have "take offset (chunk_metas (vs_chunks t ! i)) = take offset (chunk_metas (vs_chunks s ! i))"
      using assms(2) b a(5) by (intro take_prefix) (auto simp: grows_def)
    ultimately show ?thesis
      unfolding VEntries visitor_ok_def visitor.case using a k more(1) [OF a(6)] more(2) [of old i ns]
      by (intro exI [of _ m] exI [of _ ns]) simp
  qed (use assms(1) k more in \<open>fastforce simp: visitor_ok_def\<close>)+
qed

lemma chunk_get_ok:
  assumes "chunk_ok c" and "offset < mc_published_len c"
  shows "chunk_get c offset = Inr (chunk_metas c ! offset)"
  using assms by (auto simp: chunk_get_def chunk_ok_def chunk_metas_def assume_init_def split: option.splits)

lemma seen_prefixes_snoc:
  "seen_prefixes cs (ns @ [n]) = seen_prefixes cs ns @ take n (chunk_metas (cs ! length ns))"
proof -
  have "map (\<lambda>i. take ((ns @ [n]) ! i) (chunk_metas (cs ! i))) [0..<length ns] =
      map (\<lambda>i. take (ns ! i) (chunk_metas (cs ! i))) [0..<length ns]"
    by (simp add: nth_append)
  then show ?thesis by (simp add: seen_prefixes_def del: map_eq_conv)
qed

lemma upt_Cons_iff: "i # is = [j..<m] \<longleftrightarrow> i = j \<and> j < m \<and> is = [Suc j..<m]"
  by (cases "j < m") (auto simp: upt_conv_Cons)

lemma visitor_step_ok:
  assumes "visitor_step s t" and "visit_inv old s"
  shows "visit_inv old t"
proof -
  let ?cs = "vs_chunks s" and ?k = "length (vs_index s)"
  have shared: "shared_inv s" and old: "length old \<le> ?k" "\<forall>i < length old. prefix (old ! i) (chunk_metas (?cs ! i))"
    and v: "visitor_ok old ?cs ?k (vs_seen s) (vs_visitor s)"
    using assms(2) by (simp_all add: visit_inv_def)
  have k: "?k \<le> length ?cs" and idx: "vs_index s = [0..<?k]" and ok: "\<forall>c \<in> set ?cs. chunk_ok c"
    using shared by (simp_all add: shared_inv_def index_ok_def)
  have frame: "visit_inv old (s\<lparr>vs_visitor := v', vs_seen := seen'\<rparr>)" if "visitor_ok old ?cs ?k seen' v'" for v' seen'
    using that shared old by (simp add: visit_inv_def shared_inv_def)
  from assms(1) show ?thesis
  proof cases
    case v_index
    have "visitor_ok old ?cs ?k (vs_seen s) (VChunks (vs_index s))"
      unfolding visitor_ok_def visitor.case using v v_index(2) idx old(1)
      by (intro exI [of _ 0] exI [of _ ?k] exI [of _ "[]"]) (simp add: visitor_ok_def loaded_ok_def seen_prefixes_def)
    from frame [OF this] show ?thesis by (simp add: v_index(1))
  next
    case (v_len i "is" c)
    with v obtain m ns where a: "i < m" "is = [Suc i..<m]" "length old \<le> m" "m \<le> ?k" "loaded_ok old ?cs i ns"
      "vs_seen s = seen_prefixes ?cs ns" by (auto simp: visitor_ok_def upt_Cons_iff)
    have c: "c = ?cs ! i" "i < length ?cs" using v_len(3) a(1,4) k by simp_all
    have "length (old ! i) \<le> mc_published_len c" if "i < length old"
      using old(2) that c(1) prefix_length_le by fastforce
    then have "loaded_ok old ?cs (Suc i) (ns @ [mc_published_len c])"
      using a(5) c by (auto simp: loaded_ok_def nth_append less_Suc_eq)
    with a have "visitor_ok old ?cs ?k (vs_seen s) (VEntries i 0 (mc_published_len c) is)"
      unfolding visitor_ok_def visitor.case by (intro exI [of _ m] exI [of _ ns]) simp
    from frame [OF this] show ?thesis by (simp add: v_len(1))
  next
    case (v_index_panic i "is" e)
    with v have "i < ?k" by (auto simp: visitor_ok_def upt_Cons_iff)
    with v_index_panic(3) k show ?thesis by simp
  next
    case v_done
    with v obtain j m ns where "[] = [j..<m]" "j \<le> m" "length old \<le> m" "m \<le> ?k" "loaded_ok old ?cs j ns"
      "vs_seen s = seen_prefixes ?cs ns" unfolding visitor_ok_def by (simp only: visitor.case) (elim exE conjE)
    moreover from this(1,2) have "j = m" by (metis le_neq_implies_less list.distinct(1) upt_conv_Cons)
    ultimately have "visitor_ok old ?cs ?k (vs_seen s) VDone"
      unfolding visitor_ok_def visitor.case by (intro exI [of _ m] exI [of _ ns]) simp
    from frame [OF this] show ?thesis by (simp add: v_done(1))
  next
    case (v_read i offset n "is" x)
    with v obtain m ns where a: "is = [Suc i..<m]" "i < m" "length old \<le> m" "m \<le> ?k"
      "loaded_ok old ?cs (Suc i) (ns @ [n])" "vs_seen s = seen_prefixes ?cs ns @ take offset (chunk_metas (?cs ! i))"
      by (auto simp: visitor_ok_def)
    have pub: "offset < mc_published_len (?cs ! i)" "i < length ?cs"
      using a(5) v_read(3) by (auto simp: loaded_ok_def nth_append dest!: spec [of _ i])
    then have "x = chunk_metas (?cs ! i) ! offset" using v_read(4) ok chunk_get_ok [of "?cs ! i" offset] by simp
    then have "vs_seen s @ [x] = seen_prefixes ?cs ns @ take (Suc offset) (chunk_metas (?cs ! i))"
      using a(6) pub by (simp add: take_Suc_conv_app_nth)
    with a v_read(3) have "visitor_ok old ?cs ?k (vs_seen s @ [x]) (VEntries i (Suc offset) n is)"
      unfolding visitor_ok_def visitor.case by (intro exI [of _ m] exI [of _ ns]) simp
    from frame [OF this] show ?thesis by (simp add: v_read(1))
  next
    case (v_panic i offset n "is" e)
    with v have "offset < mc_published_len (?cs ! i)" "i < length ?cs"
      by (auto simp: visitor_ok_def loaded_ok_def nth_append dest!: spec [of _ i])
    with v_panic(4) ok chunk_get_ok [of "?cs ! i" offset] show ?thesis by simp
  next
    case (v_next i n "is")
    with v obtain m ns where a: "is = [Suc i..<m]" "i < m" "length old \<le> m" "m \<le> ?k"
      "loaded_ok old ?cs (Suc i) (ns @ [n])" "vs_seen s = seen_prefixes ?cs ns @ take n (chunk_metas (?cs ! i))"
      by (auto simp: visitor_ok_def)
    have "length ns = i" using a(5) by (simp add: loaded_ok_def)
    with a have "visitor_ok old ?cs ?k (vs_seen s) (VChunks is)"
      unfolding visitor_ok_def visitor.case
      by (intro exI [of _ "Suc i"] exI [of _ m] exI [of _ "ns @ [n]"]) (simp add: seen_prefixes_snoc)
    from frame [OF this] show ?thesis by (simp add: v_next(1))
  qed
qed

lemma visit_run_inv: "visit_run s t \<Longrightarrow> visit_inv old s \<Longrightarrow> visit_inv old t"
proof (induction rule: visit_run.induct)
  case (writer t u)
  have inv: "visit_inv old t" by (rule writer.IH [OF writer.prems])
  have t: "shared_inv u" "grows t u" "vs_visitor u = vs_visitor t" "vs_seen u = vs_seen t"
    using writer_step_ok [OF writer.hyps(2)] inv by (simp_all add: visit_inv_def)
  have len: "length old \<le> length (vs_chunks t)" using inv by (simp add: visit_inv_def shared_inv_def)
  have "prefix (old ! i) (chunk_metas (vs_chunks u ! i))" if "i < length old" for i
  proof (rule prefix_order.trans)
    show "prefix (old ! i) (chunk_metas (vs_chunks t ! i))" using inv that by (simp add: visit_inv_def)
    show "prefix (chunk_metas (vs_chunks t ! i)) (chunk_metas (vs_chunks u ! i))"
      using t(2) that len by (simp add: grows_def)
  qed
  moreover have "visitor_ok old (vs_chunks u) (length (vs_index u)) (vs_seen t) (vs_visitor t)"
    by (rule visitor_ok_grows [OF _ t(2)]) (use inv in \<open>simp add: visit_inv_def\<close>)
  ultimately show ?case using inv t by (simp add: visit_inv_def grows_def)
next
  case (visitor t u)
  then show ?case using visitor_step_ok by blast
qed

lemma visitor_progress:
  assumes "visitor_ok old (vs_chunks t) k (vs_seen t) (vs_visitor t)" and "\<forall>c \<in> set (vs_chunks t). chunk_ok c"
    and "k \<le> length (vs_chunks t)"
  shows "vs_visitor t = VDone \<or> (\<exists>u. visitor_step t u)"
proof (cases "vs_visitor t")
  case VIdle
  then show ?thesis using visitor_step.v_index by blast
next
  case (VChunks xs)
  show ?thesis
  proof (cases xs)
    case Nil
    with VChunks show ?thesis using visitor_step.v_done by blast
  next
    case (Cons i ys)
    with VChunks assms have "index_at (vs_chunks t) i = Inr (vs_chunks t ! i)"
      by (auto simp: visitor_ok_def upt_Cons_iff)
    with VChunks Cons show ?thesis using visitor_step.v_len by blast
  qed
next
  case (VEntries i offset n ys)
  show ?thesis
  proof (cases "offset < n")
    case True
    then show ?thesis
      using VEntries visitor_step.v_read [OF VEntries True] visitor_step.v_panic [OF VEntries True]
      by (cases "chunk_get (vs_chunks t ! i) offset") blast+
  next
    case False
    with VEntries assms(1) have "offset = n" by (auto simp: visitor_ok_def)
    with VEntries show ?thesis using visitor_step.v_next by blast
  qed
qed (use assms(1) in \<open>auto simp: visitor_ok_def\<close>)

text \<open>What was seen lies between what was published when the visitor started and what is published now.\<close>

lemma seen_between:
  fixes s t :: "'m visit_state"
  defines "old \<equiv> map (\<lambda>i. chunk_metas (vs_chunks s ! i)) (vs_index s)"
  assumes "length old \<le> m" and "m \<le> length (vs_index t)" and "loaded_ok old (vs_chunks t) m ns"
    and "\<forall>i < length old. prefix (old ! i) (chunk_metas (vs_chunks t ! i))"
    and "vs_index t = [0..<length (vs_index t)]"
  shows "subseq (published s) (seen_prefixes (vs_chunks t) ns) \<and> subseq (seen_prefixes (vs_chunks t) ns) (published t)"
proof
  have len: "length ns = m" using assms(4) by (simp add: loaded_ok_def)
  let ?seen = "map (\<lambda>i. take (ns ! i) (chunk_metas (vs_chunks t ! i))) [0..<m]"
  have "subseq (concat old) (concat ?seen)"
  proof (rule subseq_concat)
    show "length old \<le> length ?seen" using assms(2) by simp
    fix i assume i: "i < length old"
    then have "length (old ! i) \<le> ns ! i" using assms(2,4) by (simp add: loaded_ok_def)
    moreover obtain zs where "chunk_metas (vs_chunks t ! i) = old ! i @ zs" using assms(5) i by (auto simp: prefix_def)
    ultimately have "prefix (old ! i) (?seen ! i)" using i assms(2) by simp
    then show "subseq (old ! i) (?seen ! i)" by (rule prefix_imp_subseq)
  qed
  then show "subseq (published s) (seen_prefixes (vs_chunks t) ns)"
    by (simp add: published_def old_def seen_prefixes_def len)
  have now: "published t = concat (map (\<lambda>i. chunk_metas (vs_chunks t ! i)) [0..<length (vs_index t)])"
    unfolding published_def by (subst assms(6)) (rule refl)
  have "subseq (concat ?seen) (published t)"
    unfolding now using assms(3) by (intro subseq_concat) (auto intro: prefix_imp_subseq take_is_prefix)
  then show "subseq (seen_prefixes (vs_chunks t) ns) (published t)" by (simp add: seen_prefixes_def len)
qed

section \<open>Properties\<close>

text \<open>C6: Visiting is safe under concurrent registration. In every interleaving of a registering writer
  and a visitor, the visitor never touches an entry that is not initialised, never fails an assertion
  and is never stuck; when it is done it has seen, in order, everything published before it started,
  and nothing that is not published, each entry at most once.\<close>

theorem concurrent_visit:
  assumes "visit_run visit_init s" and "vs_visitor s = VIdle" and "visit_run s t"
  shows "(\<forall>e. vs_visitor t \<noteq> VPanic e \<and> vs_writer t \<noteq> WPanic e) \<and>
    (vs_visitor t = VDone \<or> (\<exists>u. visitor_step t u)) \<and>
    (vs_visitor t = VDone \<longrightarrow> subseq (published s) (vs_seen t) \<and> subseq (vs_seen t) (published t))"
proof -
  have "visit_inv [] (visit_init :: 'a visit_state)"
    by (simp add: visit_inv_def shared_inv_init visitor_ok_def) (simp add: visit_init_def)
  note s = visit_run_inv [OF assms(1) this]
  let ?old = "map (\<lambda>i. chunk_metas (vs_chunks s ! i)) (vs_index s)"
  have idx: "\<And>i. i < length (vs_index s) \<Longrightarrow> vs_index s ! i = i"
    using s by (simp add: visit_inv_def shared_inv_def index_ok_def) (metis add_0 nth_upt)
  have "visit_inv ?old s"
    using s assms(2) by (simp add: visit_inv_def visitor_ok_def idx)
  note t = visit_run_inv [OF assms(3) this]
  have inv: "shared_inv t" using t by (simp add: visit_inv_def)
  have v: "visitor_ok ?old (vs_chunks t) (length (vs_index t)) (vs_seen t) (vs_visitor t)"
    using t unfolding visit_inv_def by (elim conjE)
  have pre: "\<forall>i < length ?old. prefix (?old ! i) (chunk_metas (vs_chunks t ! i))"
    using t unfolding visit_inv_def by (elim conjE)
  have ok: "\<forall>c \<in> set (vs_chunks t). chunk_ok c" "vs_index t = [0..<length (vs_index t)]"
    and k: "length (vs_index t) \<le> length (vs_chunks t)"
    using inv by (simp_all add: shared_inv_def index_ok_def)
  have "(\<forall>e. vs_visitor t \<noteq> VPanic e)" using v by (auto simp: visitor_ok_def)
  moreover have "(\<forall>e. vs_writer t \<noteq> WPanic e)" using inv by (auto simp: shared_inv_def)
  moreover have "vs_visitor t = VDone \<or> (\<exists>u. visitor_step t u)"
    using visitor_progress [OF v ok(1) k] .
  moreover have "subseq (published s) (vs_seen t) \<and> subseq (vs_seen t) (published t)" if "vs_visitor t = VDone"
  proof -
    from v that obtain m ns where m: "length ?old \<le> m" "m \<le> length (vs_index t)" "loaded_ok ?old (vs_chunks t) m ns"
      "vs_seen t = seen_prefixes (vs_chunks t) ns" by (auto simp: visitor_ok_def)
    show ?thesis unfolding m(4) by (rule seen_between [OF m(1-3) pre ok(2)])
  qed
  ultimately show ?thesis by blast
qed

theorem concurrent_visit_witness:
  "\<exists>s1 s2 t :: nat visit_state. visit_run visit_init s1 \<and> writer_step s1 s2 \<and> vs_writer s2 \<noteq> WIdle \<and>
     visit_run s2 t \<and> vs_visitor t = VDone \<and> subseq (vs_seen t) (published t)"
proof -
  let ?s1 = "visit_init :: nat visit_state"
  let ?s2 = "?s1\<lparr>vs_chunks := [meta_chunk_new], vs_writer := WWrite 7 True\<rparr>"
  have w: "writer_step ?s1 ?s2" using writer_step.w_enter [of ?s1 True 7] by (simp add: visit_init_def)
  have run: "visit_run ?s1 ?s2" by (rule visit_run.writer [OF visit_run.here w])
  let ?t1 = "?s2\<lparr>vs_visitor := VChunks []\<rparr>"
  have "visitor_step ?s2 ?t1" using visitor_step.v_index [of ?s2] by (simp add: visit_init_def)
  moreover have "visitor_step ?t1 (?t1\<lparr>vs_visitor := VDone\<rparr>)" using visitor_step.v_done [of ?t1] by simp
  ultimately have t: "visit_run ?s2 (?t1\<lparr>vs_visitor := VDone\<rparr>)"
    by (blast intro: visit_run.here visit_run.visitor)
  have "vs_visitor ?s2 = VIdle" by (simp add: visit_init_def)
  from concurrent_visit [OF run this t] have "subseq (vs_seen (?t1\<lparr>vs_visitor := VDone\<rparr>)) (published (?t1\<lparr>vs_visitor := VDone\<rparr>))"
    by simp
  with w run t visit_run.here [of ?s1] show ?thesis
    by (intro exI [of _ ?s1] exI [of _ ?s2] exI [of _ "?t1\<lparr>vs_visitor := VDone\<rparr>"]) simp
qed

text \<open>C32: The steps are those of the code: the memory effects of one allocation, run without
  interruption, take the shared state to exactly the state that \<open>allocate\<close> computes, and leave the visitor alone.\<close>

theorem allocate_steps:
  assumes "log_alloc d mk l = Inr (p, l')" and "vs_chunks s = cl_chunks l" and "vs_len s = cl_len l"
    and "vs_index s = cl_index l" and "vs_writer s = WIdle"
  shows "\<exists>s1 s2 s3 t. writer_step s s1 \<and> writer_step s1 s2 \<and> writer_step s2 s3 \<and> writer_step s3 t \<and>
    vs_chunks t = cl_chunks l' \<and> vs_len t = cl_len l' \<and> vs_index t = cl_index l' \<and> vs_writer t = WIdle \<and>
    vs_visitor t = vs_visitor s \<and> vs_seen t = vs_seen s"
proof -
  let ?q = "cl_len l div CHUNK_SIZE" and ?r = "cl_len l mod CHUNK_SIZE"
  define is_new where "is_new = (length (cl_chunks l) \<le> ?q)"
  define cs where "cs = (if is_new then cl_chunks l @ [meta_chunk_new] else cl_chunks l)"
  obtain c c' where c: "index_at cs ?q = Inr c" "write_entry ?r (mk ?q ?r) c = Inr c'" "mc_published_len c = ?r"
    and l': "cl_chunks l' = cs[?q := store_len (?r + 1) c']" "cl_len l' = cl_len l + 1"
      "cl_index l' = (if is_new then [0..<length cs] else cl_index l)"
    using assms(1)
    by (auto simp: log_alloc_unfold publish_def Let_def res_bind_Inr_iff assert_or_def cs_def is_new_def
        simp del: upt_Suc split: if_splits)
  let ?s1 = "s\<lparr>vs_chunks := cs, vs_writer := WWrite (mk ?q ?r) is_new\<rparr>"
  let ?s2 = "?s1\<lparr>vs_chunks := cs[?q := c'], vs_writer := WStore is_new\<rparr>"
  let ?s3 = "?s2\<lparr>vs_chunks := cs[?q := store_len (?r + 1) c'], vs_writer := WIndex is_new\<rparr>"
  let ?t = "?s3\<lparr>vs_len := cl_len l + 1, vs_index := (if is_new then [0..<length cs] else cl_index l), vs_writer := WIdle\<rparr>"
  have q: "?q < length cs" using c(1) by (simp add: index_at_def split: if_splits)
  have "is_new = (length (vs_chunks s) \<le> vs_len s div CHUNK_SIZE)" by (simp add: is_new_def assms(2,3))
  from writer_step.w_enter [OF assms(5) this, of "mk ?q ?r"] have "writer_step s ?s1"
    by (simp only: cs_def assms(2))
  moreover have "writer_step ?s1 ?s2"
    using writer_step.w_write [of ?s1 "mk ?q ?r" is_new c c'] c assms(3) by simp
  moreover have "writer_step ?s2 ?s3"
    using writer_step.w_release [of ?s2 is_new] q assms(3) by simp
  moreover have "writer_step ?s3 ?t"
    using writer_step.w_index [of ?s3 is_new] assms(3,4) by (cases is_new) (simp_all del: upt_Suc)
  ultimately show ?thesis
    using l' by (intro exI [of _ ?s1] exI [of _ ?s2] exI [of _ ?s3] exI [of _ ?t]) (simp del: upt_Suc)
qed

theorem allocate_steps_witness:
  "\<exists>p l' s1 s2 s3 t. log_alloc (0 :: nat) (\<lambda>i j. (i, j)) \<lparr>cl_slots = [], cl_chunks = [], cl_len = 0, cl_index = []\<rparr> =
      Inr (p, l' :: (nat, nat \<times> nat) chunk_log) \<and>
     writer_step visit_init s1 \<and> writer_step s1 s2 \<and> writer_step s2 s3 \<and> writer_step s3 t \<and> vs_chunks t = cl_chunks l'"
proof -
  let ?l = "\<lparr>cl_slots = [], cl_chunks = [], cl_len = 0, cl_index = []\<rparr> :: (nat, nat \<times> nat) chunk_log"
  obtain p l' where l': "log_alloc 0 (\<lambda>i j. (i, j)) ?l = Inr (p, l')"
    by (simp add: log_alloc_defs publish_def write_entry_def Let_def meta_chunk_new_def CHUNK_SIZE_def)
  have "vs_chunks visit_init = cl_chunks ?l" "vs_len (visit_init :: (nat \<times> nat) visit_state) = cl_len ?l"
    "vs_index (visit_init :: (nat \<times> nat) visit_state) = cl_index ?l" "vs_writer (visit_init :: (nat \<times> nat) visit_state) = WIdle"
    by (simp_all add: visit_init_def)
  from allocate_steps [OF l' this] l' show ?thesis by blast
qed

end
