(* ===== verification/Spec2Isabelle.thy ===== *)
theory Spec2Isabelle
  imports Prometheus_Lines Prometheus_Values Metrics_Api Concurrent_Visit
begin

text \<open>
  A verification development for \<^verbatim>\<open>brz-metrics\<close>, a process-wide registry of cumulative metrics with a
  streaming Prometheus reader (Rust, under \<^verbatim>\<open>src/src/\<close>).

  \<^bold>\<open>The program.\<close> Producers register a metric by name, by resource labels or by an export plan and get
  a small copyable handle. The registry is split into 64 shards; a shard is a hash map from identities
  to slots plus an append-only log of metadata in chunks of 256 entries, whose index is replaced
  copy-on-write when a chunk is added. Recording is a few relaxed \<open>fetch_add\<close> on the slot behind the
  handle. Counters, gauges and connection metrics live in a second registry of the same shape with
  one-word slots; RPC states are a map of strings. Observers (\<open>visit\<close>, \<open>len\<close>, the reader) take no lock:
  they walk the published prefixes of the logs. The reader captures the views of all metrics, sorts
  them, and encodes one line per call into a buffer that \<open>read\<close> and \<open>poll_read\<close> copy out.

  \<^bold>\<open>Theories, in the order of the code.\<close>
  \<^item> \<open>Metrics_Prelude\<close>: machine integers at their width, panics as values (\<open>result\<close>), decimal rendering,
    runs of equal keys, interleavings of threads and the locale \<open>commuting_steps\<close>.
  \<^item> \<open>Resource_Labels\<close> (\<^verbatim>\<open>resource.rs\<close>), \<open>Metric_Types\<close> (\<open>MetricType\<close> of \<^verbatim>\<open>metric.rs\<close>, \<^verbatim>\<open>plan.rs\<close>): the data with
    its derived orders, the tables on it, the plan builders.
  \<^item> \<open>Metric_Slot\<close> (\<^verbatim>\<open>metric.rs\<close>): the six counters; \<open>record\<close>, \<open>increment\<close> and \<open>snapshot\<close> as sequences of
    atomic steps.
  \<^item> \<open>Chunk_Log\<close> (\<open>MetaChunk\<close>, \<open>ShardIndex\<close>, \<open>allocate\<close> of \<^verbatim>\<open>registry.rs\<close>): the log of one shard, with
    uninitialised cells, debug assertions and slot addresses as they are.
  \<^item> \<open>Keyed_Registry\<close>: the contracts. The locale \<open>keyed_registry\<close> states what a registry promises (a map
    from keys to handles, fresh zeroed slots, no aliasing), with its clients' lemmas; \<open>shard_registry\<close> and
    \<open>sharded_registry\<close> lift a contract of one shard to an array of shards.
  \<^item> \<open>Metric_Shard\<close>, \<open>Scalar_Shard\<close>: one shard of each registry, as instances of that contract.
  \<^item> \<open>State_Registry\<close> (\<^verbatim>\<open>state.rs\<close>), \<open>Scalar_Registry\<close> (\<^verbatim>\<open>scalar.rs\<close>), \<open>Registry\<close> (\<open>Registry\<close> of \<^verbatim>\<open>registry.rs\<close>
    and \<open>Metric\<close> of \<^verbatim>\<open>metric.rs\<close>).
  \<^item> \<open>Registry_Run\<close>: the lifetime of the registry as an inductive step relation.
  \<^item> \<open>Concurrent_Visit\<close>: one registration and one visit interleaved access by access.
  \<^item> \<open>Rust_F64\<close>: \<open>str::parse::<f64>\<close> (correctly rounded) and the shortest-digits \<open>Display\<close> of \<open>f64\<close>, which
    the reader applies to state values.
  \<^item> \<open>Prometheus_Source\<close>, \<open>Prometheus_Reader\<close> (\<^verbatim>\<open>prometheus.rs\<close>): what a reader captures and how it encodes;
    \<open>Prometheus_Text\<close>: the reference text, without cursors and buffers, and the proof that the reader
    streams it; \<open>Byte_Stream\<close>: the contract of \<open>std::io::Read\<close> as a locale; \<open>Prometheus_Scrape\<close>: a scrape of a
    live registry, interpreting that contract; \<open>Prometheus_Series\<close>, \<open>Prometheus_Values\<close>, \<open>Prometheus_Lines\<close>:
    what the text says.
  \<^item> \<open>Metrics_Api\<close> (\<^verbatim>\<open>lib.rs\<close> and the constructors of \<^verbatim>\<open>metric.rs\<close>): the public entry points on the process-wide
    \<open>OnceLock\<close>.

  \<^bold>\<open>State and time.\<close> An operation takes the state and returns a result: a value with the new state, or the
  panic (failed assertion, index out of bounds, read of an uninitialised cell, dangling pointer).
  Registrations run under a mutex and are one step; recording is split into its atomic steps, and the
  concurrency properties hold for every interleaving of them. Observers take no lock, so what they read
  is read at different moments: \<open>registry_for_each_meta_at\<close>, \<open>registry_visit_at\<close>, \<open>scalar_for_each_at\<close> and
  \<open>from_registry_at\<close> take the registry at each of these moments, and \<open>moments\<close> says that each is a state the
  process can have reached since the one before; the definitions without \<open>_at\<close> are the same operations when
  nothing happens meanwhile. A reader loads a slot at some moment of the scrape: \<open>env f i\<close> is the registry
  when source \<open>i\<close> is loaded for family \<open>f\<close>, and \<open>later\<close> says that it is a state the process can have reached
  since the reader was created.

  \<^bold>\<open>What is shown.\<close>
  \<^item> Registry: it refines a map from identities to counters; any registrations from empty; an identity
    keeps its handle and its first plan for ever; a visit reports every identity once with its own
    counters; no observer panics in a reachable state; threads recording through any handles lose no
    update; a snapshot taken meanwhile lies between the counters before and after, and one taken when all
    calls are done is exact in every field; a visit or the creation of a reader while others register sees
    everything registered before it began and nothing that is not registered when it ends.
  \<^item> Visiting during a registration: no uninitialised entry is read, everything published before is seen,
    nothing unpublished is; the steps compute what \<open>allocate\<close> computes.
  \<^item> Scalars: idempotent registration without aliasing, signed gauges with wrap-around, the number of live
    connection guards as an invariant, concurrent connects and disconnects, which constructors panic.
  \<^item> Reader: streaming is independent of the read sizes, ends, and is the same for \<open>poll_read\<close>; the samples of
    a family are the captured views in order without duplicate series; counters add up with saturation,
    gauges with sign; durations are rounded correctly; label values and state values round-trip; every
    line is one line and the TYPE headers are complete.
  \<^item> Across components: a metric recorded through from any threads and then scraped with any read sizes
    appears in the text with its previous count plus the calls made (in this theory).
  \<^item> Entry points: which constructors panic and with which message, what each typed constructor exports
    (in this theory), the rows of \<open>visit\<close>.

  \<^bold>\<open>Termination and bounds.\<close> Every loop of the reader is a total function: the inner loops by the number of
  sources left, the family loop by the families left, the copying loops by a lexicographic measure of
  the lines and bytes left (\<open>work\<close>); no fuel is used. Slot counters are 64-bit words and wrap; sums in the
  reader saturate; \<open>usize\<close> values that count elements are natural numbers.

  \<^bold>\<open>Parameters.\<close> The keyed hashes that select a shard (ahash) and the order of hash map iteration, the
  addresses of slots (the allocator; different slots have different addresses), tokio's \<open>ReadBuf\<close>
  (\<open>put_slice\<close> appends what fits) and the \<open>Display\<close> of the caller's state keys and values.

  \<^bold>\<open>Not modelled.\<close> Memory orders weaker than an interleaving of accesses (the release and acquire pairs are
  the program order of the steps of \<open>Concurrent_Visit\<close>); the reclamation of replaced indexes (\<open>ArcSwap\<close>); lock
  poisoning; allocation failure and the sharing of strings between views, which have no observable
  effect on results; the build script, the tests and the benchmarks.
\<close>

section \<open>Properties that span components\<close>

lemma increments_exact:
  assumes "registry_inv reg" and "registry_find reg k = Some m" and "registry_abs reg k = Some s"
    and "interleave (map metric_thread threads) zs"
    and "\<forall>e \<in> set (concat threads). fst e \<in> ran (registry_find reg)"
    and "run_steps (\<lambda>(m, z). metric_step m z) zs reg = Inr reg'"
  shows "registry_inv reg'" and "registry_find reg' = registry_find reg" and "load_item Total reg' (TimingItem (m_item m)) =
      Inr (word_of_nat (unat (sl_count s) + length (calls_on m (concat threads))))"
proof -
  from recording_counts [OF assms(1,4,5)] obtain reg1 where
    r1: "run_steps (\<lambda>(m, z). metric_step m z) zs reg = Inr reg1" "registry_inv reg1"
      "registry_find reg1 = registry_find reg" and
    ab: "\<forall>k m s. registry_find reg k = Some m \<longrightarrow> registry_abs reg k = Some s \<longrightarrow>
      (\<exists>s'. registry_abs reg1 k = Some s' \<and> (\<forall>c. counter_read c s' = counter_read c s +
           word_of_nat (amounts (key_policy k) c (calls_on m (concat threads)))))" by (elim exE conjE)
  have reg': "reg1 = reg'" using r1(1) assms(6) by simp
  then show inv: "registry_inv reg'" and "registry_find reg' = registry_find reg" using r1(2,3) by simp_all
  obtain s' where s': "registry_abs reg' k = Some s'" "counter_read Total s' = counter_read Total s +
      word_of_nat (amounts (key_policy k) Total (calls_on m (concat threads)))"
    using ab [rule_format, OF assms(2,3)] reg' by blast
  have "registry_slot (m_item m) reg' = Inr s'"
    by (rule registry_abs_find [OF inv, of k m]) (use r1(3) reg' assms(2) s'(1) in auto)
  then show "load_item Total reg' (TimingItem (m_item m)) =
      Inr (word_of_nat (unat (sl_count s) + length (calls_on m (concat threads))))"
    using s'(2) by (simp add: amounts_Total)
qed

lemma captured_single:
  assumes "registry_inv reg" and "registry_find reg (NameKey name kind) = Some m"
  shows "single_source name kind (m_item m) \<in> set (captured reg)"
proof -
  obtain x where x: "x \<in> set (registry_metas reg)" "profile_key (mm_profile x) = NameKey name kind"
    "m = from_item (mm_item x) (key_policy (NameKey name kind))"
    by (rule registry_find_meta [OF assms])
  have "mm_profile x = Single name kind" using x(2) by (cases "mm_profile x") simp_all
  with x(1,3) show ?thesis
    by (force simp: captured_def timing_sources_def single_source_def from_item_def split_beta)
qed

text \<open>C3: What is recorded is what is scraped. A metric is registered by name, any threads record through
  any registered handles in any interleaving, and then a reader is read to its end with any buffer
  sizes: the text contains the line of the metric's series in \<open>brz_req_total\<close> with the previous count
  plus the number of calls made through its handle, modulo 2 to the 64, provided that no other slot
  exports the same series.\<close>

theorem recorded_is_scraped:
  assumes "registry_inv reg" and "registry_find reg (NameKey name kind) = Some m"
    and "registry_abs reg (NameKey name kind) = Some s" and "single_view name kind = (out, SkFull)"
    and "interleave (map metric_thread threads) zs"
    and "\<forall>e \<in> set (concat threads). fst e \<in> ran (registry_find reg)"
    and "run_steps (\<lambda>(m, z). metric_step m z) zs reg = Inr reg'"
    and "plans_built reg'" and "addresses_ok tmem smem (captured reg')"
    and "\<forall>x \<in> set (captured reg'). view_of x = (out, SkFull) \<longrightarrow> so_item x = TimingItem (m_item m)"
    and "\<forall>n \<in> set ns. 0 < n"
    and "length (concat (scrape_lines (\<lambda>_ _. reg') (sorted_sources tmem smem (captured reg'))
      (registry_state_snapshot reg'))) \<le> length ns"
  shows "\<exists>r chunks r'. from_registry tmem smem reg' = Inr r \<and>
    run_all (reader_read (\<lambda>_ _. reg')) ns r = Inr (chunks, r') \<and>
    series_text ''brz_req_total'' out SkFull @
      show_nat ((unat (sl_count s) + length (calls_on m (concat threads))) mod 2 ^ 64) @ [newline]
      \<in> set (split_lines (concat chunks))"
proof -
  let ?env = "\<lambda>_ _ :: nat. reg'"
  let ?n = "(unat (sl_count s) + length (calls_on m (concat threads))) mod 2 ^ 64"
  note exact = increments_exact [OF assms(1-3,5-7)]
  have late: "later reg' ?env" by (simp add: later_def registry_run.here)
  obtain r where r: "from_registry tmem smem reg' = Inr r" using from_registry_ok [OF exact(1)] by blast
  note c = from_registry_content [OF exact(1) late r]
  have len: "length (content ?env r) \<le> length ns" using assms(12) by (simp only: c(2-4))
  from scrape.reads_to_end [OF c(1) assms(11) len] obtain chunks r' where
    read: "run_all (reader_read ?env) ns r = Inr (chunks, r')" "concat chunks = content ?env r" by (elim exE conjE)
  have lines: "split_lines (concat chunks) =
      scrape_lines ?env (sorted_sources tmem smem (captured reg')) (registry_state_snapshot reg')"
    unfolding read(2) c(2) c(3,4) by (rule split_concat [OF scrape_lines_are_lines])
  define x where "x = single_source name kind (m_item m)"
  have x: "x \<in> set (captured reg')" "view_of x = (out, SkFull)" "so_item x = TimingItem (m_item m)"
    using captured_single [OF exact(1), of name kind m] exact(2) assms(2,4)
    by (simp_all add: x_def single_source_def view_of_def)
  have F: "FAMILIES ! 0 = (''brz_req_total'', Total, False)" "(0 :: nat) < 8" by (simp_all add: FAMILIES_def)
  from counter_lines [OF exact(1) late assms(8,9) F(2,1)] obtain load where
    load: "\<forall>s \<in> set (captured reg'). \<exists>i :: nat. load_item Total reg' (so_item s) = Inr (load s)" and
    fam: "family_lines ?env (sorted_sources tmem smem (captured reg')) 0 0 =
      map (\<lambda>v. let n = min (\<Sum>s | s \<in> set (captured reg') \<and> view_of s = v. unat (load s)) (2 ^ 64 - 1)
               in series_text ''brz_req_total'' (fst v) (snd v) @
                  (if False then seconds_text (word_of_nat n) else show_nat n) @ [newline])
        (sorted_list_of_set (exported_views (captured reg') 0))" by (elim exE conjE)
  have only: "{y. y \<in> set (captured reg') \<and> view_of y = (out, SkFull)} = {x}"
    using x assms(10) by (auto simp: view_of_def intro!: source.equality)
  have "load_item Total reg' (so_item x) = Inr (load x)" using load x(1) by blast
  then have "load x = word_of_nat (unat (sl_count s) + length (calls_on m (concat threads)))"
    unfolding x(3) exact(3) by (rule sum.inject(2) [THEN iffD1, symmetric])
  then have "unat (load x) = ?n" by (simp only: unat_of_nat) simp
  moreover have "?n \<le> 2 ^ 64 - 1" by (simp add: less_Suc_eq_le [symmetric])
  ultimately have n: "min (\<Sum>y | y \<in> set (captured reg') \<and> view_of y = (out, SkFull). unat (load y)) (2 ^ 64 - 1) = ?n"
    unfolding only by (simp only: sum.insert sum.empty finite.emptyI empty_iff not_False_eq_True add_0_right min_absorb1)
  have v: "(out, SkFull) \<in> exported_views (captured reg') 0"
    using x(1) by (simp add: exported_views_def) (metis x(2) image_eqI)
  have "series_text ''brz_req_total'' out SkFull @ show_nat ?n @ [newline]
      \<in> set (family_lines ?env (sorted_sources tmem smem (captured reg')) 0 0)"
    unfolding fam set_map
    by (rule image_eqI [of _ _ "(out, SkFull)"]) (use v n in \<open>simp_all add: Let_def exported_views_def\<close>)
  then have "series_text ''brz_req_total'' out SkFull @ show_nat ?n @ [newline] \<in> set (split_lines (concat chunks))"
    unfolding lines scrape_lines_def by (auto simp: FAMILIES_def intro!: bexI [of _ 0])
  with r read(1) show ?thesis by blast
qed

theorem recorded_is_scraped_witness:
  "\<exists>m reg reg' r chunks r' ns. registry_do (RegName ''a'' Log) (registry_new (\<lambda>_. 0) (\<lambda>_. 1)) = Inr (m, reg) \<and>
     run_steps (\<lambda>(m, z). metric_step m z) [(m, FetchAdd Total 1), (m, FetchAdd Total 1)] reg = Inr reg' \<and>
     from_registry (\<lambda>_. 0) (\<lambda>_. 0) reg' = Inr r \<and> run_all (reader_read (\<lambda>_ _. reg')) ns r = Inr (chunks, r') \<and>
     ''brz_req_total{type='' @ [quote] @ ''LOG'' @ [quote] @ '',name='' @ [quote] @ ''a'' @ [quote] @ ''} 2'' @ [newline]
       \<in> set (split_lines (concat chunks))"
proof -
  obtain m reg where m: "registry_do (RegName ''a'' Log) (registry_new (\<lambda>_. 0) (\<lambda>_. 1)) = Inr (m, reg)"
    "registry_inv reg" "registry_find reg = [NameKey ''a'' Log \<mapsto> m]"
    "registry_abs reg = [NameKey ''a'' Log \<mapsto> slot_default]" "scalars_log (rg_scalars reg) = []"
    by (rule scrape_example [of "''a''" Log "\<lambda>_. 0" "\<lambda>_. 1"])
  let ?calls = "[[(m, CallIncrement)], [(m, CallIncrement)]]"
  let ?zs = "[(m, FetchAdd Total 1), (m, FetchAdd Total 1)]"
  have il: "interleave (map metric_thread ?calls) ?zs"
    using interleave_concat [of "map metric_thread ?calls"] by (simp add: metric_thread_def increment_steps_def)
  have find: "registry_find reg (NameKey ''a'' Log) = Some m" "registry_abs reg (NameKey ''a'' Log) = Some slot_default"
    using m(3,4) by simp_all
  have ran: "\<forall>e \<in> set (concat ?calls). fst e \<in> ran (registry_find reg)" using find(1) by (auto simp: ran_def)
  obtain reg' where run: "run_steps (\<lambda>(m, z). metric_step m z) ?zs reg = Inr reg'"
    using recording_counts [OF m(2) il ran] by (elim exE conjE)
  note ex = increments_exact [OF m(2) find il ran run]
  have "rg_scalars reg' = rg_scalars reg"
    using run registry_rmw_frame by (auto simp: metric_step_def res_bind_Inr_iff)
  with m(5) have "scalars_log (rg_scalars reg') = []" by simp
  note cap = captured_one [OF ex(1) ex(2) [unfolded m(3)] this]
  let ?out = "\<lparr>po_type = ''LOG'', po_name = ''a'', po_resource = None\<rparr>"
  have view: "single_view ''a'' Log = (?out, SkFull)" by (simp add: single_view_def)
  have addr: "addresses_ok (\<lambda>_. 0) (\<lambda>_. 0) (captured reg')"
    by (simp add: addresses_ok_def cap(2) single_source_def inj_on_def)
  have only: "\<forall>x \<in> set (captured reg'). view_of x = (?out, SkFull) \<longrightarrow> so_item x = TimingItem (m_item m)"
    by (simp add: cap(2) single_source_def)
  define ns where "ns = replicate (length (concat (scrape_lines (\<lambda>_ _. reg')
      (sorted_sources (\<lambda>_. 0) (\<lambda>_. 0) (captured reg')) (registry_state_snapshot reg')))) (1 :: nat)"
  have pos: "\<forall>n \<in> set ns. 0 < n" and len: "length (concat (scrape_lines (\<lambda>_ _. reg')
      (sorted_sources (\<lambda>_. 0) (\<lambda>_. 0) (captured reg')) (registry_state_snapshot reg'))) \<le> length ns"
    by (simp_all add: ns_def)
  have two: "show_nat 2 = ''2''" by code_simp
  have n: "(unat (sl_count slot_default) + length (calls_on m (concat ?calls))) mod 2 ^ 64 = 2"
    by (simp add: slot_default_def calls_on_def)
  have series: "series_text ''brz_req_total'' ?out SkFull @ show_nat 2 @ [newline] =
      ''brz_req_total{type='' @ [quote] @ ''LOG'' @ [quote] @ '',name='' @ [quote] @ ''a'' @ [quote] @ ''} 2'' @ [newline]"
    by (simp add: series_text_def two)
  from recorded_is_scraped [OF m(2) find view il ran run cap(1) addr only pos len] m(1) run
  show ?thesis unfolding n series by blast
qed

section \<open>The typed constructors and what they export\<close>









end
